(* ===== verification/Prelude.thy ===== *)
theory Prelude
  imports Main "HOL-Library.Word"
begin

text \<open>
  Shared vocabulary of the development.

  \<^item> The types of \<open>include/duck/common/types.hpp\<close> and the constants of
    \<open>include/duck/config\<close>: page, frame and transaction identifiers at their width, the page
    size, the record identifier \<open>RID\<close>.
  \<^item> Errors as values: \<open>error\<close> lists what a C++ operation can do instead of returning (the
    exceptions the sources throw, a failed \<open>assert\<close>, undefined behaviour such as an access
    past the end of a span, a loop that does not end, \<open>std::terminate\<close>), \<open>'a res\<close> is the result of an operation that may fail.
  \<^item> Byte sequences: checked reads and writes of a span (\<open>subspan\<close>, \<open>store\<close>), the
    little-endian image of an integer (\<open>le_bytes\<close>, \<open>le_word\<close>) that
    \<open>std::bit_cast\<close> and \<open>memcpy\<close> give on the supported targets.
  \<^item> The collections \<open>res_simps\<close> and \<open>seg_simps\<close> that carry the proofs of the
    components.
\<close>

unbundle bit_operations_syntax

section \<open>Names of the code\<close>

type_synonym byte = "8 word"
type_synonym u16 = "16 word"
type_synonym u32 = "32 word"
type_synonym u64 = "64 word"

type_synonym page_id = u32
type_synonym frame_id = u32
type_synonym transaction_id = u64

definition INVALID_PAGE_ID :: page_id where
  "INVALID_PAGE_ID = 0xFFFFFFFF"

definition INVALID_FRAME_ID :: frame_id where
  "INVALID_FRAME_ID = 0xFFFFFFFF"

definition kPAGE_SIZE :: nat where
  "kPAGE_SIZE = 8192"

definition kDISK_METADATA_PAGE_ID :: page_id where
  "kDISK_METADATA_PAGE_ID = 0"

definition kCATALOG_FIRST_PAGE_ID :: page_id where
  "kCATALOG_FIRST_PAGE_ID = 1"

definition kDB_FORMAT_VERSION :: u64 where
  "kDB_FORMAT_VERSION = 1"

definition kDB_MAGIC :: u64 where
  "kDB_MAGIC = 0x4455434B"

record rid =
  rid_page_id :: page_id
  rid_slot_num :: u16

section \<open>Results that may fail\<close>

datatype error =
    Runtime_Error string
  | Invalid_Argument
  | Out_Of_Range
  | Bad_Variant_Access
  | Assertion_Failed
  | Undefined_Behaviour
  | Diverges
  | Terminated

fun is_exception :: "error \<Rightarrow> bool" where
  \<comment> \<open>what a handler can catch; a failed assertion, \<open>std::terminate\<close> and undefined behaviour end the program\<close>
  "is_exception (Runtime_Error m) = True"
| "is_exception Invalid_Argument = True"
| "is_exception Out_Of_Range = True"
| "is_exception Bad_Variant_Access = True"
| "is_exception e = False"

type_synonym 'a res = "error + 'a"

fun bind_res :: "'a res \<Rightarrow> ('a \<Rightarrow> 'b res) \<Rightarrow> 'b res" where
  "bind_res (Inl e) f = Inl e"
| "bind_res (Inr x) f = f x"

definition assert_that :: "bool \<Rightarrow> unit res" where
  "assert_that b = (if b then Inr () else Inl Assertion_Failed)"

definition at_index :: "'a list \<Rightarrow> nat \<Rightarrow> 'a res" where
  \<comment> \<open>\<open>std::vector::at\<close>\<close>
  "at_index xs i = (if i < length xs then Inr (xs ! i) else Inl Out_Of_Range)"

named_theorems res_simps "facts about results that may fail"

lemma bind_res_eq_Inr [res_simps]:
  "bind_res m f = Inr y \<longleftrightarrow> (\<exists>x. m = Inr x \<and> f x = Inr y)"
  by (cases m) auto

lemma bind_res_eq_Inl [res_simps]:
  "bind_res m f = Inl e \<longleftrightarrow> m = Inl e \<or> (\<exists>x. m = Inr x \<and> f x = Inl e)"
  by (cases m) auto

lemma bind_res_assoc: "bind_res (bind_res m f) g = bind_res m (\<lambda>x. bind_res (f x) g)"
  by (cases m) auto

lemma bind_res_cong [fundef_cong]:
  "m = m' \<Longrightarrow> (\<And>x. m' = Inr x \<Longrightarrow> f x = f' x) \<Longrightarrow> bind_res m f = bind_res m' f'"
  by (cases m') auto

lemma assert_that_eq_Inr [res_simps]: "assert_that b = Inr u \<longleftrightarrow> b"
  by (simp add: assert_that_def)

lemma assert_that_True [simp]: "assert_that True = Inr ()"
  by (simp add: assert_that_def)

lemma at_index_in [simp]: "i < length xs \<Longrightarrow> at_index xs i = Inr (xs ! i)"
  by (simp add: at_index_def)

fun map_res :: "('a \<Rightarrow> 'b res) \<Rightarrow> 'a list \<Rightarrow> 'b list res" where
  \<comment> \<open>a loop that pushes one result per element and stops at the first exception\<close>
  "map_res f [] = Inr []"
| "map_res f (x # xs) = bind_res (f x) (\<lambda>y. bind_res (map_res f xs) (\<lambda>ys. Inr (y # ys)))"

lemma map_res_Inr: "(\<And>x. x \<in> set xs \<Longrightarrow> f x = Inr (g x)) \<Longrightarrow> map_res f xs = Inr (map g xs)"
  by (induction xs) auto

lemma length_map_res: "map_res f xs = Inr ys \<Longrightarrow> length ys = length xs"
  by (induction xs arbitrary: ys) (auto simp: res_simps)

lemma nth_map_res: "map_res f xs = Inr ys \<Longrightarrow> i < length xs \<Longrightarrow> f (xs ! i) = Inr (ys ! i)"
proof (induction xs arbitrary: ys i)
  case Nil
  then show ?case by simp
next
  case (Cons x xs)
  then show ?case by (cases i) (auto simp: res_simps)
qed

section \<open>Operations on a state\<close>

text \<open>
  An operation that changes a state and may throw returns both: what it did to the state before
  an exception stays done.
\<close>

type_synonym ('s, 'a) op = "'s \<Rightarrow> 'a res \<times> 's"

definition ret_op :: "'a \<Rightarrow> ('s, 'a) op" where
  "ret_op x s = (Inr x, s)"

definition throw_op :: "error \<Rightarrow> ('s, 'a) op" where
  "throw_op e s = (Inl e, s)"

definition bind_op :: "('s, 'a) op \<Rightarrow> ('a \<Rightarrow> ('s, 'b) op) \<Rightarrow> ('s, 'b) op" where
  "bind_op m f s = (case m s of (Inl e, s') \<Rightarrow> (Inl e, s') | (Inr x, s') \<Rightarrow> f x s')"

definition lift_op :: "'a res \<Rightarrow> ('s, 'a) op" where
  "lift_op r s = (r, s)"

definition get_op :: "('s \<Rightarrow> 'a) \<Rightarrow> ('s, 'a) op" where
  "get_op f s = (Inr (f s), s)"

definition modify_op :: "('s \<Rightarrow> 's) \<Rightarrow> ('s, unit) op" where
  "modify_op f s = (Inr (), f s)"

definition noexcept_op :: "('s, 'a) op \<Rightarrow> ('s, 'a) op" where
  \<comment> \<open>a destructor: an exception that leaves it is \<open>std::terminate\<close>\<close>
  "noexcept_op m s = (case m s of (Inl e, s') \<Rightarrow> (Inl (if is_exception e then Terminated else e), s') | (Inr x, s') \<Rightarrow> (Inr x, s'))"

named_theorems op_simps "running an operation on a state"

lemma ret_op_run [op_simps]: "ret_op x s = (Inr x, s)"
  by (simp add: ret_op_def)

lemma throw_op_run [op_simps]: "throw_op e s = (Inl e, s)"
  by (simp add: throw_op_def)

lemma get_op_run [op_simps]: "get_op f s = (Inr (f s), s)"
  by (simp add: get_op_def)

lemma modify_op_run [op_simps]: "modify_op f s = (Inr (), f s)"
  by (simp add: modify_op_def)

lemma lift_op_run [op_simps]: "lift_op r s = (r, s)"
  by (simp add: lift_op_def)

lemma bind_op_Inr [op_simps]: "m s = (Inr x, s') \<Longrightarrow> bind_op m f s = f x s'"
  by (simp add: bind_op_def)

lemma bind_op_Inl [op_simps]: "m s = (Inl e, s') \<Longrightarrow> bind_op m f s = (Inl e, s')"
  by (simp add: bind_op_def)

lemma bind_op_cases:
  assumes "bind_op m f s = (r, t)"
  obtains e where "m s = (Inl e, t)" "r = Inl e" | x s' where "m s = (Inr x, s')" "f x s' = (r, t)"
  using assms by (auto simp: bind_op_def split: prod.splits sum.splits)

lemma bind_op_eq_Inr:
  "bind_op m f s = (Inr y, t) \<longleftrightarrow> (\<exists>x s'. m s = (Inr x, s') \<and> f x s' = (Inr y, t))"
  by (auto simp: bind_op_def split: prod.splits sum.splits)

lemma bind_op_cong [fundef_cong]:
  "s = s' \<Longrightarrow> m s' = m' s' \<Longrightarrow> (\<And>x u. m' s' = (Inr x, u) \<Longrightarrow> f x u = f' x u) \<Longrightarrow>
    bind_op m f s = bind_op m' f' s'"
  by (auto simp: bind_op_def split: prod.splits sum.splits)

section \<open>Byte sequences\<close>

definition seg :: "'a list \<Rightarrow> nat \<Rightarrow> nat \<Rightarrow> 'a list" where
  "seg xs off n = take n (drop off xs)"

definition put :: "'a list \<Rightarrow> nat \<Rightarrow> 'a list \<Rightarrow> 'a list" where
  "put xs off ys = take off xs @ ys @ drop (off + length ys) xs"

definition subspan :: "'a list \<Rightarrow> nat \<Rightarrow> nat \<Rightarrow> 'a list res" where
  \<comment> \<open>\<open>std::span::subspan(off, n)\<close>: outside the span it is undefined\<close>
  "subspan xs off n = (if off + n \<le> length xs then Inr (seg xs off n) else Inl Undefined_Behaviour)"

definition store :: "'a list \<Rightarrow> nat \<Rightarrow> 'a list \<Rightarrow> 'a list res" where
  \<comment> \<open>\<open>std::copy\<close> or \<open>memcpy\<close> of \<open>ys\<close> to offset \<open>off\<close> of a span\<close>
  "store xs off ys = (if off + length ys \<le> length xs then Inr (put xs off ys) else Inl Undefined_Behaviour)"

named_theorems seg_simps "reading a byte sequence after a write"

lemma length_seg: "length (seg xs off n) = min n (length xs - off)"
  by (simp add: seg_def)

lemma length_seg_in [simp]: "off + n \<le> length xs \<Longrightarrow> length (seg xs off n) = n"
  by (simp add: seg_def)

lemma length_put [simp]: "off + length ys \<le> length xs \<Longrightarrow> length (put xs off ys) = length xs"
  by (simp add: put_def)

lemma seg_all [simp]: "seg xs 0 (length xs) = xs"
  by (simp add: seg_def)

lemma seg_0 [simp]: "seg xs off 0 = []"
  by (simp add: seg_def)

lemma nth_seg: "i < n \<Longrightarrow> off + n \<le> length xs \<Longrightarrow> seg xs off n ! i = xs ! (off + i)"
  by (simp add: seg_def)

lemma nth_put:
  assumes "off + length ys \<le> length xs"
  shows "put xs off ys ! i = (if off \<le> i \<and> i < off + length ys then ys ! (i - off) else xs ! i)"
proof -
  consider "i < off" | "off \<le> i" "i < off + length ys" | "off + length ys \<le> i"
    by linarith
  moreover have "length (take off xs) = off" using assms by simp
  ultimately show ?thesis
    using assms by cases (auto simp: put_def nth_append simp del: length_take)
qed

lemma seg_put_same [seg_simps]:
  "off + length ys \<le> length xs \<Longrightarrow> n = length ys \<Longrightarrow> seg (put xs off ys) off n = ys"
  by (simp add: seg_def put_def)

lemma seg_put_other [seg_simps]:
  assumes "off + length ys \<le> length xs" and "o2 + n \<le> length xs"
    and "o2 + n \<le> off \<or> off + length ys \<le> o2"
  shows "seg (put xs off ys) o2 n = seg xs o2 n"
proof (rule nth_equalityI)
  show "length (seg (put xs off ys) o2 n) = length (seg xs o2 n)"
    using assms by simp
next
  fix i
  assume "i < length (seg (put xs off ys) o2 n)"
  then have "i < n" using assms by simp
  then show "seg (put xs off ys) o2 n ! i = seg xs o2 n ! i"
    using assms by (auto simp: nth_seg nth_put)
qed

lemma seg_seg: "i + n \<le> m \<Longrightarrow> seg (seg xs off m) i n = seg xs (off + i) n"
  by (simp add: seg_def drop_take take_take min_def add.commute)

lemma seg_append_left [seg_simps]: "off + n \<le> length xs \<Longrightarrow> seg (xs @ ys) off n = seg xs off n"
  by (simp add: seg_def)

lemma seg_append_right [seg_simps]:
  "length xs \<le> off \<Longrightarrow> seg (xs @ ys) off n = seg ys (off - length xs) n"
  by (simp add: seg_def)

lemma seg_append_head [seg_simps]: "seg (xs @ ys) 0 (length xs) = xs"
  by (simp add: seg_def)

lemma seg_put_inside:
  assumes "off + length ys \<le> length xs" "off \<le> o2" "o2 + n \<le> off + length ys"
  shows "seg (put xs off ys) o2 n = seg ys (o2 - off) n"
proof (rule nth_equalityI)
  show "length (seg (put xs off ys) o2 n) = length (seg ys (o2 - off) n)"
    using assms by simp
  fix i
  assume "i < length (seg (put xs off ys) o2 n)"
  then have i: "i < n" using assms by simp
  then show "seg (put xs off ys) o2 n ! i = seg ys (o2 - off) n ! i"
    using assms by (simp add: nth_seg nth_put)
qed

lemma seg_full: "length xs = n \<Longrightarrow> seg xs 0 n = xs"
  by auto

lemma seg_drop: "seg (drop a xs) off n = seg xs (a + off) n"
  by (simp add: seg_def add.commute)

lemma seg_concat_blocks:
  assumes "\<And>x. x \<in> set xs \<Longrightarrow> length (f x) = w" "i < length xs" "off + n \<le> w"
  shows "seg (concat (map f xs)) (w * i + off) n = seg (f (xs ! i)) off n"
  using assms
proof (induction xs arbitrary: i)
  case Nil
  then show ?case by simp
next
  case (Cons x xs)
  show ?case
  proof (cases i)
    case 0
    then show ?thesis using Cons.prems by (simp add: seg_append_left)
  next
    case (Suc i')
    then show ?thesis
      using Cons.prems Cons.IH[of i'] by (simp add: seg_append_right)
  qed
qed

lemma length_concat_blocks:
  "(\<And>x. x \<in> set xs \<Longrightarrow> length (f x) = w) \<Longrightarrow> length (concat (map f xs)) = w * length xs"
  by (induction xs) auto

lemma put_put_same: "length ys = length zs \<Longrightarrow> off + length ys \<le> length xs \<Longrightarrow>
    put (put xs off ys) off zs = put xs off zs"
  by (simp add: put_def)

lemma subspan_in [simp]: "off + n \<le> length xs \<Longrightarrow> subspan xs off n = Inr (seg xs off n)"
  by (simp add: subspan_def)

lemma store_in [simp]: "off + length ys \<le> length xs \<Longrightarrow> store xs off ys = Inr (put xs off ys)"
  by (simp add: store_def)

lemma subspan_eq_Inr [res_simps]:
  "subspan xs off n = Inr ys \<longleftrightarrow> off + n \<le> length xs \<and> ys = seg xs off n"
  by (auto simp: subspan_def)

lemma store_eq_Inr [res_simps]:
  "store xs off ys = Inr zs \<longleftrightarrow> off + length ys \<le> length xs \<and> zs = put xs off ys"
  by (auto simp: store_def)

section \<open>Little-endian integers\<close>

fun le_bytes :: "nat \<Rightarrow> 'a::len word \<Rightarrow> byte list" where
  "le_bytes 0 w = []"
| "le_bytes (Suc n) w = ucast w # le_bytes n (drop_bit 8 w)"

fun le_word :: "byte list \<Rightarrow> 'a::len word" where
  "le_word [] = 0"
| "le_word (b # bs) = ucast b OR push_bit 8 (le_word bs)"

lemma length_le_bytes [simp]: "length (le_bytes n w) = n"
  by (induction n arbitrary: w) auto

lemma le_word_le_bytes: "le_word (le_bytes n w) = take_bit (8 * n) w"
proof (induction n arbitrary: w)
  case 0
  then show ?case by simp
next
  case (Suc n)
  show ?case
    by (rule bit_word_eqI)
      (auto simp: Suc bit_simps not_le less_diff_conv2)
qed

lemma le_word_le_bytes_id:
  fixes w :: "'a::len word"
  assumes "LENGTH('a) \<le> 8 * n"
  shows "le_word (le_bytes n w) = w"
  using assms by (simp add: le_word_le_bytes take_bit_word_eq_self)

lemma le_word_inverse16 [simp]: "le_word (le_bytes 2 (w :: u16)) = w"
  by (rule le_word_le_bytes_id) simp

lemma le_word_inverse32 [simp]: "le_word (le_bytes 4 (w :: u32)) = w"
  by (rule le_word_le_bytes_id) simp

lemma le_word_inverse64 [simp]: "le_word (le_bytes 8 (w :: u64)) = w"
  by (rule le_word_le_bytes_id) simp

lemma le_bytes_le_word:
  assumes "8 * length bs \<le> LENGTH('a)"
  shows "le_bytes (length bs) (le_word bs :: 'a::len word) = bs"
  using assms
proof (induction bs)
  case Nil
  then show ?case by simp
next
  case (Cons b bs)
  have "8 \<le> LENGTH('a)" using Cons.prems by simp
  then have low: "ucast (ucast b OR push_bit 8 (le_word bs) :: 'a word) = b"
    by (intro bit_word_eqI) (auto simp: bit_simps)
  have len: "bit (le_word bs :: 'a word) i \<Longrightarrow> i < 8 * length bs" for i
  proof (induction bs arbitrary: i)
    case (Cons c cs)
    then show ?case
      by (auto simp: bit_simps dest: bit_imp_le_length) fastforce
  qed simp
  have "drop_bit 8 (ucast b OR push_bit 8 (le_word bs) :: 'a word) = le_word bs"
    using Cons.prems by (intro bit_word_eqI) (auto simp: bit_simps dest: bit_imp_le_length len)
  with low show ?case using Cons by simp
qed

definition load16 :: "byte list \<Rightarrow> nat \<Rightarrow> u16 res" where
  "load16 d off = bind_res (subspan d off 2) (\<lambda>bs. Inr (le_word bs))"

definition load32 :: "byte list \<Rightarrow> nat \<Rightarrow> u32 res" where
  "load32 d off = bind_res (subspan d off 4) (\<lambda>bs. Inr (le_word bs))"

definition store16 :: "byte list \<Rightarrow> nat \<Rightarrow> u16 \<Rightarrow> byte list res" where
  "store16 d off w = store d off (le_bytes 2 w)"

definition store32 :: "byte list \<Rightarrow> nat \<Rightarrow> u32 \<Rightarrow> byte list res" where
  "store32 d off w = store d off (le_bytes 4 w)"

section \<open>Words as numbers\<close>

lemma unat_of_nat16: "n < 65536 \<Longrightarrow> unat (of_nat n :: u16) = n"
  by (simp add: unsigned_of_nat take_bit_nat_eq_self)

lemma unat_Suc16: "unat (w :: u16) < 65535 \<Longrightarrow> unat (w + 1) = Suc (unat w)"
  by (simp add: unat_word_ariths)

lemma unat_of_nat32: "n < 2 ^ 32 \<Longrightarrow> unat (of_nat n :: u32) = n"
  by (simp add: unsigned_of_nat take_bit_nat_eq_self)

end
