(* ===== verification/Slotted_Page.thy ===== *)
theory Slotted_Page
  imports Prelude
begin

text \<open>
  The slotted page of \<open>src/table/slotted_page.cpp\<close>, on the bytes of the page.

  A page is the byte sequence behind \<open>data_\<close>. The struct \<open>PageHeader\<close> is read and
  written at offset 0 (\<open>next_page_id\<close> in bytes 0-3, \<open>slot_count\<close> in 4-5,
  \<open>free_space_offset\<close> in 6-7) and \<open>slots_[i]\<close> at \<open>8 + 4 * i\<close>
  (\<open>offset\<close>, then \<open>length\<close>); both structs are packed. An access outside the span is
  \<open>Undefined_Behaviour\<close>. An operation that changes the page returns the new bytes.
\<close>

section \<open>Layout\<close>

definition sizeof_PageHeader :: nat where
  "sizeof_PageHeader = 8"

definition sizeof_Slot :: nat where
  "sizeof_Slot = 4"

definition INVALID_SLOT_OFFSET :: u16 where
  "INVALID_SLOT_OFFSET = 0"

definition slot_pos :: "nat \<Rightarrow> nat" where
  "slot_pos i = sizeof_PageHeader + sizeof_Slot * i"

definition next_page_id :: "byte list \<Rightarrow> page_id res" where
  "next_page_id d = load32 d 0"

definition slot_count :: "byte list \<Rightarrow> u16 res" where
  "slot_count d = load16 d 4"

definition free_space_offset :: "byte list \<Rightarrow> u16 res" where
  "free_space_offset d = load16 d 6"

definition slot_offset :: "byte list \<Rightarrow> nat \<Rightarrow> u16 res" where
  "slot_offset d i = load16 d (slot_pos i)"

definition slot_length :: "byte list \<Rightarrow> nat \<Rightarrow> u16 res" where
  "slot_length d i = load16 d (slot_pos i + 2)"

definition set_next_page_id :: "byte list \<Rightarrow> page_id \<Rightarrow> byte list res" where
  "set_next_page_id d w = store32 d 0 w"

definition set_slot_count :: "byte list \<Rightarrow> u16 \<Rightarrow> byte list res" where
  "set_slot_count d w = store16 d 4 w"

definition set_free_space_offset :: "byte list \<Rightarrow> u16 \<Rightarrow> byte list res" where
  "set_free_space_offset d w = store16 d 6 w"

definition set_slot_offset :: "byte list \<Rightarrow> nat \<Rightarrow> u16 \<Rightarrow> byte list res" where
  "set_slot_offset d i w = store16 d (slot_pos i) w"

definition set_slot_length :: "byte list \<Rightarrow> nat \<Rightarrow> u16 \<Rightarrow> byte list res" where
  "set_slot_length d i w = store16 d (slot_pos i + 2) w"

definition copy_into :: "byte list \<Rightarrow> nat \<Rightarrow> nat \<Rightarrow> byte list \<Rightarrow> byte list res" where
  \<comment> \<open>\<open>auto dest = data_.subspan(off, n); std::copy(t.begin(), t.end(), dest.begin())\<close>\<close>
  "copy_into d off n t =
     bind_res (subspan d off n) (\<lambda>_.
       if length t \<le> n then store d off t else Inl Undefined_Behaviour)"

section \<open>Operations\<close>

definition sp_init :: "byte list \<Rightarrow> byte list res" where
  "sp_init d =
     bind_res (set_next_page_id d INVALID_PAGE_ID) (\<lambda>d1.
     bind_res (set_free_space_offset d1 (of_nat (length d))) (\<lambda>d2.
     set_slot_count d2 0))"

definition sp_free_space_bytes :: "byte list \<Rightarrow> int res" where
  "sp_free_space_bytes d =
     bind_res (slot_count d) (\<lambda>sc.
     bind_res (free_space_offset d) (\<lambda>fso.
     Inr (int (unat fso) - int (sizeof_PageHeader + unat sc * sizeof_Slot))))"

fun sp_find_empty_from :: "byte list \<Rightarrow> nat \<Rightarrow> nat \<Rightarrow> u16 option res" where
  \<comment> \<open>the loop of \<open>find_empty_slot\<close> at index \<open>i\<close> with \<open>n\<close> slots left\<close>
  "sp_find_empty_from d i 0 = Inr None"
| "sp_find_empty_from d i (Suc n) =
     bind_res (slot_offset d i) (\<lambda>off.
       if off = INVALID_SLOT_OFFSET then Inr (Some (of_nat i))
       else sp_find_empty_from d (Suc i) n)"

definition sp_find_empty_slot :: "byte list \<Rightarrow> u16 option res" where
  "sp_find_empty_slot d = bind_res (slot_count d) (\<lambda>sc. sp_find_empty_from d 0 (unat sc))"

definition sp_allocate_slot :: "byte list \<Rightarrow> (u16 \<times> byte list) res" where
  "sp_allocate_slot d =
     bind_res (slot_count d) (\<lambda>slot_idx.
     bind_res (set_slot_count d (slot_idx + 1)) (\<lambda>d1.
     bind_res (set_slot_offset d1 (unat slot_idx) INVALID_SLOT_OFFSET) (\<lambda>d2.
     Inr (slot_idx, d2))))"

definition sp_preferred_free :: "byte list \<Rightarrow> u16 option \<Rightarrow> bool res" where
  \<comment> \<open>\<open>prefered_slot.has_value() && prefered_slot < slot_count && slots_[*].offset == INVALID\<close>\<close>
  "sp_preferred_free d pref =
     (case pref of
        None \<Rightarrow> Inr False
      | Some p \<Rightarrow>
          bind_res (slot_count d) (\<lambda>sc.
            if p < sc
            then bind_res (slot_offset d (unat p)) (\<lambda>off. Inr (off = INVALID_SLOT_OFFSET))
            else Inr False))"

definition sp_choose_slot :: "byte list \<Rightarrow> int \<Rightarrow> u16 \<Rightarrow> u16 option \<Rightarrow> (u16 \<times> byte list) option res" where
  \<comment> \<open>the \<open>if / else if / else\<close> of \<open>insert_tuple\<close> that picks \<open>slot_idx\<close>\<close>
  "sp_choose_slot d available_space tuple_size pref =
     bind_res (sp_preferred_free d pref) (\<lambda>use.
       if use then Inr (Some (the pref, d))
       else bind_res (sp_find_empty_slot d) (\<lambda>found.
         case found of
           Some slot \<Rightarrow> Inr (Some (slot, d))
         | None \<Rightarrow>
             if available_space - int (unat tuple_size) < int sizeof_Slot then Inr None
             else bind_res (sp_allocate_slot d) (\<lambda>r. Inr (Some r))))"

definition sp_place_tuple :: "byte list \<Rightarrow> u16 \<Rightarrow> u16 \<Rightarrow> byte list \<Rightarrow> byte list res" where
  \<comment> \<open>the writes of \<open>sp_insert_tuple\<close> once \<open>slot_idx\<close> is known\<close>
  "sp_place_tuple d slot_idx tuple_size t =
     bind_res (set_slot_length d (unat slot_idx) tuple_size) (\<lambda>d1.
     bind_res (free_space_offset d1) (\<lambda>fso.
     bind_res (set_slot_offset d1 (unat slot_idx) (fso - tuple_size)) (\<lambda>d2.
     bind_res (set_free_space_offset d2 (fso - tuple_size)) (\<lambda>d3.
     copy_into d3 (unat (fso - tuple_size)) (unat tuple_size) t))))"

definition sp_insert_tuple :: "byte list \<Rightarrow> byte list \<Rightarrow> u16 option \<Rightarrow> (rid option \<times> byte list) res" where
  "sp_insert_tuple d t pref =
     bind_res (sp_free_space_bytes d) (\<lambda>available_space.
     let tuple_size = of_nat (length t) :: u16 in
       if available_space < int (unat tuple_size) then Inr (None, d)
       else bind_res (sp_choose_slot d available_space tuple_size pref) (\<lambda>choice.
         case choice of
           None \<Rightarrow> Inr (None, d)
         | Some (slot_idx, d1) \<Rightarrow>
             bind_res (sp_place_tuple d1 slot_idx tuple_size t) (\<lambda>d2.
             Inr (Some \<lparr>rid_page_id = INVALID_PAGE_ID, rid_slot_num = slot_idx\<rparr>, d2))))"

definition sp_get_tuple :: "byte list \<Rightarrow> u16 \<Rightarrow> byte list res" where
  "sp_get_tuple d slot_num =
     bind_res (slot_count d) (\<lambda>sc.
       if sc \<le> slot_num then Inr []
       else bind_res (slot_offset d (unat slot_num)) (\<lambda>off.
         if off = INVALID_SLOT_OFFSET then Inr []
         else bind_res (slot_length d (unat slot_num)) (\<lambda>len.
           subspan d (unat off) (unat len))))"

definition sp_try_update_in_place :: "byte list \<Rightarrow> rid \<Rightarrow> byte list \<Rightarrow> (bool \<times> byte list) res" where
  "sp_try_update_in_place d r t =
     bind_res (slot_count d) (\<lambda>sc.
       if sc \<le> rid_slot_num r then Inr (False, d)
       else bind_res (slot_offset d (unat (rid_slot_num r))) (\<lambda>off.
         if off = INVALID_SLOT_OFFSET then Inr (False, d)
         else bind_res (slot_length d (unat (rid_slot_num r))) (\<lambda>len.
           let tuple_size = of_nat (length t) :: u16 in
           if len < tuple_size then Inr (False, d)
           else bind_res (copy_into d (unat off) (unat tuple_size) t) (\<lambda>d1.
             bind_res (set_slot_length d1 (unat (rid_slot_num r)) tuple_size) (\<lambda>d2.
             Inr (True, d2))))))"

definition sp_delete_tuple :: "byte list \<Rightarrow> u16 \<Rightarrow> (bool \<times> byte list) res" where
  "sp_delete_tuple d slot_num =
     bind_res (slot_count d) (\<lambda>sc.
       if sc \<le> slot_num then Inr (False, d)
       else bind_res (slot_offset d (unat slot_num)) (\<lambda>off.
         if off = INVALID_SLOT_OFFSET then Inr (False, d)
         else bind_res (set_slot_offset d (unat slot_num) INVALID_SLOT_OFFSET) (\<lambda>d1.
           Inr (True, d1))))"

fun sp_is_compacted_from :: "byte list \<Rightarrow> nat \<Rightarrow> nat \<Rightarrow> u16 \<Rightarrow> bool res" where
  \<comment> \<open>the loop of \<open>is_compacted\<close> at index \<open>i\<close> with \<open>n\<close> slots left\<close>
  "sp_is_compacted_from d i 0 next_offset = Inr (unat next_offset = kPAGE_SIZE)"
| "sp_is_compacted_from d i (Suc n) next_offset =
     bind_res (slot_offset d i) (\<lambda>off.
       if off = INVALID_SLOT_OFFSET then sp_is_compacted_from d (Suc i) n next_offset
       else if next_offset \<noteq> off then Inr False
       else bind_res (slot_length d i) (\<lambda>len.
         sp_is_compacted_from d (Suc i) n (next_offset + len)))"

definition sp_is_compacted :: "byte list \<Rightarrow> bool res" where
  "sp_is_compacted d =
     bind_res (slot_count d) (\<lambda>sc.
       if sc = 0 then Inr True
       else bind_res (slot_offset d 0) (\<lambda>off. sp_is_compacted_from d 0 (unat sc) off))"

fun sp_compact_from ::
  "byte list \<Rightarrow> nat \<Rightarrow> nat \<Rightarrow> u16 \<Rightarrow> (u16 \<times> u16) list \<Rightarrow> byte list \<Rightarrow>
    (u16 \<times> (u16 \<times> u16) list \<times> byte list) res" where
  \<comment> \<open>the loop of \<open>compact\<close>: \<open>offset\<close>, \<open>compacted_slots\<close> and the array \<open>compacted\<close>\<close>
  "sp_compact_from d i 0 offset slots buf = Inr (offset, slots, buf)"
| "sp_compact_from d i (Suc n) offset slots buf =
     bind_res (slot_offset d i) (\<lambda>off.
       if off = INVALID_SLOT_OFFSET
       then sp_compact_from d (Suc i) n offset (slots @ [(INVALID_SLOT_OFFSET, 0)]) buf
       else bind_res (slot_length d i) (\<lambda>len.
         bind_res (subspan d (unat off) (unat len)) (\<lambda>slot_data.
         bind_res (store buf (unat (offset - len)) slot_data) (\<lambda>buf'.
         sp_compact_from d (Suc i) n (offset - len) (slots @ [(offset - len, len)]) buf'))))"

definition slot_bytes :: "u16 \<times> u16 \<Rightarrow> byte list" where
  "slot_bytes s = le_bytes 2 (fst s) @ le_bytes 2 (snd s)"

definition sp_compact :: "byte list \<Rightarrow> byte list res" where
  "sp_compact d =
     bind_res (next_page_id d) (\<lambda>nxt.
     bind_res (slot_count d) (\<lambda>sc.
     bind_res (sp_compact_from d 0 (unat sc) (of_nat kPAGE_SIZE) [] (replicate kPAGE_SIZE 0))
       (\<lambda>(offset, slots, compacted).
     bind_res (store (replicate (length d) 0) 0
         (le_bytes 4 nxt @ le_bytes 2 sc @ le_bytes 2 offset)) (\<lambda>d1.
     bind_res (store d1 sizeof_PageHeader (concat (map slot_bytes slots))) (\<lambda>d2.
     store d2 (unat offset) (drop (unat offset) compacted))))))"

definition sp_restore_tuple :: "byte list \<Rightarrow> u16 \<Rightarrow> byte list \<Rightarrow> byte list res" where
  "sp_restore_tuple d slot_num t =
     bind_res (slot_count d) (\<lambda>sc.
     bind_res (assert_that (slot_num < sc)) (\<lambda>_.
     bind_res (slot_offset d (unat slot_num)) (\<lambda>off.
     bind_res (assert_that (off = INVALID_SLOT_OFFSET)) (\<lambda>_.
     bind_res (sp_free_space_bytes d) (\<lambda>free.
     let tuple_size = of_nat (length t) :: u16 in
     bind_res
       (if free < int (unat tuple_size)
        then bind_res (sp_compact d) (\<lambda>d1.
             bind_res (sp_free_space_bytes d1) (\<lambda>free1.
             bind_res (assert_that (int (unat tuple_size) \<le> free1)) (\<lambda>_. Inr d1)))
        else Inr d) (\<lambda>d2.
     bind_res (sp_insert_tuple d2 t (Some slot_num)) (\<lambda>(r, d3).
     bind_res (assert_that (r \<noteq> None)) (\<lambda>_. Inr d3))))))))"

definition sp_set_next_page :: "byte list \<Rightarrow> page_id \<Rightarrow> byte list res" where
  "sp_set_next_page d p = set_next_page_id d p"

definition sp_next_page :: "byte list \<Rightarrow> page_id res" where
  "sp_next_page d = next_page_id d"

definition sp_has_slot :: "byte list \<Rightarrow> u16 \<Rightarrow> bool res" where
  "sp_has_slot d slot_num =
     bind_res (slot_count d) (\<lambda>sc.
       if slot_num < sc
       then bind_res (slot_offset d (unat slot_num)) (\<lambda>off. Inr (off \<noteq> INVALID_SLOT_OFFSET))
       else Inr False)"

fun sp_next_occupied_from :: "byte list \<Rightarrow> nat \<Rightarrow> nat \<Rightarrow> u16 option res" where
  \<comment> \<open>the loop of \<open>next_occupied_slot\<close> at index \<open>i\<close> with \<open>n\<close> slots left\<close>
  "sp_next_occupied_from d i 0 = Inr None"
| "sp_next_occupied_from d i (Suc n) =
     bind_res (slot_offset d i) (\<lambda>off.
       if off \<noteq> INVALID_SLOT_OFFSET then Inr (Some (of_nat i))
       else sp_next_occupied_from d (Suc i) n)"

definition sp_next_occupied_slot :: "byte list \<Rightarrow> u16 \<Rightarrow> u16 option res" where
  "sp_next_occupied_slot d slot_num =
     bind_res (slot_count d) (\<lambda>sc.
       sp_next_occupied_from d (unat (slot_num + 1)) (unat sc - unat (slot_num + 1)))"

definition sp_has_next_page :: "byte list \<Rightarrow> bool res" where
  "sp_has_next_page d = bind_res (next_page_id d) (\<lambda>p. Inr (p \<noteq> INVALID_PAGE_ID))"

end
