(* ===== verification/Slotted_Page_Laws.thy ===== *)
theory Slotted_Page_Laws
  imports Slotted_Page
begin

text \<open>
  What a slotted page promises: an abstract page is a finite map from slot numbers to tuples
  (\<open>pg_tuple\<close>), the well-formedness invariant is \<open>page_ok\<close>, and every operation of
  \<open>Slotted_Page\<close> keeps the invariant and acts on the map as its name says.

  \<open>pg_count\<close>, \<open>pg_fso\<close>, \<open>pg_off\<close>, \<open>pg_len\<close> and \<open>pg_next\<close> read the header and
  the slots as numbers; the collection \<open>page_simps\<close> says how they change under a write.
\<close>

section \<open>Reading the bytes as numbers\<close>

definition w16 :: "byte list \<Rightarrow> nat \<Rightarrow> u16" where
  "w16 d off = le_word (seg d off 2)"

definition put16 :: "byte list \<Rightarrow> nat \<Rightarrow> u16 \<Rightarrow> byte list" where
  "put16 d off w = put d off (le_bytes 2 w)"

definition pg_next :: "byte list \<Rightarrow> page_id" where
  "pg_next d = le_word (seg d 0 4)"

definition pg_count :: "byte list \<Rightarrow> nat" where
  "pg_count d = unat (w16 d 4)"

definition pg_fso :: "byte list \<Rightarrow> nat" where
  "pg_fso d = unat (w16 d 6)"

definition pg_off :: "byte list \<Rightarrow> nat \<Rightarrow> nat" where
  "pg_off d i = unat (w16 d (slot_pos i))"

definition pg_len :: "byte list \<Rightarrow> nat \<Rightarrow> nat" where
  "pg_len d i = unat (w16 d (slot_pos i + 2))"

definition pg_live :: "byte list \<Rightarrow> nat \<Rightarrow> bool" where
  "pg_live d i \<longleftrightarrow> i < pg_count d \<and> pg_off d i \<noteq> 0"

definition pg_tuple :: "byte list \<Rightarrow> nat \<Rightarrow> byte list option" where
  "pg_tuple d i = (if pg_live d i then Some (seg d (pg_off d i) (pg_len d i)) else None)"

definition header_ok :: "byte list \<Rightarrow> bool" where
  "header_ok d \<longleftrightarrow> length d = kPAGE_SIZE \<and> slot_pos (pg_count d) \<le> pg_fso d \<and> pg_fso d \<le> kPAGE_SIZE"

definition slots_in_range :: "byte list \<Rightarrow> bool" where
  "slots_in_range d \<longleftrightarrow>
     (\<forall>i<pg_count d. pg_off d i \<noteq> 0 \<longrightarrow> pg_fso d \<le> pg_off d i \<and> pg_off d i + pg_len d i \<le> kPAGE_SIZE)"

definition slots_disjoint :: "byte list \<Rightarrow> bool" where
  "slots_disjoint d \<longleftrightarrow>
     (\<forall>i<pg_count d. \<forall>j<pg_count d. i \<noteq> j \<and> pg_off d i \<noteq> 0 \<and> pg_off d j \<noteq> 0 \<longrightarrow>
        pg_off d i + pg_len d i \<le> pg_off d j \<or> pg_off d j + pg_len d j \<le> pg_off d i)"

definition page_ok :: "byte list \<Rightarrow> bool" where
  "page_ok d \<longleftrightarrow> header_ok d \<and> slots_in_range d \<and> slots_disjoint d"

definition pg_free :: "byte list \<Rightarrow> int" where
  "pg_free d = int (pg_fso d) - int (slot_pos (pg_count d))"

named_theorems page_simps "fields of a page after a write"

lemmas pg_defs = pg_count_def pg_fso_def pg_off_def pg_len_def

lemma slot_pos_eq: "slot_pos i = 8 + 4 * i"
  by (simp add: slot_pos_def sizeof_PageHeader_def sizeof_Slot_def)

lemma w16_put16_same [page_simps]: "off + 2 \<le> length d \<Longrightarrow> w16 (put16 d off w) off = w"
  by (simp add: w16_def put16_def seg_put_same)

lemma w16_put_other [page_simps]:
  "off + length ys \<le> length d \<Longrightarrow> o2 + 2 \<le> length d \<Longrightarrow> o2 + 2 \<le> off \<or> off + length ys \<le> o2 \<Longrightarrow>
    w16 (put d off ys) o2 = w16 d o2"
  by (simp add: w16_def seg_put_other)

lemma w16_put16_other [page_simps]:
  "off + 2 \<le> length d \<Longrightarrow> o2 + 2 \<le> length d \<Longrightarrow> o2 + 2 \<le> off \<or> off + 2 \<le> o2 \<Longrightarrow>
    w16 (put16 d off w) o2 = w16 d o2"
  by (simp add: put16_def w16_put_other)

lemma length_put16 [simp]: "off + 2 \<le> length d \<Longrightarrow> length (put16 d off w) = length d"
  by (simp add: put16_def)

lemma seg_put16_other [page_simps]:
  "off + 2 \<le> length d \<Longrightarrow> o2 + n \<le> length d \<Longrightarrow> o2 + n \<le> off \<or> off + 2 \<le> o2 \<Longrightarrow>
    seg (put16 d off w) o2 n = seg d o2 n"
  by (simp add: put16_def seg_put_other)

lemma store16_put16: "off + 2 \<le> length d \<Longrightarrow> store16 d off w = Inr (put16 d off w)"
  by (simp add: store16_def put16_def)

lemma load16_w16: "off + 2 \<le> length d \<Longrightarrow> load16 d off = Inr (w16 d off)"
  by (simp add: load16_def w16_def)

lemma header_okD:
  assumes "header_ok d"
  shows "length d = 8192" "8 + 4 * pg_count d \<le> pg_fso d" "pg_fso d \<le> 8192" "8 + 4 * pg_count d \<le> 8192"
  using assms by (auto simp: header_ok_def slot_pos_eq kPAGE_SIZE_def)

lemma page_okD:
  assumes "page_ok d"
  shows "header_ok d" "slots_in_range d" "slots_disjoint d"
  using assms by (simp_all add: page_ok_def)

lemma slots_in_rangeD:
  "slots_in_range d \<Longrightarrow> i < pg_count d \<Longrightarrow> pg_off d i \<noteq> 0 \<Longrightarrow>
    pg_fso d \<le> pg_off d i \<and> pg_off d i + pg_len d i \<le> 8192"
  by (simp add: slots_in_range_def kPAGE_SIZE_def)

lemma slots_disjointD:
  "slots_disjoint d \<Longrightarrow> i < pg_count d \<Longrightarrow> j < pg_count d \<Longrightarrow> i \<noteq> j \<Longrightarrow> pg_off d i \<noteq> 0 \<Longrightarrow> pg_off d j \<noteq> 0 \<Longrightarrow>
    pg_off d i + pg_len d i \<le> pg_off d j \<or> pg_off d j + pg_len d j \<le> pg_off d i"
  by (simp add: slots_disjoint_def)

section \<open>Every access of a well-formed page is inside it\<close>

lemma read_next_page_id: "header_ok d \<Longrightarrow> next_page_id d = Inr (pg_next d)"
  by (auto simp: next_page_id_def load32_def pg_next_def dest: header_okD)

lemma read_slot_count: "header_ok d \<Longrightarrow> slot_count d = Inr (w16 d 4)"
  by (auto simp: slot_count_def load16_w16 dest: header_okD)

lemma read_free_space_offset: "header_ok d \<Longrightarrow> free_space_offset d = Inr (w16 d 6)"
  by (auto simp: free_space_offset_def load16_w16 dest: header_okD)

lemma read_slot_offset: "header_ok d \<Longrightarrow> i < pg_count d \<Longrightarrow> slot_offset d i = Inr (w16 d (slot_pos i))"
  using header_okD[of d] by (simp add: slot_offset_def load16_w16 slot_pos_eq)

lemma read_slot_length: "header_ok d \<Longrightarrow> i < pg_count d \<Longrightarrow> slot_length d i = Inr (w16 d (slot_pos i + 2))"
  using header_okD[of d] by (simp add: slot_length_def load16_w16 slot_pos_eq)

lemmas page_reads = read_next_page_id read_slot_count read_free_space_offset read_slot_offset read_slot_length

lemma free_space_eq: "header_ok d \<Longrightarrow> sp_free_space_bytes d = Inr (pg_free d)"
  by (simp add: sp_free_space_bytes_def page_reads pg_free_def slot_pos_eq sizeof_PageHeader_def
      sizeof_Slot_def pg_count_def pg_fso_def)

lemma offset_invalid_iff: "w16 d (slot_pos i) = INVALID_SLOT_OFFSET \<longleftrightarrow> pg_off d i = 0"
  by (simp add: pg_off_def INVALID_SLOT_OFFSET_def unat_eq_0)

lemma find_empty_from_eq:
  "header_ok d \<Longrightarrow> i + n \<le> pg_count d \<Longrightarrow>
    sp_find_empty_from d i n = Inr (map_option of_nat (find (\<lambda>j. pg_off d j = 0) [i..<i + n]))"
proof (induction n arbitrary: i)
  case 0
  then show ?case by simp
next
  case (Suc n)
  have "[i..<i + Suc n] = i # [Suc i..<Suc i + n]"
    by (simp add: upt_rec)
  with Suc show ?case by (simp add: page_reads offset_invalid_iff)
qed

lemma find_empty_slot_eq:
  "header_ok d \<Longrightarrow>
    sp_find_empty_slot d = Inr (map_option of_nat (find (\<lambda>j. pg_off d j = 0) [0..<pg_count d]))"
  using find_empty_from_eq[of d 0 "pg_count d"]
  by (simp add: sp_find_empty_slot_def page_reads pg_count_def)

section \<open>Placing a tuple in a slot\<close>

definition pg_place :: "byte list \<Rightarrow> nat \<Rightarrow> byte list \<Rightarrow> byte list" where
  "pg_place d k t =
     (let off = w16 d 6 - of_nat (length t) in
      put (put16 (put16 (put16 d (slot_pos k + 2) (of_nat (length t))) (slot_pos k) off) 6 off)
        (unat off) t)"

lemma pg_count_lt: "pg_count d < 65536"
  unfolding pg_count_def using unsigned_less[of "w16 d 4"] by simp

lemma place_fields:
  assumes "header_ok d" "k < pg_count d" "slot_pos (pg_count d) + length t \<le> pg_fso d"
  defines "d' \<equiv> pg_place d k t"
  shows "length d' = 8192" "pg_count d' = pg_count d" "pg_next d' = pg_next d"
    "pg_fso d' = pg_fso d - length t"
    "i < pg_count d \<Longrightarrow> pg_off d' i = (if i = k then pg_fso d - length t else pg_off d i)"
    "i < pg_count d \<Longrightarrow> pg_len d' i = (if i = k then length t else pg_len d i)"
    "seg d' (pg_fso d - length t) (length t) = t"
    "pg_fso d \<le> off \<Longrightarrow> off + n \<le> 8192 \<Longrightarrow> seg d' off n = seg d off n"
proof -
  note h = header_okD[OF assms(1)]
  have t: "8 + 4 * pg_count d + length t \<le> pg_fso d" "length t < 65536" "pg_fso d - length t < 65536"
    using assms(3) h by (auto simp: slot_pos_eq)
  have off: "unat (w16 d 6 - of_nat (length t)) = unat (w16 d 6) - length t"
    using t by (subst unat_sub) (auto simp: word_le_nat_alt unat_of_nat16 pg_fso_def)
  note r = off d'_def pg_place_def Let_def slot_pos_eq h(1) unat_of_nat16 t(2,3) page_simps pg_defs
  note f = h(2-4)[unfolded pg_defs] t(1)[unfolded pg_defs] assms(2)[unfolded pg_defs]
  show "length d' = 8192" using f by (simp add: r)
  show "pg_count d' = pg_count d" using f by (simp add: r)
  show "pg_fso d' = pg_fso d - length t" using f by (simp add: r)
  show "seg d' (pg_fso d - length t) (length t) = t" using f by (simp add: r seg_put_same)
  show "pg_next d' = pg_next d" using f by (simp add: r pg_next_def seg_put_other)
  show "pg_off d' i = (if i = k then pg_fso d - length t else pg_off d i)" if "i < pg_count d"
  proof -
    consider "i < k" | "i = k" | "k < i" by linarith
    then show ?thesis using f that[unfolded pg_defs] by cases (simp_all add: r)
  qed
  show "pg_len d' i = (if i = k then length t else pg_len d i)" if "i < pg_count d"
  proof -
    consider "i < k" | "i = k" | "k < i" by linarith
    then show ?thesis using f that[unfolded pg_defs] by cases (simp_all add: r)
  qed
  show "seg d' off n = seg d off n" if "pg_fso d \<le> off" "off + n \<le> 8192"
    using f that[unfolded pg_defs] by (simp add: r seg_put_other)
qed

lemma place_ok:
  assumes "page_ok d" "k < pg_count d" "pg_off d k = 0" "slot_pos (pg_count d) + length t \<le> pg_fso d"
  shows "page_ok (pg_place d k t)"
    and "pg_tuple (pg_place d k t) = (pg_tuple d)(k \<mapsto> t)"
    and "pg_tuple d k = None"
proof -
  note ok = page_okD[OF assms(1)]
  note h = header_okD[OF ok(1)]
  note f = place_fields[OF ok(1) assms(2,4)]
  have t: "8 + 4 * pg_count d + length t \<le> pg_fso d" using assms(4) by (simp add: slot_pos_eq)
  have "header_ok (pg_place d k t)"
    using t h by (auto simp: header_ok_def kPAGE_SIZE_def f slot_pos_eq)
  moreover have "slots_in_range (pg_place d k t)"
    using t h slots_in_rangeD[OF ok(2)] assms(3)
    by (fastforce simp: slots_in_range_def kPAGE_SIZE_def f)
  moreover have "slots_disjoint (pg_place d k t)"
    unfolding slots_disjoint_def
  proof (intro allI impI, elim conjE)
    fix i j
    assume a: "i < pg_count (pg_place d k t)" "j < pg_count (pg_place d k t)" "i \<noteq> j"
      "pg_off (pg_place d k t) i \<noteq> 0" "pg_off (pg_place d k t) j \<noteq> 0"
    show "pg_off (pg_place d k t) i + pg_len (pg_place d k t) i \<le> pg_off (pg_place d k t) j \<or>
      pg_off (pg_place d k t) j + pg_len (pg_place d k t) j \<le> pg_off (pg_place d k t) i"
      using a slots_in_rangeD[OF ok(2), of i] slots_in_rangeD[OF ok(2), of j]
        slots_disjointD[OF ok(3), of i j] t by (cases "i = k"; cases "j = k"; simp add: f)
  qed
  ultimately show "page_ok (pg_place d k t)" by (simp add: page_ok_def)
  show "pg_tuple (pg_place d k t) = (pg_tuple d)(k \<mapsto> t)"
  proof (rule ext)
    fix i
    show "pg_tuple (pg_place d k t) i = ((pg_tuple d)(k \<mapsto> t)) i"
      using assms(2) t slots_in_rangeD[OF ok(2), of i]
      by (cases "i < pg_count d") (auto simp: pg_tuple_def pg_live_def f)
  qed
  show "pg_tuple d k = None" using assms(3) by (simp add: pg_tuple_def pg_live_def)
qed

lemma place_tuple_eq:
  assumes "header_ok d" "unat k < pg_count d" "slot_pos (pg_count d) + length t \<le> pg_fso d"
  shows "sp_place_tuple d k (of_nat (length t)) t = Inr (pg_place d (unat k) t)"
proof -
  note h = header_okD[OF assms(1)]
  have t: "8 + 4 * pg_count d + length t \<le> pg_fso d" "length t < 65536"
    using assms(3) h by (auto simp: slot_pos_eq)
  have off: "unat (w16 d 6 - of_nat (length t)) = unat (w16 d 6) - length t"
    using t by (subst unat_sub) (auto simp: word_le_nat_alt unat_of_nat16 pg_fso_def)
  note f = h(2-4)[unfolded pg_defs] t(1)[unfolded pg_defs] assms(2)[unfolded pg_defs]
  show ?thesis
    using f by (simp add: sp_place_tuple_def set_slot_length_def set_slot_offset_def free_space_offset_def
        set_free_space_offset_def copy_into_def store16_put16 load16_w16 pg_place_def
        slot_pos_eq page_simps off h(1) unat_of_nat16 t(2) Let_def)
qed

definition pg_alloc :: "byte list \<Rightarrow> byte list" where
  "pg_alloc d = put16 (put16 d 4 (w16 d 4 + 1)) (slot_pos (pg_count d)) 0"

lemma alloc_fields:
  assumes "header_ok d" "slot_pos (Suc (pg_count d)) \<le> pg_fso d"
  defines "d' \<equiv> pg_alloc d"
  shows "length d' = 8192" "pg_count d' = Suc (pg_count d)" "pg_next d' = pg_next d" "pg_fso d' = pg_fso d"
    "i < pg_count d \<Longrightarrow> pg_off d' i = pg_off d i"
    "i < pg_count d \<Longrightarrow> pg_len d' i = pg_len d i"
    "pg_off d' (pg_count d) = 0"
    "pg_fso d \<le> off \<Longrightarrow> off + n \<le> 8192 \<Longrightarrow> seg d' off n = seg d off n"
proof -
  note h = header_okD[OF assms(1)]
  note f = h(2-4)[unfolded pg_defs] assms(2)[unfolded pg_defs slot_pos_eq]
  have c: "unat (w16 d 4 + 1) = Suc (unat (w16 d 4))"
    using f by (intro unat_Suc16) simp
  note r = d'_def pg_alloc_def slot_pos_eq h(1) page_simps pg_defs c
  show "length d' = 8192" "pg_count d' = Suc (pg_count d)" "pg_fso d' = pg_fso d"
    "pg_off d' (pg_count d) = 0"
    using f by (simp_all add: r)
  show "pg_next d' = pg_next d" using f by (simp add: r pg_next_def)
  show "pg_off d' i = pg_off d i" "pg_len d' i = pg_len d i" if "i < pg_count d"
    using f that[unfolded pg_defs] by (simp_all add: r)
  show "seg d' off n = seg d off n" if "pg_fso d \<le> off" "off + n \<le> 8192"
    using f that[unfolded pg_defs] by (simp add: r)
qed

lemma allocate_slot_eq:
  assumes "header_ok d" "slot_pos (Suc (pg_count d)) \<le> pg_fso d"
  shows "sp_allocate_slot d = Inr (of_nat (pg_count d), pg_alloc d)"
proof -
  note h = header_okD[OF assms(1)]
  note f = h(2-4)[unfolded pg_defs] assms(2)[unfolded pg_defs slot_pos_eq]
  show ?thesis
    using f by (simp add: sp_allocate_slot_def page_reads assms(1) set_slot_count_def set_slot_offset_def
        store16_put16 h(1) slot_pos_eq pg_alloc_def pg_count_def INVALID_SLOT_OFFSET_def)
qed

lemma alloc_ok:
  assumes "page_ok d" "slot_pos (Suc (pg_count d)) \<le> pg_fso d"
  shows "page_ok (pg_alloc d)" "pg_tuple (pg_alloc d) = pg_tuple d"
proof -
  note ok = page_okD[OF assms(1)]
  note h = header_okD[OF ok(1)]
  note f = alloc_fields[OF ok(1) assms(2)]
  have split: "i < Suc (pg_count d) \<longleftrightarrow> i < pg_count d \<or> i = pg_count d" for i by auto
  show "page_ok (pg_alloc d)"
    using assms(2) h(3) ok(2,3)
    by (auto simp: page_ok_def header_ok_def slots_in_range_def slots_disjoint_def kPAGE_SIZE_def f split)
  show "pg_tuple (pg_alloc d) = pg_tuple d"
  proof (rule ext)
    fix i
    show "pg_tuple (pg_alloc d) i = pg_tuple d i"
      using slots_in_rangeD[OF ok(2), of i]
      by (cases "i < pg_count d"; cases "i = pg_count d") (auto simp: pg_tuple_def pg_live_def f)
  qed
qed

section \<open>Inserting a tuple\<close>

definition pg_pick :: "byte list \<Rightarrow> u16 option \<Rightarrow> nat" where
  \<comment> \<open>the slot an insertion uses: the preferred one if it is free, else the first free one, else a new one\<close>
  "pg_pick d pref =
     (case pref of
        Some p \<Rightarrow>
          if unat p < pg_count d \<and> pg_off d (unat p) = 0 then unat p
          else (case find (\<lambda>j. pg_off d j = 0) [0..<pg_count d] of Some j \<Rightarrow> j | None \<Rightarrow> pg_count d)
      | None \<Rightarrow> (case find (\<lambda>j. pg_off d j = 0) [0..<pg_count d] of Some j \<Rightarrow> j | None \<Rightarrow> pg_count d))"

definition pg_fits :: "byte list \<Rightarrow> nat \<Rightarrow> bool" where
  \<comment> \<open>room for the tuple, and for a new slot when no slot is free\<close>
  "pg_fits d n \<longleftrightarrow> int n \<le> pg_free d \<and> ((\<exists>j<pg_count d. pg_off d j = 0) \<or> int n + 4 \<le> pg_free d)"

definition pg_insert :: "byte list \<Rightarrow> byte list \<Rightarrow> u16 option \<Rightarrow> byte list" where
  "pg_insert d t pref =
     (if pg_pick d pref < pg_count d then pg_place d (pg_pick d pref) t
      else pg_place (pg_alloc d) (pg_count d) t)"

lemma find_upt_Some: "find P [0..<n] = Some j \<Longrightarrow> j < n \<and> P j"
  by (auto simp: find_Some_iff)

lemma find_upt_None: "find P [0..<n] = None \<longleftrightarrow> (\<forall>j<n. \<not> P j)"
  by (auto simp: find_None_iff)

lemma pg_pick_cases:
  obtains "pg_pick d pref < pg_count d" "pg_off d (pg_pick d pref) = 0"
  | "pg_pick d pref = pg_count d" "\<forall>j<pg_count d. pg_off d j \<noteq> 0"
proof (cases "pg_pick d pref < pg_count d")
  case True
  then have "pg_off d (pg_pick d pref) = 0"
    by (auto simp: pg_pick_def find_upt_None split: option.splits if_splits dest!: find_upt_Some)
  with True that(1) show ?thesis by blast
next
  case False
  then have "pg_pick d pref = pg_count d \<and> (\<forall>j<pg_count d. pg_off d j \<noteq> 0)"
    by (auto simp: pg_pick_def find_upt_None split: option.splits if_splits dest!: find_upt_Some)
  with that(2) show ?thesis by blast
qed

lemma pg_pick_lt: "pg_pick d pref < pg_count d \<longleftrightarrow> (\<exists>j<pg_count d. pg_off d j = 0)"
  by (cases rule: pg_pick_cases[of d pref]) auto

lemma uint_of_nat16: "n < 65536 \<Longrightarrow> uint (of_nat n :: u16) = int n"
  by (simp add: unsigned_of_nat take_bit_nat_eq_self)

lemma preferred_free_eq:
  "header_ok d \<Longrightarrow>
    sp_preferred_free d pref =
      Inr (case pref of None \<Rightarrow> False | Some p \<Rightarrow> unat p < pg_count d \<and> pg_off d (unat p) = 0)"
  by (auto simp: sp_preferred_free_def page_reads offset_invalid_iff word_less_nat_alt pg_count_def
      split: option.splits)

lemma choose_slot_eq:
  assumes "header_ok d" "int (length t) \<le> pg_free d" "length t < 65536"
  shows "sp_choose_slot d (pg_free d) (of_nat (length t)) pref =
    Inr (if pg_pick d pref < pg_count d then Some (of_nat (pg_pick d pref), d)
         else if int (length t) + 4 \<le> pg_free d then Some (of_nat (pg_count d), pg_alloc d)
         else None)"
proof -
  have alloc: "sp_allocate_slot d = Inr (of_nat (pg_count d), pg_alloc d)" if "int (length t) + 4 \<le> pg_free d"
    using that by (intro allocate_slot_eq assms(1)) (simp add: pg_free_def slot_pos_eq)
  show ?thesis
    using assms(3) alloc pg_count_lt[of d]
    by (auto simp: sp_choose_slot_def preferred_free_eq[OF assms(1)] find_empty_slot_eq[OF assms(1)]
        pg_pick_def unat_of_nat16 sizeof_Slot_def split: option.splits dest: find_upt_Some)
qed

lemma insert_tuple_no_room:
  assumes "page_ok d" "length t < 65536" "\<not> pg_fits d (length t)"
  shows "sp_insert_tuple d t pref = Inr (None, d)"
proof -
  have h: "header_ok d" using assms(1) by (rule page_okD)
  show ?thesis
  proof (cases "int (length t) \<le> pg_free d")
    case True
    then have "\<not> pg_pick d pref < pg_count d" "\<not> int (length t) + 4 \<le> pg_free d"
      using assms(3) by (auto simp: pg_fits_def pg_pick_lt)
    with True show ?thesis
      by (simp add: sp_insert_tuple_def free_space_eq[OF h] Let_def choose_slot_eq[OF h True assms(2)]
          uint_of_nat16 unat_of_nat16 assms(2))
  next
    case False
    then show ?thesis
      by (simp add: sp_insert_tuple_def free_space_eq[OF h] Let_def uint_of_nat16 unat_of_nat16 assms(2))
  qed
qed

lemma pg_free_nonneg: "header_ok d \<Longrightarrow> 0 \<le> pg_free d"
  by (simp add: pg_free_def header_ok_def)

lemma insert_tuple_room:
  assumes "page_ok d" "pg_fits d (length t)"
  shows "sp_insert_tuple d t pref =
      Inr (Some \<lparr>rid_page_id = INVALID_PAGE_ID, rid_slot_num = of_nat (pg_pick d pref)\<rparr>, pg_insert d t pref)"
    (is ?eq)
    and "page_ok (pg_insert d t pref)"
    and "pg_tuple (pg_insert d t pref) = (pg_tuple d)(pg_pick d pref \<mapsto> t)"
    and "pg_tuple d (pg_pick d pref) = None"
    and "pg_next (pg_insert d t pref) = pg_next d"
    and "pg_count (pg_insert d t pref) = max (pg_count d) (Suc (pg_pick d pref))"
    and "pg_pick d pref < 65536"
proof -
  note ok = page_okD[OF assms(1)]
  note h = header_okD[OF ok(1)]
  have room: "int (length t) \<le> pg_free d" using assms(2) by (simp add: pg_fits_def)
  then have lt: "length t < 65536" using h(3) by (simp add: pg_free_def)
  have cnt: "pg_pick d pref \<le> pg_count d" by (rule pg_pick_cases[of d pref]) auto
  then show pick: "pg_pick d pref < 65536" using pg_count_lt[of d] by simp
  have "?eq \<and> page_ok (pg_insert d t pref) \<and>
      pg_tuple (pg_insert d t pref) = (pg_tuple d)(pg_pick d pref \<mapsto> t) \<and> pg_tuple d (pg_pick d pref) = None \<and>
      pg_next (pg_insert d t pref) = pg_next d \<and>
      pg_count (pg_insert d t pref) = max (pg_count d) (Suc (pg_pick d pref))"
  proof (cases rule: pg_pick_cases[of d pref])
    case 1
    have sp: "slot_pos (pg_count d) + length t \<le> pg_fso d" using room by (simp add: pg_free_def)
    have "sp_place_tuple d (of_nat (pg_pick d pref)) (of_nat (length t)) t = Inr (pg_place d (pg_pick d pref) t)"
      using place_tuple_eq[OF ok(1) _ sp, of "of_nat (pg_pick d pref)"] 1 pick by (simp add: unat_of_nat16)
    then show ?thesis
      using 1 place_ok[OF assms(1) 1 sp] place_fields[OF ok(1) 1(1) sp]
      by (simp add: sp_insert_tuple_def free_space_eq[OF ok(1)] Let_def choose_slot_eq[OF ok(1) room lt]
          uint_of_nat16 unat_of_nat16 lt pg_insert_def room max_def not_less)
  next
    case 2
    have room4: "int (length t) + 4 \<le> pg_free d" using assms(2) 2(2) by (auto simp: pg_fits_def)
    have sp: "slot_pos (Suc (pg_count d)) \<le> pg_fso d" using room4 by (simp add: pg_free_def slot_pos_eq)
    note a = alloc_ok[OF assms(1) sp] and af = alloc_fields[OF ok(1) sp]
    note aok = page_okD(1)[OF a(1)]
    have sp': "slot_pos (pg_count (pg_alloc d)) + length t \<le> pg_fso (pg_alloc d)"
      using room4 by (simp add: pg_free_def slot_pos_eq af)
    have k: "pg_count d < pg_count (pg_alloc d)" "pg_off (pg_alloc d) (pg_count d) = 0" by (simp_all add: af)
    have "sp_place_tuple (pg_alloc d) (of_nat (pg_count d)) (of_nat (length t)) t =
        Inr (pg_place (pg_alloc d) (pg_count d) t)"
      using place_tuple_eq[OF aok _ sp', of "of_nat (pg_count d)"] k pg_count_lt[of d] by (simp add: unat_of_nat16)
    then show ?thesis
      using 2(1) place_ok[OF a(1) k sp'] place_fields[OF aok k(1) sp'] room4
      by (simp add: sp_insert_tuple_def free_space_eq[OF ok(1)] Let_def choose_slot_eq[OF ok(1) room lt]
          uint_of_nat16 unat_of_nat16 lt pg_insert_def room af a)
  qed
  then show ?eq "page_ok (pg_insert d t pref)"
    "pg_tuple (pg_insert d t pref) = (pg_tuple d)(pg_pick d pref \<mapsto> t)" "pg_tuple d (pg_pick d pref) = None"
    "pg_next (pg_insert d t pref) = pg_next d"
    "pg_count (pg_insert d t pref) = max (pg_count d) (Suc (pg_pick d pref))"
    by blast+
qed

section \<open>Looking up, deleting and updating a tuple\<close>

lemma read_slot_count_le: "header_ok d \<Longrightarrow> (w16 d 4 \<le> k) = (pg_count d \<le> unat k)"
  by (simp add: word_le_nat_alt pg_count_def)

lemma page_nums:
  "unat (w16 d 4) = pg_count d" "unat (w16 d 6) = pg_fso d"
  "unat (w16 d (slot_pos i)) = pg_off d i"
  "unat (w16 d (slot_pos i + 2)) = pg_len d i" "unat (w16 d (Suc (Suc (slot_pos i)))) = pg_len d i"
  by (simp_all add: pg_defs)

lemma slot_in_page: "header_ok d \<Longrightarrow> i < pg_count d \<Longrightarrow> slot_pos i + 4 \<le> length d"
  using header_okD[of d] by (simp add: slot_pos_eq)

lemma get_tuple_eq:
  assumes "page_ok d"
  shows "sp_get_tuple d k = Inr (case pg_tuple d (unat k) of None \<Rightarrow> [] | Some t \<Rightarrow> t)"
proof (cases "pg_live d (unat k)")
  case True
  note ok = page_okD[OF assms]
  have k: "unat k < pg_count d" "pg_off d (unat k) \<noteq> 0" using True by (auto simp: pg_live_def)
  show ?thesis
    using True k slots_in_rangeD[OF ok(2) k] header_okD(1)[OF ok(1)]
    by (simp add: sp_get_tuple_def page_reads ok(1) read_slot_count_le offset_invalid_iff pg_tuple_def
        page_nums)
next
  case False
  then show ?thesis
    using page_okD(1)[OF assms]
    by (auto simp: sp_get_tuple_def page_reads read_slot_count_le offset_invalid_iff pg_tuple_def pg_live_def)
qed

lemma has_slot_eq: "page_ok d \<Longrightarrow> sp_has_slot d k = Inr (pg_tuple d (unat k) \<noteq> None)"
  using page_okD(1)[of d]
  by (auto simp: sp_has_slot_def page_reads word_less_nat_alt offset_invalid_iff pg_tuple_def pg_live_def
      simp flip: pg_count_def)

definition pg_delete :: "byte list \<Rightarrow> nat \<Rightarrow> byte list" where
  "pg_delete d k = put16 d (slot_pos k) 0"

lemma delete_fields:
  assumes "header_ok d" "k < pg_count d"
  defines "d' \<equiv> pg_delete d k"
  shows "length d' = 8192" "pg_count d' = pg_count d" "pg_next d' = pg_next d" "pg_fso d' = pg_fso d"
    "i < pg_count d \<Longrightarrow> pg_off d' i = (if i = k then 0 else pg_off d i)"
    "i < pg_count d \<Longrightarrow> pg_len d' i = pg_len d i"
    "pg_fso d \<le> off \<Longrightarrow> off + n \<le> 8192 \<Longrightarrow> seg d' off n = seg d off n"
proof -
  note h = header_okD[OF assms(1)]
  note f = h(2-4)[unfolded pg_defs] assms(2)[unfolded pg_defs]
  note r = d'_def pg_delete_def slot_pos_eq h(1) page_simps pg_defs
  show "length d' = 8192" "pg_count d' = pg_count d" "pg_fso d' = pg_fso d"
    using f by (simp_all add: r)
  show "pg_next d' = pg_next d" using f by (simp add: r pg_next_def)
  show "pg_off d' i = (if i = k then 0 else pg_off d i)" if "i < pg_count d"
  proof -
    consider "i < k" | "i = k" | "k < i" by linarith
    then show ?thesis using f that[unfolded pg_defs] by cases (simp_all add: r)
  qed
  show "pg_len d' i = pg_len d i" if "i < pg_count d"
  proof -
    consider "i < k" | "i = k" | "k < i" by linarith
    then show ?thesis using f that[unfolded pg_defs] by cases (simp_all add: r)
  qed
  show "seg d' off n = seg d off n" if "pg_fso d \<le> off" "off + n \<le> 8192"
    using f that[unfolded pg_defs] by (simp add: r)
qed

lemma delete_ok:
  assumes "page_ok d" "k < pg_count d"
  shows "page_ok (pg_delete d k)" "pg_tuple (pg_delete d k) = (pg_tuple d)(k := None)"
proof -
  note ok = page_okD[OF assms(1)]
  note f = delete_fields[OF ok(1) assms(2)]
  show "page_ok (pg_delete d k)"
    using ok header_okD[OF ok(1)]
    by (auto simp: page_ok_def header_ok_def slots_in_range_def slots_disjoint_def kPAGE_SIZE_def f)
  show "pg_tuple (pg_delete d k) = (pg_tuple d)(k := None)"
  proof (rule ext)
    fix i
    show "pg_tuple (pg_delete d k) i = ((pg_tuple d)(k := None)) i"
      using slots_in_rangeD[OF ok(2), of i] assms(2)
      by (cases "i < pg_count d") (auto simp: pg_tuple_def pg_live_def f)
  qed
qed

lemma delete_tuple_eq:
  assumes "page_ok d"
  shows "sp_delete_tuple d k =
    Inr (if pg_tuple d (unat k) = None then (False, d) else (True, pg_delete d (unat k)))"
proof -
  note ok = page_okD[OF assms]
  show ?thesis
    using slot_in_page[OF ok(1), of "unat k"]
    by (auto simp: sp_delete_tuple_def page_reads ok(1) read_slot_count_le offset_invalid_iff pg_tuple_def
        pg_live_def set_slot_offset_def store16_put16 pg_delete_def INVALID_SLOT_OFFSET_def simp flip: offset_invalid_iff)
qed

definition pg_update :: "byte list \<Rightarrow> nat \<Rightarrow> byte list \<Rightarrow> byte list" where
  "pg_update d k t = put16 (put d (pg_off d k) t) (slot_pos k + 2) (of_nat (length t))"

lemma update_fields:
  assumes "header_ok d" "slots_in_range d" "pg_live d k" "length t \<le> pg_len d k"
  defines "d' \<equiv> pg_update d k t"
  shows "length d' = 8192" "pg_count d' = pg_count d" "pg_next d' = pg_next d" "pg_fso d' = pg_fso d"
    "i < pg_count d \<Longrightarrow> pg_off d' i = pg_off d i"
    "i < pg_count d \<Longrightarrow> pg_len d' i = (if i = k then length t else pg_len d i)"
    "seg d' (pg_off d k) (length t) = t"
    "pg_fso d \<le> off \<Longrightarrow> off + n \<le> 8192 \<Longrightarrow>
      off + n \<le> pg_off d k \<or> pg_off d k + length t \<le> off \<Longrightarrow> seg d' off n = seg d off n"
proof -
  note h = header_okD[OF assms(1)]
  have k: "k < pg_count d" "pg_off d k \<noteq> 0" using assms(3) by (auto simp: pg_live_def)
  have rng: "pg_fso d \<le> pg_off d k" "pg_off d k + length t \<le> 8192"
    using slots_in_rangeD[OF assms(2) k] assms(4) by auto
  then have lt: "length t < 65536" by simp
  note f = h(2-4) k(1) rng
  note f' = f[unfolded pg_defs slot_pos_eq]
  note r = d'_def pg_update_def slot_pos_eq h(1) page_simps pg_defs unat_of_nat16 lt
  show "length d' = 8192" "pg_count d' = pg_count d" "pg_fso d' = pg_fso d"
    using f' by (simp_all add: r)
  show "pg_next d' = pg_next d" using f' by (simp add: r pg_next_def seg_put_other)
  show "pg_off d' i = pg_off d i" if "i < pg_count d"
    using f' that[unfolded pg_defs] by (cases "i \<le> k") (simp_all add: r)
  show "pg_len d' i = (if i = k then length t else pg_len d i)" if "i < pg_count d"
  proof -
    consider "i < k" | "i = k" | "k < i" by linarith
    then show ?thesis using f' that[unfolded pg_defs] by cases (simp_all add: r)
  qed
  show "seg d' (pg_off d k) (length t) = t"
    using f' by (simp add: r seg_put_same)
  show "seg d' off n = seg d off n"
    if "pg_fso d \<le> off" "off + n \<le> 8192" "off + n \<le> pg_off d k \<or> pg_off d k + length t \<le> off"
    using f' that[unfolded pg_defs slot_pos_eq] by (simp add: r seg_put_other)
qed

lemma update_ok:
  assumes "page_ok d" "pg_live d k" "length t \<le> pg_len d k"
  shows "page_ok (pg_update d k t)" "pg_tuple (pg_update d k t) = (pg_tuple d)(k \<mapsto> t)"
proof -
  note ok = page_okD[OF assms(1)]
  note f = update_fields[OF ok(1,2) assms(2,3)]
  have k: "k < pg_count d" "pg_off d k \<noteq> 0" using assms(2) by (auto simp: pg_live_def)
  have "slots_disjoint (pg_update d k t)"
    unfolding slots_disjoint_def
  proof (intro allI impI, elim conjE)
    fix i j
    assume a: "i < pg_count (pg_update d k t)" "j < pg_count (pg_update d k t)" "i \<noteq> j"
      "pg_off (pg_update d k t) i \<noteq> 0" "pg_off (pg_update d k t) j \<noteq> 0"
    show "pg_off (pg_update d k t) i + pg_len (pg_update d k t) i \<le> pg_off (pg_update d k t) j \<or>
      pg_off (pg_update d k t) j + pg_len (pg_update d k t) j \<le> pg_off (pg_update d k t) i"
      using a slots_disjointD[OF ok(3), of i j] assms(3) by (auto simp: f)
  qed
  then show "page_ok (pg_update d k t)"
    using ok header_okD[OF ok(1)] assms(3)
    by (fastforce simp: page_ok_def header_ok_def slots_in_range_def kPAGE_SIZE_def f)
  show "pg_tuple (pg_update d k t) = (pg_tuple d)(k \<mapsto> t)"
  proof (rule ext)
    fix i
    show "pg_tuple (pg_update d k t) i = ((pg_tuple d)(k \<mapsto> t)) i"
      using slots_in_rangeD[OF ok(2), of i] slots_disjointD[OF ok(3), of i k] k assms(3)
      by (cases "i < pg_count d"; cases "i = k") (auto simp: pg_tuple_def pg_live_def f)
  qed
qed

lemma try_update_in_place_eq:
  assumes "page_ok d" "length t < 65536"
  shows "sp_try_update_in_place d r t =
    Inr (if pg_live d (unat (rid_slot_num r)) \<and> length t \<le> pg_len d (unat (rid_slot_num r))
         then (True, pg_update d (unat (rid_slot_num r)) t) else (False, d))"
proof -
  note ok = page_okD[OF assms(1)]
  note h = header_okD[OF ok(1)]
  let ?k = "unat (rid_slot_num r)"
  have len: "(w16 d (Suc (Suc (slot_pos ?k))) < of_nat (length t)) = (pg_len d ?k < length t)"
    by (simp add: word_less_nat_alt unat_of_nat16 assms(2) pg_len_def)
  show ?thesis
  proof (cases "pg_live d ?k")
    case True
    then have k: "?k < pg_count d" "pg_off d ?k \<noteq> 0" by (auto simp: pg_live_def)
    show ?thesis
      using k slots_in_rangeD[OF ok(2) k] h(1) slot_in_page[OF ok(1) k(1)] True
      by (simp add: sp_try_update_in_place_def page_reads ok(1) read_slot_count_le offset_invalid_iff
          Let_def len copy_into_def unat_of_nat16 assms(2) set_slot_length_def pg_update_def
          store16_put16 page_nums)
  next
    case False
    then show ?thesis
      by (auto simp: sp_try_update_in_place_def page_reads ok(1) read_slot_count_le offset_invalid_iff pg_live_def)
  qed
qed

section \<open>Compaction\<close>

subsection \<open>The live tuples fit above the free space\<close>

definition pg_used :: "byte list \<Rightarrow> nat \<Rightarrow> nat" where
  \<comment> \<open>bytes of the live tuples in the slots below \<open>n\<close>\<close>
  "pg_used d n = (\<Sum>j<n. if pg_off d j = 0 then 0 else pg_len d j)"

lemma pg_used_simps [simp]:
  "pg_used d 0 = 0"
  "pg_used d (Suc n) = pg_used d n + (if pg_off d n = 0 then 0 else pg_len d n)"
  by (simp_all add: pg_used_def)

lemma pg_used_mono: "m \<le> n \<Longrightarrow> pg_used d m \<le> pg_used d n"
  unfolding pg_used_def by (rule sum_mono2) auto

lemma disjoint_intervals_sum:
  fixes a l :: "nat \<Rightarrow> nat"
  assumes "finite I" "\<And>i. i \<in> I \<Longrightarrow> lo \<le> a i \<and> a i + l i \<le> hi"
    and "\<And>i j. i \<in> I \<Longrightarrow> j \<in> I \<Longrightarrow> i \<noteq> j \<Longrightarrow> a i + l i \<le> a j \<or> a j + l j \<le> a i"
  shows "sum l I \<le> hi - lo"
proof -
  have "sum l I = (\<Sum>i\<in>I. card {a i..<a i + l i})" by simp
  also have "\<dots> = card (\<Union>i\<in>I. {a i..<a i + l i})"
    using assms(1,3) by (intro card_UN_disjoint [symmetric]) (auto, fastforce)
  also have "\<dots> \<le> card {lo..<hi}"
    using assms(2) by (intro card_mono) force+
  finally show ?thesis by simp
qed

lemma pg_used_le:
  assumes "page_ok d"
  shows "pg_used d (pg_count d) \<le> 8192 - pg_fso d"
proof -
  note ok = page_okD[OF assms]
  let ?I = "{j. j < pg_count d \<and> pg_off d j \<noteq> 0}"
  have "pg_used d (pg_count d) = sum (pg_len d) ?I"
    unfolding pg_used_def by (rule sum.mono_neutral_cong_right) auto
  also have "\<dots> \<le> 8192 - pg_fso d"
    by (rule disjoint_intervals_sum[of _ _ "pg_off d"])
      (auto dest: slots_in_rangeD[OF ok(2)] slots_disjointD[OF ok(3)])
  finally show ?thesis .
qed

subsection \<open>The loop\<close>

definition pg_coff :: "byte list \<Rightarrow> nat \<Rightarrow> nat" where
  \<comment> \<open>where compaction puts the tuple of slot \<open>i\<close>\<close>
  "pg_coff d i = 8192 - pg_used d (Suc i)"

definition pg_cslot :: "byte list \<Rightarrow> nat \<Rightarrow> u16 \<times> u16" where
  "pg_cslot d i = (if pg_off d i = 0 then (0, 0) else (of_nat (pg_coff d i), of_nat (pg_len d i)))"

lemma pg_len_lt: "pg_len d i < 65536" "pg_off d i < 65536" "pg_fso d < 65536"
  unfolding pg_len_def pg_off_def pg_fso_def
  using unsigned_less[of "w16 d (slot_pos i + 2)"] unsigned_less[of "w16 d (slot_pos i)"]
    unsigned_less[of "w16 d 6"] by auto

lemma read_slot_nat:
  assumes "header_ok d" "i < pg_count d"
  shows "slot_offset d i = Inr (of_nat (pg_off d i))" "slot_length d i = Inr (of_nat (pg_len d i))"
  using assms by (simp_all add: page_reads pg_off_def pg_len_def)

lemma of_nat16_eq_0: "n < 65536 \<Longrightarrow> (of_nat n :: u16) = INVALID_SLOT_OFFSET \<longleftrightarrow> n = 0"
  using unat_of_nat16[of n] by (auto simp: INVALID_SLOT_OFFSET_def)

lemma compact_from_spec:
  assumes "header_ok d" "slots_in_range d" "i + n \<le> pg_count d" "pg_used d (i + n) \<le> 8192"
    and "length buf = 8192"
  shows "\<exists>buf'. sp_compact_from d i n (of_nat (8192 - pg_used d i)) slots buf =
      Inr (of_nat (8192 - pg_used d (i + n)), slots @ map (pg_cslot d) [i..<i + n], buf') \<and>
    length buf' = 8192 \<and>
    (\<forall>j. i \<le> j \<longrightarrow> j < i + n \<longrightarrow> pg_off d j \<noteq> 0 \<longrightarrow>
       seg buf' (pg_coff d j) (pg_len d j) = seg d (pg_off d j) (pg_len d j)) \<and>
    (\<forall>off m. 8192 - pg_used d i \<le> off \<longrightarrow> off + m \<le> 8192 \<longrightarrow> seg buf' off m = seg buf off m)"
  using assms(3-5)
proof (induction n arbitrary: i slots buf)
  case 0
  then show ?case by simp
next
  case (Suc n)
  have i: "i < pg_count d" using Suc.prems by simp
  have upt: "[i..<i + Suc n] = i # [Suc i..<Suc i + n]" by (simp add: upt_rec)
  have hyps: "Suc i + n \<le> pg_count d" "pg_used d (Suc i + n) \<le> 8192" using Suc.prems by simp_all
  show ?case
  proof (cases "pg_off d i = 0")
    case True
    have eq: "sp_compact_from d i (Suc n) (of_nat (8192 - pg_used d i)) slots buf =
        sp_compact_from d (Suc i) n (of_nat (8192 - pg_used d (Suc i))) (slots @ [pg_cslot d i]) buf"
      using True i by (simp add: read_slot_nat[OF assms(1)] INVALID_SLOT_OFFSET_def pg_cslot_def)
    obtain buf' where IH:
      "sp_compact_from d (Suc i) n (of_nat (8192 - pg_used d (Suc i))) (slots @ [pg_cslot d i]) buf =
        Inr (of_nat (8192 - pg_used d (Suc i + n)),
          (slots @ [pg_cslot d i]) @ map (pg_cslot d) [Suc i..<Suc i + n], buf')"
      "length buf' = 8192"
      "\<And>j. Suc i \<le> j \<Longrightarrow> j < Suc i + n \<Longrightarrow> pg_off d j \<noteq> 0 \<Longrightarrow>
        seg buf' (pg_coff d j) (pg_len d j) = seg d (pg_off d j) (pg_len d j)"
      "\<And>off m. 8192 - pg_used d (Suc i) \<le> off \<Longrightarrow> off + m \<le> 8192 \<Longrightarrow> seg buf' off m = seg buf off m"
      using Suc.IH[OF hyps Suc.prems(3), of "slots @ [pg_cslot d i]"] by blast
    show ?thesis
    proof (intro exI[of _ buf'] conjI allI impI)
      show "sp_compact_from d i (Suc n) (of_nat (8192 - pg_used d i)) slots buf =
          Inr (of_nat (8192 - pg_used d (i + Suc n)), slots @ map (pg_cslot d) [i..<i + Suc n], buf')"
        unfolding eq IH(1) upt by simp
      show "length buf' = 8192" by (rule IH(2))
      show "seg buf' (pg_coff d j) (pg_len d j) = seg d (pg_off d j) (pg_len d j)"
        if "i \<le> j" "j < i + Suc n" "pg_off d j \<noteq> 0" for j
        using that IH(3)[of j] True by (cases "j = i") auto
      show "seg buf' off m = seg buf off m" if "8192 - pg_used d i \<le> off" "off + m \<le> 8192" for off m
        using that IH(4)[of off m] True by simp
    qed
  next
    case False
    let ?o = "8192 - pg_used d i" and ?l = "pg_len d i" and ?t = "seg d (pg_off d i) (pg_len d i)"
    have rng: "pg_off d i + ?l \<le> 8192" using slots_in_rangeD[OF assms(2) i False] by simp
    have used: "pg_used d i + ?l \<le> 8192"
      using Suc.prems(2) pg_used_mono[of "Suc i" "i + Suc n" d] False by simp
    have sub: "(of_nat ?o - of_nat ?l :: u16) = of_nat (pg_coff d i)"
      using used False by (simp add: pg_coff_def of_nat_diff)
    have coff: "pg_coff d i + ?l = ?o" "pg_coff d i < 65536" "pg_coff d i = 8192 - pg_used d (Suc i)"
      using used False by (simp_all add: pg_coff_def)
    let ?buf = "put buf (pg_coff d i) ?t"
    have t: "length ?t = ?l" using rng header_okD(1)[OF assms(1)] by simp
    have eq: "sp_compact_from d i (Suc n) (of_nat ?o) slots buf =
        sp_compact_from d (Suc i) n (of_nat (8192 - pg_used d (Suc i))) (slots @ [pg_cslot d i]) ?buf"
      using False i rng t coff Suc.prems(3) header_okD(1)[OF assms(1)]
      by (simp add: read_slot_nat[OF assms(1)] of_nat16_eq_0 pg_len_lt sub unat_of_nat16 pg_cslot_def
          del: pg_used_simps)
    have lb: "length ?buf = 8192" using t coff Suc.prems(3) by simp
    obtain buf' where IH:
      "sp_compact_from d (Suc i) n (of_nat (8192 - pg_used d (Suc i))) (slots @ [pg_cslot d i]) ?buf =
        Inr (of_nat (8192 - pg_used d (Suc i + n)),
          (slots @ [pg_cslot d i]) @ map (pg_cslot d) [Suc i..<Suc i + n], buf')"
      "length buf' = 8192"
      "\<And>j. Suc i \<le> j \<Longrightarrow> j < Suc i + n \<Longrightarrow> pg_off d j \<noteq> 0 \<Longrightarrow>
        seg buf' (pg_coff d j) (pg_len d j) = seg d (pg_off d j) (pg_len d j)"
      "\<And>off m. 8192 - pg_used d (Suc i) \<le> off \<Longrightarrow> off + m \<le> 8192 \<Longrightarrow> seg buf' off m = seg ?buf off m"
      using Suc.IH[OF hyps lb, of "slots @ [pg_cslot d i]"] by blast
    have here: "seg buf' (pg_coff d i) ?l = ?t"
      using IH(4)[of "pg_coff d i" ?l] coff t Suc.prems(3) by (simp add: seg_put_same del: pg_used_simps)
    have rest: "seg buf' off m = seg buf off m" if "?o \<le> off" "off + m \<le> 8192" for off m
      using IH(4)[of off m] that coff t Suc.prems(3) by (simp add: seg_put_other del: pg_used_simps)
    show ?thesis
    proof (intro exI[of _ buf'] conjI allI impI)
      show "sp_compact_from d i (Suc n) (of_nat ?o) slots buf =
          Inr (of_nat (8192 - pg_used d (i + Suc n)), slots @ map (pg_cslot d) [i..<i + Suc n], buf')"
        unfolding eq IH(1) upt by simp
      show "length buf' = 8192" by (rule IH(2))
      show "seg buf' (pg_coff d j) (pg_len d j) = seg d (pg_off d j) (pg_len d j)"
        if "i \<le> j" "j < i + Suc n" "pg_off d j \<noteq> 0" for j
        using that IH(3)[of j] here by (cases "j = i") auto
      show "seg buf' off m = seg buf off m" if "?o \<le> off" "off + m \<le> 8192" for off m
        by (rule rest[OF that])
    qed
  qed
qed

subsection \<open>The rewritten page\<close>

definition pg_compact :: "byte list \<Rightarrow> byte list \<Rightarrow> byte list" where
  "pg_compact d buf =
     (let off = 8192 - pg_used d (pg_count d) in
      put (put (put (replicate (length d) 0) 0
          (le_bytes 4 (pg_next d) @ le_bytes 2 (w16 d 4) @ le_bytes 2 (of_nat off :: u16)))
          8 (concat (map slot_bytes (map (pg_cslot d) [0..<pg_count d]))))
        off (drop off buf))"

lemma length_slot_bytes [simp]: "length (slot_bytes s) = 4"
  by (simp add: slot_bytes_def)

lemma w16_slot_bytes:
  assumes "i < length xs"
  shows "le_word (seg (concat (map slot_bytes xs)) (4 * i) 2) = fst (xs ! i)"
    "le_word (seg (concat (map slot_bytes xs)) (4 * i + 2) 2) = snd (xs ! i)"
  using seg_concat_blocks[of xs slot_bytes 4 i 0 2] seg_concat_blocks[of xs slot_bytes 4 i 2 2] assms
    seg_append_head[of "le_bytes 2 (fst (xs ! i))" "le_bytes 2 (snd (xs ! i))"]
    seg_append_right[of "le_bytes 2 (fst (xs ! i))" 2 "le_bytes 2 (snd (xs ! i))" 2]
    seg_all[of "le_bytes 2 (snd (xs ! i))"]
  by (simp_all add: slot_bytes_def)

lemma compact_fields:
  assumes "page_ok d" "length buf = 8192"
  defines "d' \<equiv> pg_compact d buf" and "off \<equiv> 8192 - pg_used d (pg_count d)"
  shows "length d' = 8192" "pg_count d' = pg_count d" "pg_next d' = pg_next d" "pg_fso d' = off"
    "i < pg_count d \<Longrightarrow> pg_off d' i = (if pg_off d i = 0 then 0 else pg_coff d i)"
    "i < pg_count d \<Longrightarrow> pg_len d' i = (if pg_off d i = 0 then 0 else pg_len d i)"
    "off \<le> a \<Longrightarrow> a + n \<le> 8192 \<Longrightarrow> seg d' a n = seg buf a n"
proof -
  note ok = page_okD[OF assms(1)]
  note h = header_okD[OF ok(1)]
  let ?hdr = "le_bytes 4 (pg_next d) @ le_bytes 2 (w16 d 4) @ le_bytes 2 (of_nat off :: u16)"
  let ?sl = "concat (map slot_bytes (map (pg_cslot d) [0..<pg_count d]))"
  have off: "8 + 4 * pg_count d \<le> off" "off \<le> 8192"
    using pg_used_le[OF assms(1)] h by (auto simp: off_def)
  have sl: "length ?sl = 4 * pg_count d"
    by (subst length_concat_blocks[where w = 4]) auto
  have d': "d' = put (put (put (replicate 8192 0) 0 ?hdr) 8 ?sl) off (drop off buf)"
    by (simp add: d'_def pg_compact_def Let_def off_def h(1))
  let ?z = "put (replicate 8192 0) 0 ?hdr"
  have lz: "length ?z = 8192" "length (put ?z 8 ?sl) = 8192"
    using off sl by simp_all
  have hdr: "seg d' a n = seg ?hdr a n" if "a + n \<le> 8" for a n
    using that off sl lz assms(2) by (simp add: d' seg_put_other seg_put_inside)
  have slots: "seg d' (8 + a) n = seg ?sl a n" if "a + n \<le> 4 * pg_count d" for a n
    using that off sl lz assms(2) by (simp add: d' seg_put_other seg_put_inside)
  show "length d' = 8192" using lz off assms(2) by (simp add: d')
  show "pg_next d' = pg_next d" by (simp add: pg_next_def[of d'] hdr seg_append_left seg_full)
  show "pg_count d' = pg_count d"
    by (simp add: pg_count_def w16_def[of d'] hdr seg_append_right seg_append_left seg_full)
  show "pg_fso d' = off"
    using off by (simp add: pg_fso_def w16_def[of d'] hdr seg_append_right unat_of_nat16 seg_full)
  show "pg_off d' i = (if pg_off d i = 0 then 0 else pg_coff d i)" if "i < pg_count d"
    using that slots[of "4 * i" 2] w16_slot_bytes(1)[of i "map (pg_cslot d) [0..<pg_count d]"]
    by (simp add: pg_off_def[of d'] w16_def[of d'] slot_pos_eq pg_cslot_def pg_coff_def unat_of_nat16)
  show "pg_len d' i = (if pg_off d i = 0 then 0 else pg_len d i)" if "i < pg_count d"
    using that slots[of "4 * i + 2" 2] w16_slot_bytes(2)[of i "map (pg_cslot d) [0..<pg_count d]"]
    by (simp add: pg_len_def[of d'] w16_def[of d'] slot_pos_eq pg_cslot_def unat_of_nat16 pg_len_lt)
  show "seg d' a n = seg buf a n" if "off \<le> a" "a + n \<le> 8192"
    using that off lz assms(2) by (simp add: d' seg_put_inside seg_drop)
qed

lemma compact_layout:
  assumes "page_ok d"
  obtains d' where "sp_compact d = Inr d'" "page_ok d'" "pg_tuple d' = pg_tuple d" "pg_next d' = pg_next d"
    "pg_count d' = pg_count d" "pg_fso d' = 8192 - pg_used d (pg_count d)"
    "\<And>i. i < pg_count d \<Longrightarrow> pg_off d' i = 0 \<longleftrightarrow> pg_off d i = 0"
    "\<And>i. i < pg_count d \<Longrightarrow> pg_off d' i = (if pg_off d i = 0 then 0 else pg_coff d i)"
    "\<And>i. i < pg_count d \<Longrightarrow> pg_len d' i = (if pg_off d i = 0 then 0 else pg_len d i)"
proof -
  note ok = page_okD[OF assms]
  note h = header_okD[OF ok(1)]
  note used = pg_used_le[OF assms]
  let ?n = "pg_count d"
  let ?off = "8192 - pg_used d ?n"
  obtain buf where buf: "sp_compact_from d 0 ?n (of_nat 8192) [] (replicate 8192 0) =
      Inr (of_nat ?off, map (pg_cslot d) [0..<?n], buf)" "length buf = 8192"
    "\<And>j. j < ?n \<Longrightarrow> pg_off d j \<noteq> 0 \<Longrightarrow> seg buf (pg_coff d j) (pg_len d j) = seg d (pg_off d j) (pg_len d j)"
  proof -
    have "pg_used d ?n \<le> 8192" using used by simp
    then show ?thesis
      using compact_from_spec[OF ok(1,2), of 0 ?n "replicate 8192 0" "[]"] that by auto
  qed
  let ?d = "pg_compact d buf"
  note f = compact_fields[OF assms buf(2)]
  have off: "8 + 4 * ?n \<le> ?off" "?off \<le> 8192" "unat (of_nat ?off :: u16) = ?off"
    using used h unat_of_nat16[of ?off] by auto
  have coff: "?off \<le> pg_coff d i \<and> pg_coff d i + pg_len d i = 8192 - pg_used d i \<and> pg_coff d i \<noteq> 0"
    if "i < ?n" "pg_off d i \<noteq> 0" for i
    using that pg_used_mono[of "Suc i" ?n d] used off by (auto simp: pg_coff_def)
  have sep: "pg_coff d j + pg_len d j \<le> pg_coff d i" if "i < j" "j < ?n" "pg_off d j \<noteq> 0" for i j
    using that coff[of j] pg_used_mono[of "Suc i" j d] by (simp add: pg_coff_def del: pg_used_simps)
  have sl: "length (concat (map slot_bytes (map (pg_cslot d) [0..<?n]))) = 4 * ?n"
    by (subst length_concat_blocks[where w = 4]) auto
  have eq: "sp_compact d = Inr ?d"
    using off buf(1,2) sl h(1)
    by (simp add: sp_compact_def page_reads ok(1) page_nums kPAGE_SIZE_def pg_compact_def Let_def
        sizeof_PageHeader_def)
  have "slots_disjoint ?d"
    unfolding slots_disjoint_def
  proof (intro allI impI, elim conjE)
    fix i j
    assume "i < pg_count ?d" "j < pg_count ?d" "i \<noteq> j" "pg_off ?d i \<noteq> 0" "pg_off ?d j \<noteq> 0"
    then show "pg_off ?d i + pg_len ?d i \<le> pg_off ?d j \<or> pg_off ?d j + pg_len ?d j \<le> pg_off ?d i"
      using sep[of i j] sep[of j i] by (cases "i < j") (auto simp: f split: if_splits)
  qed
  moreover have "slots_in_range ?d"
    using coff by (auto simp: slots_in_range_def f kPAGE_SIZE_def)
  moreover have "header_ok ?d" using off by (simp add: header_ok_def f kPAGE_SIZE_def slot_pos_eq)
  ultimately have "page_ok ?d" by (simp add: page_ok_def)
  moreover have "pg_tuple ?d = pg_tuple d"
  proof (rule ext)
    fix i
    show "pg_tuple ?d i = pg_tuple d i"
      using coff[of i] buf(3)[of i] f(7)[of "pg_coff d i" "pg_len d i"]
      by (cases "i < ?n"; cases "pg_off d i = 0") (auto simp: pg_tuple_def pg_live_def f)
  qed
  moreover have "pg_off ?d i = 0 \<longleftrightarrow> pg_off d i = 0" if "i < ?n" for i
    using that coff[of i] by (simp add: f)
  ultimately show ?thesis
    by (intro that[OF eq]) (simp_all add: f)
qed

lemma compact_spec:
  assumes "page_ok d"
  obtains d' where "sp_compact d = Inr d'" "page_ok d'" "pg_tuple d' = pg_tuple d" "pg_next d' = pg_next d"
    "pg_count d' = pg_count d" "pg_fso d' = 8192 - pg_used d (pg_count d)"
    "\<And>i. i < pg_count d \<Longrightarrow> pg_off d' i = 0 \<longleftrightarrow> pg_off d i = 0"
  by (rule compact_layout[OF assms], rule that)

section \<open>A fresh page, the chain link, the walk over the slots\<close>

lemma init_ok:
  assumes "length d = kPAGE_SIZE"
  obtains d' where "sp_init d = Inr d'" "page_ok d'" "pg_tuple d' = Map.empty" "pg_next d' = INVALID_PAGE_ID"
    "pg_count d' = 0" "pg_fso d' = 8192"
proof -
  define d' where "d' = put16 (put16 (put d 0 (le_bytes 4 INVALID_PAGE_ID)) 6 8192) 4 0"
  have l: "length d = 8192" using assms by (simp add: kPAGE_SIZE_def)
  have eq: "sp_init d = Inr d'"
    by (simp add: d'_def sp_init_def set_next_page_id_def store32_def set_free_space_offset_def
        set_slot_count_def store16_put16 l)
  have c: "pg_count d' = 0" "pg_fso d' = 8192" "length d' = 8192"
    by (simp_all add: d'_def pg_defs page_simps l)
  moreover have "pg_next d' = INVALID_PAGE_ID"
    by (simp add: d'_def pg_next_def page_simps l seg_put_same)
  moreover have "page_ok d'"
    by (simp add: page_ok_def header_ok_def slots_in_range_def slots_disjoint_def c kPAGE_SIZE_def slot_pos_eq)
  moreover have "pg_tuple d' = Map.empty" by (rule ext) (simp add: pg_tuple_def pg_live_def c)
  ultimately show ?thesis using that[OF eq] by blast
qed

definition pg_set_next :: "byte list \<Rightarrow> page_id \<Rightarrow> byte list" where
  "pg_set_next d p = put d 0 (le_bytes 4 p)"

lemma set_next_page_ok:
  assumes "page_ok d"
  shows "sp_set_next_page d p = Inr (pg_set_next d p)" "page_ok (pg_set_next d p)"
    "pg_tuple (pg_set_next d p) = pg_tuple d" "pg_next (pg_set_next d p) = p"
    "pg_count (pg_set_next d p) = pg_count d"
proof -
  note ok = page_okD[OF assms]
  note h = header_okD[OF ok(1)]
  let ?d = "pg_set_next d p"
  have l: "length ?d = 8192" by (simp add: pg_set_next_def h(1))
  have w: "w16 ?d a = w16 d a" if "4 \<le> a" "a + 2 \<le> 8192" for a
    using that by (simp add: pg_set_next_def page_simps h(1))
  have c: "pg_count ?d = pg_count d" "pg_fso ?d = pg_fso d" by (simp_all add: pg_count_def pg_fso_def w)
  have s: "pg_off ?d i = pg_off d i" "pg_len ?d i = pg_len d i" if "i < pg_count d" for i
    using that h by (simp_all add: pg_off_def pg_len_def w slot_pos_eq)
  have seg: "seg ?d a n = seg d a n" if "4 \<le> a" "a + n \<le> 8192" for a n
    using that by (simp add: pg_set_next_def seg_put_other h(1))
  show "sp_set_next_page d p = Inr ?d"
    by (simp add: sp_set_next_page_def set_next_page_id_def store32_def pg_set_next_def h(1))
  show "page_ok ?d"
    using ok by (simp add: page_ok_def header_ok_def slots_in_range_def slots_disjoint_def c s l kPAGE_SIZE_def)
  show "pg_tuple ?d = pg_tuple d"
  proof (rule ext)
    fix i
    show "pg_tuple ?d i = pg_tuple d i"
      using slots_in_rangeD[OF ok(2), of i] h
      by (cases "i < pg_count d") (auto simp: pg_tuple_def pg_live_def c s seg)
  qed
  show "pg_next ?d = p" by (simp add: pg_next_def pg_set_next_def seg_put_same h(1))
  show "pg_count ?d = pg_count d" by (rule c)
qed

lemma next_page_eq: "page_ok d \<Longrightarrow> sp_next_page d = Inr (pg_next d)"
  by (simp add: sp_next_page_def page_reads page_okD)

lemma has_next_page_eq: "page_ok d \<Longrightarrow> sp_has_next_page d = Inr (pg_next d \<noteq> INVALID_PAGE_ID)"
  by (simp add: sp_has_next_page_def page_reads page_okD)

lemma next_occupied_from_eq:
  "header_ok d \<Longrightarrow> i + n \<le> pg_count d \<Longrightarrow>
    sp_next_occupied_from d i n = Inr (map_option of_nat (find (\<lambda>j. pg_off d j \<noteq> 0) [i..<i + n]))"
proof (induction n arbitrary: i)
  case 0
  then show ?case by simp
next
  case (Suc n)
  have "[i..<i + Suc n] = i # [Suc i..<Suc i + n]" by (simp add: upt_rec)
  with Suc show ?case by (simp add: page_reads offset_invalid_iff)
qed

lemma find_live_tuple:
  "page_ok d \<Longrightarrow> find (\<lambda>j. pg_off d j \<noteq> 0) [a..<pg_count d] = find (\<lambda>j. pg_tuple d j \<noteq> None) [a..<pg_count d]"
  by (rule find_cong) (auto simp: pg_tuple_def pg_live_def)

lemma next_occupied_slot_eq:
  assumes "page_ok d" "unat k < 65535"
  shows "sp_next_occupied_slot d k =
    Inr (map_option of_nat (find (\<lambda>j. pg_tuple d j \<noteq> None) [Suc (unat k)..<pg_count d]))"
proof -
  note h = page_okD(1)[OF assms(1)]
  have "sp_next_occupied_slot d k = sp_next_occupied_from d (Suc (unat k)) (pg_count d - Suc (unat k))"
    by (simp add: sp_next_occupied_slot_def page_reads h page_nums unat_Suc16[OF assms(2)])
  also have "\<dots> = Inr (map_option of_nat (find (\<lambda>j. pg_off d j \<noteq> 0) [Suc (unat k)..<pg_count d]))"
  proof (cases "Suc (unat k) \<le> pg_count d")
    case True
    then show ?thesis using next_occupied_from_eq[OF h, of "Suc (unat k)" "pg_count d - Suc (unat k)"] by simp
  next
    case False
    then show ?thesis by simp
  qed
  finally show ?thesis by (simp only: find_live_tuple[OF assms(1)])
qed

section \<open>Restoring a deleted tuple\<close>

definition pg_room :: "byte list \<Rightarrow> int" where
  \<comment> \<open>free bytes of the page once compacted\<close>
  "pg_room d = 8192 - int (slot_pos (pg_count d)) - int (pg_used d (pg_count d))"

lemma pg_free_le_room: "page_ok d \<Longrightarrow> pg_free d \<le> pg_room d"
  using pg_used_le[of d] header_okD[OF page_okD(1), of d] by (simp add: pg_free_def pg_room_def)

lemma pg_pick_pref: "unat k < pg_count d \<Longrightarrow> pg_off d (unat k) = 0 \<Longrightarrow> pg_pick d (Some k) = unat k"
  by (simp add: pg_pick_def)

lemma insert_at:
  assumes "page_ok d" "unat k < pg_count d" "pg_off d (unat k) = 0" "int (length t) \<le> pg_free d"
  shows "sp_insert_tuple d t (Some k) =
      Inr (Some \<lparr>rid_page_id = INVALID_PAGE_ID, rid_slot_num = k\<rparr>, pg_insert d t (Some k))"
    "page_ok (pg_insert d t (Some k))" "pg_tuple (pg_insert d t (Some k)) = (pg_tuple d)(unat k \<mapsto> t)"
    "pg_next (pg_insert d t (Some k)) = pg_next d"
proof -
  have "pg_fits d (length t)" using assms by (auto simp: pg_fits_def)
  from insert_tuple_room[OF assms(1) this, of "Some k"] pg_pick_pref[OF assms(2,3)]
  show "sp_insert_tuple d t (Some k) =
      Inr (Some \<lparr>rid_page_id = INVALID_PAGE_ID, rid_slot_num = k\<rparr>, pg_insert d t (Some k))"
    "page_ok (pg_insert d t (Some k))" "pg_tuple (pg_insert d t (Some k)) = (pg_tuple d)(unat k \<mapsto> t)"
    "pg_next (pg_insert d t (Some k)) = pg_next d"
    by simp_all
qed

lemma restore_tuple_room:
  assumes "page_ok d" "unat k < pg_count d" "pg_off d (unat k) = 0" "int (length t) \<le> pg_room d"
  obtains d' where "sp_restore_tuple d k t = Inr d'" "page_ok d'" "pg_tuple d' = (pg_tuple d)(unat k \<mapsto> t)"
    "pg_next d' = pg_next d"
proof -
  note h = page_okD(1)[OF assms(1)]
  have lt: "length t < 65536" using assms(4) by (simp add: pg_room_def slot_pos_eq)
  have k: "(k < w16 d 4) = True" "(w16 d (slot_pos (unat k)) = INVALID_SLOT_OFFSET) = True"
    using assms(2,3) by (simp_all add: word_less_nat_alt page_nums offset_invalid_iff)
  show ?thesis
  proof (cases "int (length t) \<le> pg_free d")
    case True
    note ins = insert_at[OF assms(1-3) True]
    have "sp_restore_tuple d k t = Inr (pg_insert d t (Some k))"
      using True by (simp add: sp_restore_tuple_def page_reads h assms(2) k free_space_eq[OF h] Let_def
          unat_of_nat16 uint_of_nat16 lt ins)
    with ins that show ?thesis by simp
  next
    case False
    obtain c where c: "sp_compact d = Inr c" "page_ok c" "pg_tuple c = pg_tuple d" "pg_next c = pg_next d"
      "pg_count c = pg_count d" "pg_fso c = 8192 - pg_used d (pg_count d)"
      "\<And>i. i < pg_count d \<Longrightarrow> pg_off c i = 0 \<longleftrightarrow> pg_off d i = 0"
      using compact_spec[OF assms(1)] by blast
    have free: "pg_free c = pg_room d"
      using c(5,6) pg_used_le[OF assms(1)] by (simp add: pg_free_def pg_room_def)
    have ck: "unat k < pg_count c" "pg_off c (unat k) = 0" using c(5,7) assms(2,3) by auto
    have room: "int (length t) \<le> pg_free c" using assms(4) free by simp
    note ins = insert_at[OF c(2) ck room]
    have "sp_restore_tuple d k t = Inr (pg_insert c t (Some k))"
      using False room by (simp add: sp_restore_tuple_def page_reads h assms(2) k free_space_eq[OF h]
          free_space_eq[OF page_okD(1)[OF c(2)]] c(1) Let_def unat_of_nat16 uint_of_nat16 lt ins)
    with ins c that show ?thesis by simp
  qed
qed

lemma restore_tuple_no_room:
  assumes "page_ok d" "unat k < pg_count d" "pg_off d (unat k) = 0" "length t < 65536" "pg_room d < int (length t)"
  shows "sp_restore_tuple d k t = Inl Assertion_Failed"
proof -
  note h = page_okD(1)[OF assms(1)]
  have k: "(k < w16 d 4) = True" "(w16 d (slot_pos (unat k)) = INVALID_SLOT_OFFSET) = True"
    using assms(2,3) by (simp_all add: word_less_nat_alt page_nums offset_invalid_iff)
  obtain c where c: "sp_compact d = Inr c" "page_ok c" "pg_count c = pg_count d"
    "pg_fso c = 8192 - pg_used d (pg_count d)"
    using compact_spec[OF assms(1)] by blast
  have "pg_free c = pg_room d"
    using c(3,4) pg_used_le[OF assms(1)] by (simp add: pg_free_def pg_room_def)
  then show ?thesis
    using assms(5) pg_free_le_room[OF assms(1)]
    by (simp add: sp_restore_tuple_def page_reads h assms(2) k free_space_eq[OF h] assert_that_def
        free_space_eq[OF page_okD(1)[OF c(2)]] c(1) Let_def unat_of_nat16 uint_of_nat16 assms(4))
qed

end
