(* ===== verification/Slotted_Page_Spec.thy ===== *)
theory Slotted_Page_Spec
  imports Slotted_Page_Laws
begin

text \<open>
  The contract of a slotted page and its properties.

  A page stands for a partial map from slot numbers to tuples (\<open>pg_tuple\<close>) and a link to the
  next page (\<open>pg_next\<close>). The locale \<open>slot_store\<close> is the interface the table heap uses:
  what an insertion, a deletion and a compaction promise of that map; its client is the
  "insert, else compact and insert again" step of \<open>TableHeap\<close>, proved inside the locale.
  The interpretation \<open>sp\<close> discharges the contract for the byte-level operations.
\<close>

section \<open>A fresh page\<close>

lemma fresh_page_exists: "\<exists>d. sp_init (replicate kPAGE_SIZE 0) = Inr d"
  by (rule init_ok[of "replicate kPAGE_SIZE 0"]) auto

definition fresh_page :: "byte list" where
  "fresh_page = projr (sp_init (replicate kPAGE_SIZE 0))"

lemma fresh_page_init: "sp_init (replicate kPAGE_SIZE 0) = Inr fresh_page"
  using fresh_page_exists by (auto simp: fresh_page_def)

lemma fresh_page_ok:
  shows "page_ok fresh_page" "pg_tuple fresh_page = Map.empty" "pg_next fresh_page = INVALID_PAGE_ID"
    "pg_count fresh_page = 0" "pg_fso fresh_page = 8192"
  by (rule init_ok[of "replicate kPAGE_SIZE 0"]; simp add: fresh_page_init)+

lemma fresh_page_room: "pg_free fresh_page = 8184" "pg_fits fresh_page n \<longleftrightarrow> n \<le> 8180"
  by (auto simp: pg_free_def pg_fits_def fresh_page_ok slot_pos_eq)

section \<open>Compactness test\<close>

lemma is_compacted_from_total:
  "header_ok d \<Longrightarrow> i + n \<le> pg_count d \<Longrightarrow> sp_is_compacted_from d i n noff \<noteq> Inl e"
  by (induction n arbitrary: i noff) (auto simp: page_reads)

lemma is_compacted_total: "page_ok d \<Longrightarrow> \<exists>b. sp_is_compacted d = Inr b"
proof -
  assume ok: "page_ok d"
  note h = page_okD(1)[OF ok]
  have "sp_is_compacted d \<noteq> Inl e" for e
    using is_compacted_from_total[OF h, of 0 "pg_count d"]
    by (auto simp: sp_is_compacted_def page_reads h page_nums res_simps unat_eq_0)
      (metis gr0I page_nums(1) unat_eq_0 read_slot_offset[OF h] sum.distinct(1))
  then show ?thesis by (cases "sp_is_compacted d") auto
qed

section \<open>The contract of a page of slots\<close>

definition insert_or_compact ::
  "('p \<Rightarrow> ('r option \<times> 'p) res) \<Rightarrow> ('p \<Rightarrow> bool res) \<Rightarrow> ('p \<Rightarrow> 'p res) \<Rightarrow> 'p \<Rightarrow> ('r option \<times> 'p) res" where
  \<comment> \<open>the two attempts of \<open>TableHeap::insert_tuple\<close> on one page\<close>
  "insert_or_compact ins compacted cmp d =
     bind_res (ins d) (\<lambda>(r, d1).
       if r \<noteq> None then Inr (r, d1)
       else bind_res (compacted d1) (\<lambda>b.
         if b then Inr (None, d1)
         else bind_res (cmp d1) (\<lambda>d2. ins d2)))"

locale slot_store =
  fixes ok :: "'p \<Rightarrow> bool"
    and tuples :: "'p \<Rightarrow> nat \<Rightarrow> 't option"
    and link :: "'p \<Rightarrow> page_id"
    and count :: "'p \<Rightarrow> nat"
    and small :: "'t \<Rightarrow> bool"
    and ins :: "'p \<Rightarrow> 't \<Rightarrow> (rid option \<times> 'p) res"
    and compacted :: "'p \<Rightarrow> bool res"
    and cmp :: "'p \<Rightarrow> 'p res"
  assumes ins_cases: "ok d \<Longrightarrow> small t \<Longrightarrow>
      ins d t = Inr (None, d) \<or>
      (\<exists>r d'. ins d t = Inr (Some r, d') \<and> ok d' \<and> tuples d (unat (rid_slot_num r)) = None \<and>
        tuples d' = (tuples d)(unat (rid_slot_num r) \<mapsto> t) \<and> link d' = link d \<and> count d \<le> count d')"
    and compacted_total: "ok d \<Longrightarrow> \<exists>b. compacted d = Inr b"
    and cmp_same: "ok d \<Longrightarrow> \<exists>d'. cmp d = Inr d' \<and> ok d' \<and> tuples d' = tuples d \<and> link d' = link d \<and> count d' = count d"
begin

lemma insert_or_compact_cases:
  assumes "ok d" "small t"
  obtains r d' where "insert_or_compact (\<lambda>d. ins d t) compacted cmp d = Inr (Some r, d')" "ok d'"
      "tuples d (unat (rid_slot_num r)) = None" "tuples d' = (tuples d)(unat (rid_slot_num r) \<mapsto> t)"
      "link d' = link d" "count d \<le> count d'"
  | d' where "insert_or_compact (\<lambda>d. ins d t) compacted cmp d = Inr (None, d')" "ok d'"
      "tuples d' = tuples d" "link d' = link d" "count d' = count d"
proof (cases "ins d t = Inr (None, d)")
  case True
  obtain b where b: "compacted d = Inr b" using compacted_total[OF assms(1)] by blast
  obtain c where c: "cmp d = Inr c" "ok c" "tuples c = tuples d" "link c = link d" "count c = count d"
    using cmp_same[OF assms(1)] by blast
  show ?thesis
  proof (cases b)
    case True
    with \<open>ins d t = Inr (None, d)\<close> b assms that(2) show ?thesis by (simp add: insert_or_compact_def)
  next
    case False
    then have eq: "insert_or_compact (\<lambda>d. ins d t) compacted cmp d = ins c t"
      using \<open>ins d t = Inr (None, d)\<close> b c by (simp add: insert_or_compact_def)
    from ins_cases[OF c(2) assms(2)] show ?thesis
      using that eq c by auto
  qed
next
  case False
  with ins_cases[OF assms] that(1) show ?thesis by (auto simp: insert_or_compact_def)
qed

end

lemma insert_cases:
  assumes "page_ok d" "length t < 65536"
  shows "sp_insert_tuple d t pref = Inr (None, d) \<or>
    (\<exists>r d'. sp_insert_tuple d t pref = Inr (Some r, d') \<and> page_ok d' \<and>
      pg_tuple d (unat (rid_slot_num r)) = None \<and>
      pg_tuple d' = (pg_tuple d)(unat (rid_slot_num r) \<mapsto> t) \<and> pg_next d' = pg_next d \<and> pg_count d \<le> pg_count d')"
proof (cases "pg_fits d (length t)")
  case False
  with assms show ?thesis by (simp add: insert_tuple_no_room)
next
  case True
  from insert_tuple_room[OF assms(1) this, of pref] pg_count_lt[of d] show ?thesis
    by (auto simp: unat_of_nat16)
qed

interpretation sp: slot_store page_ok pg_tuple pg_next pg_count "\<lambda>t. length t < 65536"
    "\<lambda>d t. sp_insert_tuple d t None" sp_is_compacted sp_compact
proof unfold_locales
  fix d :: "byte list" and t :: "byte list"
  assume "page_ok d" "length t < 65536"
  then show "sp_insert_tuple d t None = Inr (None, d) \<or>
    (\<exists>r d'. sp_insert_tuple d t None = Inr (Some r, d') \<and> page_ok d' \<and>
      pg_tuple d (unat (rid_slot_num r)) = None \<and>
      pg_tuple d' = (pg_tuple d)(unat (rid_slot_num r) \<mapsto> t) \<and> pg_next d' = pg_next d \<and> pg_count d \<le> pg_count d')"
    by (rule insert_cases)
next
  fix d :: "byte list"
  assume "page_ok d"
  then show "\<exists>b. sp_is_compacted d = Inr b" by (rule is_compacted_total)
next
  fix d :: "byte list"
  assume "page_ok d"
  then show "\<exists>d'. sp_compact d = Inr d' \<and> page_ok d' \<and> pg_tuple d' = pg_tuple d \<and> pg_next d' = pg_next d \<and>
      pg_count d' = pg_count d"
    by (rule compact_spec) blast
qed

section \<open>Properties\<close>

text \<open>
  C20: inserting a tuple. On a well-formed page \<open>insert_tuple\<close> succeeds exactly when the tuple
  fits (counting a new slot only when no slot is free), in the preferred slot if that one is free;
  the page stays well formed, exactly that slot changes and the link is kept. Without room the
  page is returned unchanged.
\<close>

theorem insert_tuple_spec:
  assumes "page_ok d" "length t < 65536"
  shows "if pg_fits d (length t)
    then \<exists>r d'. sp_insert_tuple d t pref = Inr (Some r, d') \<and> page_ok d' \<and>
      unat (rid_slot_num r) = pg_pick d pref \<and> pg_tuple d (pg_pick d pref) = None \<and>
      pg_tuple d' = (pg_tuple d)(pg_pick d pref \<mapsto> t) \<and> pg_next d' = pg_next d
    else sp_insert_tuple d t pref = Inr (None, d)"
proof (cases "pg_fits d (length t)")
  case True
  with insert_tuple_room[OF assms(1) True, of pref] show ?thesis by (simp add: unat_of_nat16)
next
  case False
  with insert_tuple_no_room[OF assms False] show ?thesis by simp
qed

theorem insert_tuple_spec_witness:
  "\<exists>r d'. sp_insert_tuple fresh_page [1, 2, 3] None = Inr (Some r, d') \<and> page_ok d' \<and>
     pg_tuple d' = Map.empty(0 \<mapsto> [1, 2, 3])"
  using insert_tuple_spec[of fresh_page "[1, 2, 3]" None] fresh_page_ok
  by (auto simp: fresh_page_room pg_pick_def)

text \<open>
  Reading after writing. What \<open>insert_tuple\<close> stored is what \<open>get_tuple\<close> returns at the slot of the
  record identifier, every other slot reads as before, and \<open>delete_tuple\<close> makes the slot read as
  absent and gives back the tuples the page had.
\<close>

theorem insert_get_delete:
  assumes "page_ok d" "length t < 65536" "sp_insert_tuple d t pref = Inr (Some r, d1)"
  shows "sp_get_tuple d1 (rid_slot_num r) = Inr t \<and>
    (\<forall>k. k \<noteq> rid_slot_num r \<longrightarrow> sp_get_tuple d1 k = sp_get_tuple d k) \<and>
    (\<exists>d2. sp_delete_tuple d1 (rid_slot_num r) = Inr (True, d2) \<and> page_ok d2 \<and>
      pg_tuple d2 = pg_tuple d \<and> sp_has_slot d2 (rid_slot_num r) = Inr False)"
proof -
  from insert_cases[OF assms(1,2), of pref] assms(3)
  have ok: "page_ok d1" and none: "pg_tuple d (unat (rid_slot_num r)) = None"
    and upd: "pg_tuple d1 = (pg_tuple d)(unat (rid_slot_num r) \<mapsto> t)" by auto
  have "unat (rid_slot_num r) < pg_count d1"
    using upd by (metis fun_upd_same option.distinct(1) pg_live_def pg_tuple_def)
  from delete_ok[OF ok this] have "\<exists>d2. sp_delete_tuple d1 (rid_slot_num r) = Inr (True, d2) \<and> page_ok d2 \<and>
      pg_tuple d2 = pg_tuple d \<and> sp_has_slot d2 (rid_slot_num r) = Inr False"
    using none by (simp add: delete_tuple_eq ok upd has_slot_eq fun_upd_idem)
  then show ?thesis
    by (auto simp: get_tuple_eq ok assms(1) upd word_unat_eq_iff)
qed

theorem insert_get_delete_witness:
  "\<exists>d1. sp_get_tuple d1 0 = Inr [7, 8] \<and> (\<exists>d2. sp_delete_tuple d1 0 = Inr (True, d2) \<and> page_ok d2)"
proof -
  have p: "pg_pick fresh_page None = 0" by (simp add: pg_pick_def fresh_page_ok)
  have "pg_fits fresh_page (length [7 :: byte, 8])" by (simp add: fresh_page_room)
  from insert_tuple_room(1)[OF fresh_page_ok(1) this, of None] p
  have "sp_insert_tuple fresh_page [7, 8] None =
      Inr (Some \<lparr>rid_page_id = INVALID_PAGE_ID, rid_slot_num = 0\<rparr>, pg_insert fresh_page [7, 8] None)"
    by simp
  from insert_get_delete[OF fresh_page_ok(1) _ this] show ?thesis by auto
qed

text \<open>
  In-place update. On a well-formed page and for a tuple whose length fits the 16-bit slot
  field, \<open>try_update_in_place\<close> changes exactly the live slot whose tuple is at least as long, and
  otherwise returns false and the same page.
\<close>

theorem try_update_in_place_spec:
  assumes "page_ok d" "length t < 65536"
  shows "\<exists>b d'. sp_try_update_in_place d r t = Inr (b, d') \<and> page_ok d' \<and> pg_next d' = pg_next d \<and>
    (b \<longleftrightarrow> (\<exists>u. pg_tuple d (unat (rid_slot_num r)) = Some u \<and> length t \<le> length u)) \<and>
    pg_tuple d' = (if b then (pg_tuple d)(unat (rid_slot_num r) \<mapsto> t) else pg_tuple d)"
proof -
  let ?k = "unat (rid_slot_num r)"
  note h = page_okD(1)[OF assms(1)]
  have len: "pg_live d ?k \<Longrightarrow> length (seg d (pg_off d ?k) (pg_len d ?k)) = pg_len d ?k"
    using slots_in_rangeD[OF page_okD(2)[OF assms(1)], of ?k] header_okD(1)[OF h] by (simp add: pg_live_def)
  show ?thesis
    using try_update_in_place_eq[OF assms, of r] update_ok[OF assms(1), of ?k t] assms len
      update_fields(3)[OF h page_okD(2)[OF assms(1)], of ?k t]
    by (auto simp: pg_tuple_def)
qed

theorem try_update_in_place_spec_witness:
  "\<exists>d b d'. sp_try_update_in_place d \<lparr>rid_page_id = 3, rid_slot_num = 0\<rparr> [9] = Inr (b, d') \<and> b \<and>
     pg_tuple d' = Map.empty(0 \<mapsto> [9])"
proof -
  obtain r d where d: "page_ok d" "pg_tuple d = Map.empty(0 \<mapsto> [7, 8])"
    using insert_tuple_room(2,3)[OF fresh_page_ok(1), of "[7, 8]" None]
    by (auto simp: fresh_page_room pg_pick_def fresh_page_ok)
  show ?thesis
    using try_update_in_place_spec[OF d(1), of "[9]" "\<lparr>rid_page_id = 3, rid_slot_num = 0\<rparr>"] d(2)
    by (intro exI[of _ d]) auto
qed

lemma try_update_in_place_overflow:
  assumes "page_ok d" "pg_live d (unat (rid_slot_num r))" "65536 \<le> length t"
    "length t mod 65536 \<le> pg_len d (unat (rid_slot_num r))"
  shows "sp_try_update_in_place d r t = Inl Undefined_Behaviour"
proof -
  let ?k = "unat (rid_slot_num r)"
  note h = page_okD(1)[OF assms(1)]
  have k: "?k < pg_count d" "pg_off d ?k \<noteq> 0" using assms(2) by (simp_all add: pg_live_def)
  have n: "unat (of_nat (length t) :: u16) = length t mod 65536"
    by (simp add: unat_of_nat)
  have rng: "pg_off d ?k + pg_len d ?k \<le> length d"
    using slots_in_rangeD[OF page_okD(2)[OF assms(1)] k] header_okD(1)[OF h] by simp
  have "length t mod 65536 < 65536" by simp
  with assms(3) have gt: "length t mod 65536 < length t" by linarith
  show ?thesis
    using k n rng assms(4) gt
    by (simp add: sp_try_update_in_place_def page_reads h read_slot_count_le offset_invalid_iff Let_def
        word_less_nat_alt page_nums copy_into_def)
qed

text \<open>
  C21: compaction. \<open>compact\<close> keeps every tuple at its slot, the slot count and the link, keeps the page
  well formed, and leaves as free space everything that is not header, slot or live tuple.
\<close>

theorem compact_keeps_tuples:
  assumes "page_ok d"
  shows "\<exists>d'. sp_compact d = Inr d' \<and> page_ok d' \<and> pg_tuple d' = pg_tuple d \<and> pg_next d' = pg_next d \<and>
    pg_count d' = pg_count d \<and> sp_free_space_bytes d' = Inr (pg_room d) \<and> pg_free d \<le> pg_room d"
proof -
  obtain c where c: "sp_compact d = Inr c" "page_ok c" "pg_tuple c = pg_tuple d" "pg_next c = pg_next d"
    "pg_count c = pg_count d" "pg_fso c = 8192 - pg_used d (pg_count d)"
    using compact_spec[OF assms] by blast
  have "pg_free c = pg_room d"
    using c(5,6) pg_used_le[OF assms] by (simp add: pg_free_def pg_room_def)
  with c pg_free_le_room[OF assms] show ?thesis
    by (simp add: free_space_eq[OF page_okD(1)[OF c(2)]])
qed

theorem compact_keeps_tuples_witness:
  "\<exists>d'. sp_compact fresh_page = Inr d' \<and> page_ok d' \<and> pg_tuple d' = Map.empty"
  using compact_keeps_tuples[OF fresh_page_ok(1)] by (auto simp: fresh_page_ok)

text \<open>
  C36: rollback on a page. Restoring a tuple at a slot that was deleted succeeds exactly when the
  page, once compacted, has room for it: then the tuple is back at its slot, nothing else changes;
  otherwise an assertion fails.
\<close>

theorem restore_tuple_spec:
  assumes "page_ok d" "unat k < pg_count d" "pg_tuple d (unat k) = None" "length t < 65536"
  shows "if int (length t) \<le> pg_room d
    then \<exists>d'. sp_restore_tuple d k t = Inr d' \<and> page_ok d' \<and> pg_tuple d' = (pg_tuple d)(unat k \<mapsto> t) \<and>
      pg_next d' = pg_next d
    else sp_restore_tuple d k t = Inl Assertion_Failed"
proof -
  have off: "pg_off d (unat k) = 0"
    using assms(2,3) by (auto simp: pg_tuple_def pg_live_def split: if_splits)
  show ?thesis
  proof (cases "int (length t) \<le> pg_room d")
    case True
    then show ?thesis using restore_tuple_room[OF assms(1,2) off True] by auto
  next
    case False
    then show ?thesis using restore_tuple_no_room[OF assms(1,2) off assms(4)] by simp
  qed
qed

lemma page_with_hole:
  obtains d where "page_ok d" "pg_count d = 1" "pg_tuple d = Map.empty" "pg_room d = 8180"
proof -
  define d1 where "d1 = pg_insert fresh_page [7, 8] None"
  have "pg_fits fresh_page (length [7 :: byte, 8])" by (simp add: fresh_page_room)
  note ins = insert_tuple_room[OF fresh_page_ok(1) this, of None]
  have p: "pg_pick fresh_page None = 0" by (simp add: pg_pick_def fresh_page_ok)
  have ok: "page_ok d1" "pg_count d1 = 1"
    using ins p by (simp_all add: d1_def fresh_page_ok)
  note del = delete_ok[OF ok(1), of 0] delete_fields[OF page_okD(1)[OF ok(1)], of 0]
  have "pg_used (pg_delete d1 0) 1 = 0" using del(7)[of 0] ok(2) by (simp add: pg_used_def)
  then have "pg_room (pg_delete d1 0) = 8180"
    using del(4) ok(2) by (simp add: pg_room_def slot_pos_eq)
  with del ins p ok show ?thesis
    by (intro that[of "pg_delete d1 0"]) (auto simp: d1_def fresh_page_ok)
qed

theorem restore_tuple_spec_witness:
  "\<exists>d. page_ok d \<and> (\<exists>d'. sp_restore_tuple d 0 [7, 8] = Inr d' \<and> pg_tuple d' = Map.empty(0 \<mapsto> [7, 8])) \<and>
     sp_restore_tuple d 0 (replicate 8181 7) = Inl Assertion_Failed"
proof -
  obtain d where d: "page_ok d" "pg_count d = 1" "pg_tuple d = Map.empty" "pg_room d = 8180"
    by (rule page_with_hole)
  then show ?thesis using restore_tuple_spec[of d 0 "[7, 8]"] restore_tuple_spec[of d 0 "replicate 8181 7"] by (intro exI[of _ d]) auto
qed

lemma used_one: "page_ok d \<Longrightarrow> pg_count d = 1 \<Longrightarrow> pg_tuple d = Map.empty \<Longrightarrow> pg_used d (pg_count d) = 0 \<and> pg_off d 0 = 0"
  by (auto simp: pg_tuple_def pg_live_def fun_eq_iff split: if_splits)

lemma insert_free_slot:
  assumes "page_ok d" "pg_fits d (length t)" "pg_count d = 1" "pg_off d 0 = 0"
  shows "sp_insert_tuple d t None = Inr (Some \<lparr>rid_page_id = INVALID_PAGE_ID, rid_slot_num = 0\<rparr>, pg_insert d t None)"
    "pg_count (pg_insert d t None) = 1" "pg_tuple (pg_insert d t None) = (pg_tuple d)(0 \<mapsto> t)"
    "pg_free (pg_insert d t None) = pg_free d - int (length t)"
proof -
  have p: "pg_pick d None = 0" using assms(3,4) by (simp add: pg_pick_def)
  note i = insert_tuple_room[OF assms(1,2), of None, unfolded p]
  show "sp_insert_tuple d t None = Inr (Some \<lparr>rid_page_id = INVALID_PAGE_ID, rid_slot_num = 0\<rparr>, pg_insert d t None)"
    "pg_count (pg_insert d t None) = 1" "pg_tuple (pg_insert d t None) = (pg_tuple d)(0 \<mapsto> t)"
    using i assms(3) by simp_all
  have sp: "slot_pos (pg_count d) + length t \<le> pg_fso d" using assms(2) by (simp add: pg_fits_def pg_free_def)
  show "pg_free (pg_insert d t None) = pg_free d - int (length t)"
    using place_fields[OF page_okD(1)[OF assms(1)] _ sp, of 0] assms(3) sp by (simp add: pg_insert_def p pg_free_def)
qed

text \<open>
  A rollback that cannot succeed. On a page whose only tuple has more than 8176 bytes, a transaction that deletes it and inserts two
  smaller ones (the first one after compaction, as the heap does) uses a second slot, and no operation gives a slot
  back: undoing the three operations in the opposite order leaves four bytes too few, and the assertion in \<open>restore_tuple\<close> does not hold.
\<close>

lemma undo_after_reuse_fails:
  assumes "page_ok d" "pg_count d = 1" "pg_tuple d = [0 \<mapsto> a]" "8176 < length a" "length a < 65536" "length b + length c \<le> 8176"
  shows "\<exists>d1 d2 r1 d3 r2 d4 d5 d6. sp_delete_tuple d 0 = Inr (True, d1) \<and> sp_compact d1 = Inr d2 \<and>
    sp_insert_tuple d2 b None = Inr (Some r1, d3) \<and> sp_insert_tuple d3 c None = Inr (Some r2, d4) \<and> page_ok d4 \<and>
    sp_delete_tuple d4 (rid_slot_num r2) = Inr (True, d5) \<and> sp_delete_tuple d5 (rid_slot_num r1) = Inr (True, d6) \<and>
    pg_tuple d6 = Map.empty \<and> sp_restore_tuple d6 0 a = Inl Assertion_Failed"
proof -
  define d1 where "d1 = pg_delete d 0"
  have e1: "sp_delete_tuple d 0 = Inr (True, d1)" using delete_tuple_eq[OF assms(1), of 0] assms(3) by (simp add: d1_def)
  have k0: "0 < pg_count d" using assms(2) by simp
  note del = delete_ok[OF assms(1) k0, folded d1_def] delete_fields(2)[OF page_okD(1)[OF assms(1)] k0, folded d1_def]
  have t1: "pg_tuple d1 = Map.empty" "pg_count d1 = 1" using del(2,3) assms(2,3) by simp_all
  obtain d2 where d2: "sp_compact d1 = Inr d2" "page_ok d2" "pg_tuple d2 = pg_tuple d1" "pg_count d2 = pg_count d1"
    "pg_fso d2 = 8192 - pg_used d1 (pg_count d1)"
    using compact_spec[OF del(1)] by blast
  note u1 = used_one[OF del(1) t1(2,1)]
  have t2: "pg_tuple d2 = Map.empty" "pg_count d2 = 1" using d2(3,4) t1 by simp_all
  have f2: "pg_free d2 = 8180" using d2(5) u1 t2(2) by (simp add: pg_free_def slot_pos_eq)
  have o2: "pg_off d2 0 = 0" using used_one[OF d2(2) t2(2,1)] by simp
  have fitb: "pg_fits d2 (length b)" using assms(6) f2 o2 t2(2) by (auto simp: pg_fits_def)
  note b = insert_free_slot[OF d2(2) fitb t2(2) o2]
  define d3 where "d3 = pg_insert d2 b None"
  have ok3: "page_ok d3" using insert_tuple_room(2)[OF d2(2) fitb] by (simp add: d3_def)
  have t3: "pg_count d3 = 1" "pg_tuple d3 = [0 \<mapsto> b]" "pg_free d3 = 8180 - int (length b)" using b(2-4) t2(1) f2 by (simp_all add: d3_def)
  have o3: "pg_off d3 0 \<noteq> 0" using t3(1,2) by (auto simp: pg_tuple_def pg_live_def fun_eq_iff split: if_splits)
  have fitc: "pg_fits d3 (length c)" using assms(6) t3(3) by (simp add: pg_fits_def)
  have p3: "pg_pick d3 None = 1" using t3(1) o3 by (simp add: pg_pick_def)
  note c = insert_tuple_room[OF ok3 fitc, of None, unfolded p3]
  define d4 where "d4 = pg_insert d3 c None"
  have t4: "page_ok d4" "pg_tuple d4 = [0 \<mapsto> b, 1 \<mapsto> c]" "pg_count d4 = 2"
    using c(2,3,6) t3(1,2) by (simp_all add: d4_def)
  define d5 where "d5 = pg_delete d4 1"
  have k1: "1 < pg_count d4" using t4(3) by simp
  note del5 = delete_ok[OF t4(1) k1, folded d5_def] delete_fields(2)[OF page_okD(1)[OF t4(1)] k1, folded d5_def]
  have e5: "sp_delete_tuple d4 1 = Inr (True, d5)" using delete_tuple_eq[OF t4(1), of 1] t4(2) by (simp add: d5_def)
  have t5: "pg_tuple d5 = [0 \<mapsto> b]" "pg_count d5 = 2" using del5(2,3) t4(2,3) by auto
  define d6 where "d6 = pg_delete d5 0"
  have k6: "0 < pg_count d5" using t5(2) by simp
  note del6 = delete_ok[OF del5(1) k6, folded d6_def] delete_fields(2)[OF page_okD(1)[OF del5(1)] k6, folded d6_def]
  have e6: "sp_delete_tuple d5 0 = Inr (True, d6)" using delete_tuple_eq[OF del5(1), of 0] t5(1) by (simp add: d6_def)
  have t6: "pg_tuple d6 = Map.empty" "pg_count d6 = 2" using del6(2,3) t5 by simp_all
  have off: "pg_off d6 i = 0" if "i < 2" for i
    using t6 that by (auto simp: pg_tuple_def pg_live_def fun_eq_iff split: if_splits)
  have room: "pg_room d6 = 8176" using off[of 0] off[of 1] t6(2) by (simp add: pg_room_def slot_pos_eq numeral_2_eq_2)
  have "sp_restore_tuple d6 0 a = Inl Assertion_Failed"
    by (rule restore_tuple_no_room[OF del6(1)]) (use t6 off[of 0] room assms(4,5) in simp_all)
  then show ?thesis
    using e1 d2(1) b(1) c(1) t4(1) e5 e6 t6(1) unfolding d3_def[symmetric] d4_def[symmetric] by force
qed

section \<open>Where the code departs from its intention\<close>

lemma is_compacted_from_skip:
  "header_ok d \<Longrightarrow> i + n \<le> pg_count d \<Longrightarrow> \<forall>j. i \<le> j \<and> j < i + n \<longrightarrow> pg_off d j = 0 \<Longrightarrow>
    sp_is_compacted_from d i n noff = Inr (unat noff = kPAGE_SIZE)"
  by (induction n arbitrary: i) (auto simp: page_reads offset_invalid_iff)

lemma is_compacted_from_break:
  "header_ok d \<Longrightarrow> i + n \<le> pg_count d \<Longrightarrow> i \<le> j \<Longrightarrow> j < i + n \<Longrightarrow> pg_off d j \<noteq> 0 \<Longrightarrow>
    \<forall>k. i \<le> k \<and> k < i + n \<and> pg_off d k \<noteq> 0 \<longrightarrow> pg_off d k \<noteq> unat noff \<Longrightarrow>
    sp_is_compacted_from d i n noff = Inr False"
proof (induction n arbitrary: i)
  case 0
  then show ?case by simp
next
  case (Suc n)
  note h = Suc.prems(1)
  show ?case
  proof (cases "pg_off d i = 0")
    case True
    then have "i \<noteq> j" using Suc.prems(5) by auto
    with Suc.prems have "sp_is_compacted_from d (Suc i) n noff = Inr False"
      by (intro Suc.IH) auto
    with True Suc.prems show ?thesis by (simp add: page_reads offset_invalid_iff)
  next
    case False
    with Suc.prems have "noff \<noteq> w16 d (slot_pos i)" by (auto simp: pg_off_def)
    with False Suc.prems show ?thesis by (simp add: page_reads offset_invalid_iff)
  qed
qed

lemma is_compacted_step0:
  assumes "page_ok d" "pg_live d 0"
  shows "sp_is_compacted d =
    sp_is_compacted_from d 1 (pg_count d - 1) (of_nat (pg_off d 0) + of_nat (pg_len d 0))"
proof -
  note h = page_okD(1)[OF assms(1)]
  have c: "0 < pg_count d" "pg_off d 0 \<noteq> 0" using assms(2) by (simp_all add: pg_live_def)
  then obtain n where n: "pg_count d = Suc n" using gr0_implies_Suc by blast
  have "w16 d 4 \<noteq> 0" using c(1) by (auto simp: pg_count_def)
  then show ?thesis
    using c n by (simp add: sp_is_compacted_def page_reads h page_nums offset_invalid_iff)
      (simp add: pg_off_def pg_len_def)
qed

text \<open>\<open>is_compacted\<close> says no of a page that \<open>compact\<close> has just laid out, once slot 0 and another slot are live\<close>

lemma is_compacted_rejects_compacted_page:
  assumes "page_ok d" "pg_live d 0" "0 < pg_len d 0" "pg_live d j" "0 < j"
  shows "\<exists>c. sp_compact d = Inr c \<and> sp_is_compacted c = Inr False"
proof -
  obtain c where c: "sp_compact d = Inr c" "page_ok c" "pg_tuple c = pg_tuple d" "pg_next c = pg_next d"
    "pg_count c = pg_count d"
    "pg_fso c = 8192 - pg_used d (pg_count d)"
    "\<And>i. i < pg_count d \<Longrightarrow> pg_off c i = 0 \<longleftrightarrow> pg_off d i = 0"
    "\<And>i. i < pg_count d \<Longrightarrow> pg_off c i = (if pg_off d i = 0 then 0 else pg_coff d i)"
    "\<And>i. i < pg_count d \<Longrightarrow> pg_len c i = (if pg_off d i = 0 then 0 else pg_len d i)"
    by (rule compact_layout[OF assms(1)], rule that)
  have d0: "0 < pg_count d" "pg_off d 0 \<noteq> 0" and j: "j < pg_count d" "pg_off d j \<noteq> 0"
    using assms(2,4) by (simp_all add: pg_live_def)
  have used: "pg_used d (pg_count d) \<le> 8192" using pg_used_le[OF assms(1)] by simp
  have len0: "pg_used d (Suc 0) = pg_len d 0" using d0 by simp
  have le: "pg_len d 0 \<le> pg_used d (Suc k) \<and> pg_used d (Suc k) \<le> 8192" if "k < pg_count d" for k
    using pg_used_mono[of "Suc 0" "Suc k" d] pg_used_mono[of "Suc k" "pg_count d" d] used len0 that
    by (simp del: pg_used_simps)
  have below: "pg_off c k < 8192" if "k < pg_count c" "pg_off c k \<noteq> 0" for k
    using that c(5,8) le[of k] assms(3) by (auto simp: pg_coff_def simp del: pg_used_simps)
  have "pg_off c 0 + pg_len c 0 = 8192"
    using c(8,9) d0 le[of 0] len0 by (simp add: pg_coff_def)
  then have u: "of_nat (pg_off c 0) + of_nat (pg_len c 0) = (of_nat 8192 :: u16)"
    by (metis of_nat_add)
  have ne: "pg_off c k \<noteq> 8192" if "k < pg_count d" "pg_off c k \<noteq> 0" for k
    using below[of k] that c(5) by auto
  note hc = page_okD(1)[OF c(2)]
  have off: "pg_off c 0 \<noteq> 0" "pg_off c j \<noteq> 0"
    using c(7) d0 j by auto
  have live: "pg_live c 0" using d0 c(5) off by (simp add: pg_live_def)
  have "sp_is_compacted c = Inr False"
    unfolding is_compacted_step0[OF c(2) live] u
    by (rule is_compacted_from_break[OF hc, of _ _ j])
      (use j c(5) off assms(5) in \<open>auto simp: unat_of_nat16 dest: ne\<close>)
  with c(1) show ?thesis by blast
qed

text \<open>\<open>is_compacted\<close> says yes of a page whose space is not reclaimed, when slot 0 ends the page and the rest is deleted\<close>

lemma is_compacted_accepts_holes:
  assumes "page_ok d" "pg_live d 0" "pg_off d 0 + pg_len d 0 = kPAGE_SIZE" "\<forall>j. pg_live d j \<longrightarrow> j = 0"
  shows "sp_is_compacted d = Inr True"
proof -
  note h = page_okD(1)[OF assms(1)]
  have c: "0 < pg_count d" using assms(2) by (simp add: pg_live_def)
  have u: "of_nat (pg_off d 0) + of_nat (pg_len d 0) = (of_nat kPAGE_SIZE :: u16)"
    using assms(3) by (metis of_nat_add)
  have "sp_is_compacted d = Inr (unat (of_nat (pg_off d 0) + of_nat (pg_len d 0) :: u16) = kPAGE_SIZE)"
    unfolding is_compacted_step0[OF assms(1,2)]
    by (rule is_compacted_from_skip[OF h]) (use c assms(4) in \<open>auto simp: pg_live_def\<close>)
  then show ?thesis unfolding u by (simp add: kPAGE_SIZE_def)
qed

end
