(* ===== verification/Disk_Manager.thy ===== *)
theory Disk_Manager
  imports Prelude
begin

text \<open>
  \<open>DiskManager\<close> (\<open>src/storage/disk_manager.cpp\<close>): page input and output on one file, page
  allocation with a free list, and the metadata page 0 that keeps both across restarts.

  The file is a byte sequence with the behaviour POSIX gives \<open>pread\<close>, \<open>pwrite\<close> and
  \<open>fstat\<close>: a read returns the bytes that are there, a write past the end fills the gap with
  zeros, a write that meets the size limit of the file system is short, and a failing device
  makes a read or a query of the size return -1.
\<close>

section \<open>The file\<close>

record db_file =
  contents :: "byte list"
  size_limit :: nat
  read_fails :: bool
  stat_fails :: bool

definition pread :: "db_file \<Rightarrow> nat \<Rightarrow> nat \<Rightarrow> int \<times> byte list" where
  "pread f n off =
     (if read_fails f then (-1, [])
      else let bs = take n (drop off (contents f)) in (int (length bs), bs))"

definition pwrite :: "db_file \<Rightarrow> byte list \<Rightarrow> nat \<Rightarrow> int \<times> db_file" where
  "pwrite f bs off =
     (if bs = [] then (0, f)
      else if size_limit f \<le> off then (-1, f)
      else let n = min (length bs) (size_limit f - off) in
        (int n, f\<lparr>contents :=
           put (contents f @ replicate (off + n - length (contents f)) 0) off (take n bs)\<rparr>))"

definition get_size :: "db_file \<Rightarrow> int" where
  "get_size f = (if stat_fails f then -1 else int (length (contents f)))"

definition whole_pages :: "int \<Rightarrow> nat" where
  \<comment> \<open>\<open>size / kPAGE_SIZE\<close>: an \<open>off_t\<close> divided by a \<open>size_t\<close> is converted to it, so -1 is a very large size\<close>
  "whole_pages sz = nat (if sz < 0 then sz + 2 ^ 64 else sz) div kPAGE_SIZE"

section \<open>State\<close>

record disk_header =
  hdr_magic :: u64
  hdr_version :: u64
  hdr_capacity :: u64
  hdr_free_list_size :: u64

definition sizeof_DiskHeader :: nat where
  "sizeof_DiskHeader = 32"

definition sizeof_PageID :: nat where
  "sizeof_PageID = 4"

record disk =
  disk_file :: db_file
  disk_hdr :: disk_header
  disk_capacity :: page_id
  free_list :: "page_id list"

definition header_bytes :: "disk_header \<Rightarrow> byte list" where
  "header_bytes h =
     le_bytes 8 (hdr_magic h) @ le_bytes 8 (hdr_version h) @
     le_bytes 8 (hdr_capacity h) @ le_bytes 8 (hdr_free_list_size h)"

definition header_of_bytes :: "byte list \<Rightarrow> disk_header" where
  "header_of_bytes bs =
     \<lparr>hdr_magic = le_word (seg bs 0 8), hdr_version = le_word (seg bs 8 8),
      hdr_capacity = le_word (seg bs 16 8), hdr_free_list_size = le_word (seg bs 24 8)\<rparr>"

definition page_id_bytes :: "page_id list \<Rightarrow> byte list" where
  "page_id_bytes ps = concat (map (le_bytes 4) ps)"

fun page_ids_of_bytes :: "nat \<Rightarrow> byte list \<Rightarrow> page_id list" where
  "page_ids_of_bytes 0 bs = []"
| "page_ids_of_bytes (Suc n) bs = le_word (take 4 bs) # page_ids_of_bytes n (drop 4 bs)"

section \<open>Operations\<close>

definition dm_read_page :: "page_id \<Rightarrow> byte list \<Rightarrow> (disk, byte list) op" where
  \<comment> \<open>returns the caller's buffer as the call leaves it\<close>
  "dm_read_page page_id buffer s =
     (if disk_capacity s \<le> page_id
      then (Inl (Runtime_Error ''DiskManager: trying to read not allocated page''), s)
      else if length buffer < kPAGE_SIZE
      then (Inl (Runtime_Error ''DiskManager: read buffer is smaller than page''), s)
      else let (bytes_read, bs) = pread (disk_file s) kPAGE_SIZE (unat page_id * kPAGE_SIZE) in
        if bytes_read < 0
        then (Inl (Runtime_Error ''DiskManager: incomplete read for page''), s)
        else (Inr (bs @ replicate (kPAGE_SIZE - nat bytes_read) 0 @ drop kPAGE_SIZE buffer), s))"

definition dm_write_page :: "page_id \<Rightarrow> byte list \<Rightarrow> (disk, unit) op" where
  "dm_write_page page_id buffer s =
     (if disk_capacity s \<le> page_id
      then (Inl (Runtime_Error ''DiskManager: trying to write into not allocated page''), s)
      else if length buffer < kPAGE_SIZE
      then (Inl (Runtime_Error ''DiskManager: write buffer is smaller than page''), s)
      else let (bytes_written, f) = pwrite (disk_file s) (take kPAGE_SIZE buffer) (unat page_id * kPAGE_SIZE);
               s' = s\<lparr>disk_file := f\<rparr> in
        if bytes_written \<noteq> int kPAGE_SIZE
        then (Inl (Runtime_Error ''DiskManager: incomplete write for page''), s')
        else (Inr (), s'))"

definition dm_allocate_page :: "(disk, page_id) op" where
  "dm_allocate_page s =
     (if free_list s \<noteq> []
      then (Inr (last (free_list s)), s\<lparr>free_list := butlast (free_list s)\<rparr>)
      else (Inr (disk_capacity s), s\<lparr>disk_capacity := disk_capacity s + 1\<rparr>))"

definition dm_deallocate_page :: "page_id \<Rightarrow> (disk, unit) op" where
  "dm_deallocate_page page_id s =
     (if page_id = kDISK_METADATA_PAGE_ID
      then (Inl (Runtime_Error ''DiskManager::deallocate_page: deallocating disk meta page is not allowed''), s)
      else if 1024 < length (free_list s) then (Inr (), s)
      else (Inr (), s\<lparr>free_list := free_list s @ [page_id]\<rparr>))"

definition dm_flush_all :: "(disk, unit) op" where
  \<comment> \<open>the results of both \<open>pwrite\<close> calls are ignored\<close>
  "dm_flush_all s =
     (let h = (disk_hdr s)\<lparr>hdr_capacity := ucast (disk_capacity s),
                           hdr_free_list_size := of_nat (length (free_list s))\<rparr>;
          f1 = snd (pwrite (disk_file s) (header_bytes h) 0);
          f2 = snd (pwrite f1 (page_id_bytes (free_list s)) sizeof_DiskHeader)
      in (Inr (), s\<lparr>disk_hdr := h, disk_file := f2\<rparr>))"

definition dm_init_header :: "(disk, unit) op" where
  "dm_init_header =
     bind_op (dm_read_page kDISK_METADATA_PAGE_ID (replicate kPAGE_SIZE 0)) (\<lambda>buffer.
     let h = header_of_bytes (seg buffer 0 sizeof_DiskHeader);
         n = unat (hdr_free_list_size h) in
     bind_op (modify_op (\<lambda>s. s\<lparr>disk_hdr := h, disk_capacity := ucast (hdr_capacity h)\<rparr>)) (\<lambda>_.
     bind_op (lift_op (subspan buffer sizeof_DiskHeader (n * sizeof_PageID))) (\<lambda>bs.
     modify_op (\<lambda>s. s\<lparr>free_list := page_ids_of_bytes n bs\<rparr>))))"

definition dm_initial :: "db_file \<Rightarrow> disk" where
  \<comment> \<open>the member initialisers\<close>
  "dm_initial f =
     \<lparr>disk_file = f,
      disk_hdr = \<lparr>hdr_magic = kDB_MAGIC, hdr_version = kDB_FORMAT_VERSION, hdr_capacity = 0,
                  hdr_free_list_size = 0\<rparr>,
      disk_capacity = 0, free_list = []\<rparr>"

definition dm_check_header :: "(disk, unit) op" where
  "dm_check_header s =
     (if hdr_magic (disk_hdr s) \<noteq> kDB_MAGIC
      then (Inl (Runtime_Error ''DiskManager::DiskManager: Database file is not recognized by DUCKDB.''), s)
      else if hdr_version (disk_hdr s) \<noteq> kDB_FORMAT_VERSION
      then (Inl (Runtime_Error ''DiskManager::DiskManager: Database file version not supported.''), s)
      else (Inr (), s))"

definition dm_open :: "db_file option \<Rightarrow> disk res" where
  \<comment> \<open>the constructor; \<open>None\<close> when \<open>open\<close> returns -1\<close>
  "dm_open fd =
     (case fd of
        None \<Rightarrow> Inl Invalid_Argument
      | Some f \<Rightarrow>
          (case bind_op
             (if whole_pages (get_size f) < 1
              then bind_op dm_allocate_page (\<lambda>_. dm_flush_all)
              else bind_op (modify_op (\<lambda>s. s\<lparr>disk_capacity := 1\<rparr>)) (\<lambda>_. dm_init_header))
             (\<lambda>_. dm_check_header) (dm_initial f) of
             (Inl e, _) \<Rightarrow> Inl e
           | (Inr _, s) \<Rightarrow> Inr s))"

definition dm_close :: "disk \<Rightarrow> db_file" where
  \<comment> \<open>the destructor: what the file holds once it is closed\<close>
  "dm_close s = disk_file (snd (dm_flush_all s))"

end
