(* ===== verification/Disk_Laws.thy ===== *)
theory Disk_Laws
  imports Disk_Manager
begin

text \<open>
  Laws of the disk manager. A disk stands for the content of its pages (\<open>disk_page\<close>, zero-filled
  where the file is shorter), its capacity and its free list. The locale \<open>page_device\<close> is the
  interface the buffer pool relies on; it is interpreted on the \<open>dm_\<close> operations for a file
  whose device neither fails nor fills up (\<open>disk_ok\<close>).
\<close>

section \<open>The pages of a file\<close>

definition page_of :: "byte list \<Rightarrow> nat \<Rightarrow> byte list" where
  "page_of c p = (let bs = take kPAGE_SIZE (drop (p * kPAGE_SIZE) c) in bs @ replicate (kPAGE_SIZE - length bs) 0)"

definition disk_page :: "disk \<Rightarrow> page_id \<Rightarrow> byte list" where
  "disk_page s p = page_of (contents (disk_file s)) (unat p)"

definition file_ok :: "db_file \<Rightarrow> bool" where
  "file_ok f \<longleftrightarrow> \<not> read_fails f \<and> \<not> stat_fails f \<and> 2 ^ 32 * kPAGE_SIZE \<le> size_limit f"

lemma whole_pages_less: "file_ok f \<Longrightarrow> whole_pages (get_size f) < 1 \<longleftrightarrow> length (contents f) < kPAGE_SIZE"
  by (simp add: whole_pages_def get_size_def file_ok_def kPAGE_SIZE_def div_eq_0_iff)

definition disk_ok :: "disk \<Rightarrow> bool" where
  "disk_ok s \<longleftrightarrow> file_ok (disk_file s)"

lemma length_page_of [simp]: "length (page_of c p) = kPAGE_SIZE"
  by (simp add: page_of_def Let_def)

lemma length_disk_page [simp]: "length (disk_page s p) = kPAGE_SIZE"
  by (simp add: disk_page_def)

lemma nth_page_of:
  "i < kPAGE_SIZE \<Longrightarrow>
    page_of c p ! i = (if p * kPAGE_SIZE + i < length c then c ! (p * kPAGE_SIZE + i) else 0)"
  by (auto simp: page_of_def Let_def nth_append)

definition extend :: "byte list \<Rightarrow> nat \<Rightarrow> byte list" where
  "extend c n = c @ replicate (n - length c) 0"

lemma length_extend: "n \<le> length (extend c n)" "length (extend c n) = max n (length c)"
  by (auto simp: extend_def)

lemma page_of_extend [simp]: "page_of (extend c n) p = page_of c p"
  by (rule nth_equalityI) (auto simp: nth_page_of extend_def nth_append)

lemma page_of_put:
  assumes "off + length bs \<le> length c"
    and "q * kPAGE_SIZE + kPAGE_SIZE \<le> off \<or> off + length bs \<le> q * kPAGE_SIZE"
  shows "page_of (put c off bs) q = page_of c q"
  by (rule nth_equalityI) (use assms in \<open>auto simp: nth_page_of nth_put\<close>)

lemma page_of_put_page:
  assumes "p * kPAGE_SIZE + kPAGE_SIZE \<le> length c" "length bs = kPAGE_SIZE"
  shows "page_of (put c (p * kPAGE_SIZE) bs) q = (if q = p then bs else page_of c q)"
proof (cases "q = p")
  case True
  then show ?thesis
    by (intro nth_equalityI) (use assms in \<open>auto simp: nth_page_of nth_put\<close>)
next
  case False
  then have "q * kPAGE_SIZE + kPAGE_SIZE \<le> p * kPAGE_SIZE \<or> p * kPAGE_SIZE + kPAGE_SIZE \<le> q * kPAGE_SIZE"
    by (metis add.commute linorder_neqE_nat mult_Suc mult_le_mono1 Suc_leI)
  with False assms show ?thesis by (simp add: page_of_put)
qed

lemma pwrite_in:
  assumes "off + length bs \<le> size_limit f"
  shows "pwrite f bs off = (int (length bs), f\<lparr>contents :=
    if bs = [] then contents f else put (extend (contents f) (off + length bs)) off bs\<rparr>)"
  using assms by (cases "bs = []") (auto simp: pwrite_def extend_def Let_def simp flip: length_greater_0_conv)

section \<open>Reading and writing\<close>

lemma read_page_eq:
  assumes "disk_ok s" "p < disk_capacity s" "kPAGE_SIZE \<le> length buf"
  shows "dm_read_page p buf s = (Inr (disk_page s p @ drop kPAGE_SIZE buf), s)"
  using assms
  by (simp add: dm_read_page_def pread_def disk_ok_def file_ok_def disk_page_def page_of_def Let_def
      not_le[symmetric] not_less)

lemma read_page_unallocated:
  "disk_capacity s \<le> p \<Longrightarrow> \<exists>m. dm_read_page p buf s = (Inl (Runtime_Error m), s)"
  by (simp add: dm_read_page_def)

lemma page_offset_bound: "unat (p :: page_id) * kPAGE_SIZE + kPAGE_SIZE \<le> 2 ^ 32 * kPAGE_SIZE"
proof -
  have "unat p < 2 ^ LENGTH(32)" by (rule unsigned_less)
  then show ?thesis by (simp add: kPAGE_SIZE_def)
qed

lemma write_page_eq:
  assumes "disk_ok s" "p < disk_capacity s" "length bs = kPAGE_SIZE"
  obtains s' where "dm_write_page p bs s = (Inr (), s')" "disk_page s' = (disk_page s)(p := bs)"
    "disk_capacity s' = disk_capacity s" "free_list s' = free_list s" "disk_hdr s' = disk_hdr s" "disk_ok s'"
    "unat p * kPAGE_SIZE + kPAGE_SIZE \<le> length (contents (disk_file s'))"
proof -
  let ?o = "unat p * kPAGE_SIZE"
  let ?c = "put (extend (contents (disk_file s)) (?o + kPAGE_SIZE)) ?o bs"
  let ?s = "s\<lparr>disk_file := (disk_file s)\<lparr>contents := ?c\<rparr>\<rparr>"
  have lim: "?o + length bs \<le> size_limit (disk_file s)"
    using assms(1,3) page_offset_bound[of p] unfolding disk_ok_def file_ok_def by linarith
  have ne: "bs \<noteq> []" using assms(3) by (auto simp: kPAGE_SIZE_def)
  have "dm_write_page p bs s = (Inr (), ?s)"
    using assms ne pwrite_in[OF lim] by (simp add: dm_write_page_def Let_def not_le[symmetric])
  moreover have "disk_page ?s = (disk_page s)(p := bs)"
    using page_of_put_page[of "unat p" "extend (contents (disk_file s)) (?o + kPAGE_SIZE)" bs] assms(3)
    by (auto simp: disk_page_def length_extend word_unat_eq_iff)
  moreover have "disk_ok ?s" using assms(1) by (simp add: disk_ok_def file_ok_def)
  moreover have "?o + kPAGE_SIZE \<le> length (contents (disk_file ?s))"
    using assms(3) by (simp add: length_extend)
  ultimately show ?thesis using that[of ?s] by simp
qed

lemma write_page_unallocated:
  "disk_capacity s \<le> p \<Longrightarrow> \<exists>m. dm_write_page p bs s = (Inl (Runtime_Error m), s)"
  by (simp add: dm_write_page_def)

section \<open>The interface of a page device\<close>

fun dev_write_all :: "(page_id \<Rightarrow> byte list \<Rightarrow> ('d, unit) op) \<Rightarrow> (page_id \<times> byte list) list \<Rightarrow> ('d, unit) op" where
  \<comment> \<open>a loop that writes pages one after the other and stops at the first exception\<close>
  "dev_write_all wr [] = ret_op ()"
| "dev_write_all wr (x # xs) = bind_op (wr (fst x) (snd x)) (\<lambda>_. dev_write_all wr xs)"

locale page_device =
  fixes ok :: "'d \<Rightarrow> bool"
    and cap :: "'d \<Rightarrow> page_id"
    and page :: "'d \<Rightarrow> page_id \<Rightarrow> byte list"
    and rd :: "page_id \<Rightarrow> byte list \<Rightarrow> ('d, byte list) op"
    and wr :: "page_id \<Rightarrow> byte list \<Rightarrow> ('d, unit) op"
  assumes rd_ok: "ok d \<Longrightarrow> p < cap d \<Longrightarrow> length buf = kPAGE_SIZE \<Longrightarrow> rd p buf d = (Inr (page d p), d)"
    and rd_bad: "cap d \<le> p \<Longrightarrow> \<exists>m. rd p buf d = (Inl (Runtime_Error m), d)"
    and wr_ok: "ok d \<Longrightarrow> p < cap d \<Longrightarrow> length bs = kPAGE_SIZE \<Longrightarrow>
      \<exists>d'. wr p bs d = (Inr (), d') \<and> ok d' \<and> cap d' = cap d \<and> page d' = (page d)(p := bs)"
begin

lemma read_after_write:
  assumes "ok d" "p < cap d" "q < cap d" "length bs = kPAGE_SIZE" "length buf = kPAGE_SIZE"
  shows "\<exists>d'. bind_op (wr p bs) (\<lambda>_. rd q buf) d = (Inr (if q = p then bs else page d q), d')"
proof -
  obtain d' where w: "wr p bs d = (Inr (), d')" "ok d'" "cap d' = cap d" "page d' = (page d)(p := bs)"
    using wr_ok[OF assms(1,2,4)] by blast
  with rd_ok[OF w(2), of q buf] assms(3,5) show ?thesis
    by (auto simp: op_simps)
qed

lemma write_all:
  "ok d \<Longrightarrow> (\<And>p bs. (p, bs) \<in> set xs \<Longrightarrow> p < cap d \<and> length bs = kPAGE_SIZE) \<Longrightarrow> distinct (map fst xs) \<Longrightarrow>
    \<exists>d'. dev_write_all wr xs d = (Inr (), d') \<and> ok d' \<and> cap d' = cap d \<and>
      (\<forall>q. page d' q = (case map_of xs q of None \<Rightarrow> page d q | Some bs \<Rightarrow> bs))"
proof (induction xs arbitrary: d)
  case Nil
  then show ?case by (simp add: op_simps)
next
  case (Cons x xs)
  obtain p bs where x: "x = (p, bs)" by (cases x)
  have "p < cap d" "length bs = kPAGE_SIZE" using Cons.prems(2)[of p bs] x by auto
  then obtain d1 where d1: "wr p bs d = (Inr (), d1)" "ok d1" "cap d1 = cap d" "page d1 = (page d)(p := bs)"
    using wr_ok[OF Cons.prems(1)] by blast
  have "\<exists>d'. dev_write_all wr xs d1 = (Inr (), d') \<and> ok d' \<and> cap d' = cap d1 \<and>
      (\<forall>q. page d' q = (case map_of xs q of None \<Rightarrow> page d1 q | Some bs \<Rightarrow> bs))"
    by (rule Cons.IH) (use d1 Cons.prems in auto)
  then obtain d2 where d2: "dev_write_all wr xs d1 = (Inr (), d2)" "ok d2" "cap d2 = cap d1"
    "\<forall>q. page d2 q = (case map_of xs q of None \<Rightarrow> page d1 q | Some bs \<Rightarrow> bs)" by blast
  have "map_of xs p = None" using Cons.prems(3) x by (simp add: map_of_eq_None_iff)
  then have "page d2 q = (case map_of (x # xs) q of None \<Rightarrow> page d q | Some bs \<Rightarrow> bs)" for q
    using d2(4) d1(4) x by (cases "q = p") (auto split: option.split)
  with d1 d2 x show ?case by (auto simp: op_simps)
qed

end

interpretation dm: page_device disk_ok disk_capacity disk_page dm_read_page dm_write_page
proof unfold_locales
  fix d p and buf :: "byte list"
  assume "disk_ok d" "p < disk_capacity d" "length buf = kPAGE_SIZE"
  then show "dm_read_page p buf d = (Inr (disk_page d p), d)" by (simp add: read_page_eq)
next
  fix d p and bs :: "byte list"
  assume "disk_ok d" "p < disk_capacity d" "length bs = kPAGE_SIZE"
  then show "\<exists>d'. dm_write_page p bs d = (Inr (), d') \<and> disk_ok d' \<and> disk_capacity d' = disk_capacity d \<and>
      disk_page d' = (disk_page d)(p := bs)"
    by (rule write_page_eq) blast
qed (rule read_page_unallocated)

section \<open>Allocation\<close>

definition disk_inv :: "disk \<Rightarrow> bool" where
  \<comment> \<open>the free list holds allocated-and-freed pages, once each, never the metadata page\<close>
  "disk_inv s \<longleftrightarrow> 0 < disk_capacity s \<and> distinct (free_list s) \<and> length (free_list s) \<le> 1025 \<and>
     (\<forall>p\<in>set (free_list s). 0 < p \<and> p < disk_capacity s)"

definition disk_in_use :: "disk \<Rightarrow> page_id set" where
  "disk_in_use s = {p. 0 < p \<and> p < disk_capacity s \<and> p \<notin> set (free_list s)}"

lemma allocate_from_free_list:
  assumes "disk_inv s" "free_list s \<noteq> []"
  obtains p s' where "dm_allocate_page s = (Inr p, s')" "p \<notin> disk_in_use s" "0 < p" "p < disk_capacity s'"
    "disk_in_use s' = insert p (disk_in_use s)" "disk_inv s'" "disk_file s' = disk_file s"
    "disk_capacity s \<le> disk_capacity s'" "disk_hdr s' = disk_hdr s"
proof -
  obtain l p where l: "free_list s = l @ [p]" using assms(2) by (metis rev_exhaust)
  show ?thesis
    by (rule that[of p "s\<lparr>free_list := l\<rparr>"])
      (use assms(1) l in \<open>auto simp: dm_allocate_page_def disk_in_use_def disk_inv_def\<close>)
qed

lemma INVALID_PAGE_ID_max: "INVALID_PAGE_ID = -1"
  by (simp add: INVALID_PAGE_ID_def)

lemma unat_Suc32:
  assumes "w < INVALID_PAGE_ID"
  shows "unat (w + 1) = Suc (unat w)"
proof -
  from assms have "1 + w \<noteq> 0" unfolding INVALID_PAGE_ID_max
    by (metis add_eq_0_iff add.inverse_inverse less_irrefl add.commute)
  then show ?thesis using unatSuc[of w] by (simp add: add.commute)
qed

lemma allocate_new_page:
  assumes "disk_inv s" "free_list s = []" "disk_capacity s < INVALID_PAGE_ID"
  obtains p s' where "dm_allocate_page s = (Inr p, s')" "p \<notin> disk_in_use s" "0 < p" "p < disk_capacity s'"
    "disk_in_use s' = insert p (disk_in_use s)" "disk_inv s'" "disk_file s' = disk_file s"
    "disk_capacity s \<le> disk_capacity s'" "disk_hdr s' = disk_hdr s"
proof -
  let ?c = "disk_capacity s"
  note suc = unat_Suc32[OF assms(3)]
  define n where "n = ?c + 1"
  have lt: "?c < n" by (simp add: n_def word_less_nat_alt suc)
  have le: "x < n \<longleftrightarrow> x < ?c \<or> x = ?c" for x
    unfolding n_def word_less_nat_alt suc word_unat_eq_iff by linarith
  have c0: "0 < ?c" using assms(1) by (simp add: disk_inv_def)
  have a: "dm_allocate_page s = (Inr ?c, s\<lparr>disk_capacity := n\<rparr>)"
    using assms(2) by (simp add: dm_allocate_page_def n_def)
  have "disk_in_use (s\<lparr>disk_capacity := n\<rparr>) = insert ?c (disk_in_use s)"
    using assms(2) c0 by (auto simp: disk_in_use_def le)
  moreover have "disk_inv (s\<lparr>disk_capacity := n\<rparr>)"
    using assms(2) c0 le[of 0] by (simp add: disk_inv_def)
  moreover have "?c \<notin> disk_in_use s" by (simp add: disk_in_use_def)
  ultimately show ?thesis
    using that[OF a] lt c0 by simp
qed


definition empty_file :: db_file where
  "empty_file = \<lparr>contents = [], size_limit = 2 ^ 46, read_fails = False, stat_fails = False\<rparr>"

definition full_free_list :: disk where
  "full_free_list = (dm_initial empty_file)\<lparr>disk_capacity := 2000, free_list := map of_nat [1..<1026]\<rparr>"

lemma full_free_list_sel: "free_list full_free_list = map of_nat [1..<1026]" "disk_capacity full_free_list = 2000"
proof -
  have "free_list ((dm_initial empty_file)\<lparr>disk_capacity := c, free_list := xs\<rparr>) = xs \<and>
      disk_capacity ((dm_initial empty_file)\<lparr>disk_capacity := c, free_list := xs\<rparr>) = c" for c xs
    by simp
  then show "free_list full_free_list = map of_nat [1..<1026]" "disk_capacity full_free_list = 2000"
    unfolding full_free_list_def by blast+
qed

lemma full_free_list: "disk_inv full_free_list" "length (free_list full_free_list) = 1025" "1500 \<in> disk_in_use full_free_list"
  "disk_capacity full_free_list = 2000"
proof -
  have u: "unat (of_nat n :: page_id) = n" if "n < 1026" for n
    using that by (simp add: unsigned_of_nat take_bit_nat_eq_self)
  have d: "distinct (free_list full_free_list)"
  proof -
    have "inj_on (of_nat :: nat \<Rightarrow> page_id) (set [1..<1026])"
      by (rule inj_on_inverseI[of _ unat]) (simp only: set_upt atLeastLessThan_iff u)
    then show ?thesis by (simp only: full_free_list_sel distinct_map distinct_upt simp_thms)
  qed
  have b: "1 \<le> unat p \<and> unat p < 1026" if "p \<in> set (free_list full_free_list)" for p
  proof -
    have "p \<in> of_nat ` set [1..<1026]" using that by (simp only: full_free_list_sel set_map)
    then obtain n where "p = of_nat n" "1 \<le> n" "n < 1026" by (auto simp only: set_upt atLeastLessThan_iff image_iff)
    then show ?thesis using u by simp
  qed
  show l: "length (free_list full_free_list) = 1025"
    by (simp only: full_free_list_sel length_map length_upt)
  show c: "disk_capacity full_free_list = 2000" by (rule full_free_list_sel)
  have "0 < p \<and> p < 2000" if "p \<in> set (free_list full_free_list)" for p
    using b[OF that] by (simp add: word_less_nat_alt)
  then show "disk_inv full_free_list" using d l c by (simp add: disk_inv_def)
  have "1500 \<notin> set (free_list full_free_list)" using b[of 1500] by auto
  then show "1500 \<in> disk_in_use full_free_list" using c by (simp add: disk_in_use_def)
qed


text \<open>
  Pages on disk. After a page is written it reads back as written, every other allocated page
  reads as before, and reading or writing a page that is not allocated throws and leaves the disk
  as it was.
\<close>

theorem disk_read_after_write:
  assumes "disk_ok s" "p < disk_capacity s" "q < disk_capacity s" "length bs = kPAGE_SIZE"
    "length buf = kPAGE_SIZE" "disk_capacity s \<le> u"
  shows "(\<exists>s'. bind_op (dm_write_page p bs) (\<lambda>_. dm_read_page q buf) s =
      (Inr (if q = p then bs else disk_page s q), s')) \<and>
    (\<exists>m. dm_write_page u bs s = (Inl (Runtime_Error m), s)) \<and>
    (\<exists>m. dm_read_page u buf s = (Inl (Runtime_Error m), s))"
  using dm.read_after_write[OF assms(1-5)] dm.rd_bad[OF assms(6)] write_page_unallocated[OF assms(6)] by blast

theorem disk_read_after_write_witness:
  "\<exists>s'. bind_op (dm_write_page 1 (replicate kPAGE_SIZE 7)) (\<lambda>_. dm_read_page 1 (replicate kPAGE_SIZE 0))
     ((dm_initial empty_file)\<lparr>disk_capacity := 2\<rparr>) = (Inr (replicate kPAGE_SIZE 7), s')"
  using disk_read_after_write[of "(dm_initial empty_file)\<lparr>disk_capacity := 2\<rparr>" 1 1
      "replicate kPAGE_SIZE 7" "replicate kPAGE_SIZE 0" 2]
  by (simp add: disk_ok_def file_ok_def dm_initial_def empty_file_def kPAGE_SIZE_def)

section \<open>Closing and opening\<close>

lemma length_header_bytes [simp]: "length (header_bytes h) = 32"
  by (simp add: header_bytes_def)

lemma header_round_trip [simp]: "header_of_bytes (header_bytes h) = h"
  by (simp add: header_of_bytes_def header_bytes_def seg_append_left seg_append_right seg_full)

lemma length_page_id_bytes [simp]: "length (page_id_bytes ps) = 4 * length ps"
  by (induction ps) (auto simp: page_id_bytes_def)

lemma page_ids_round_trip [simp]: "page_ids_of_bytes (length ps) (page_id_bytes ps) = ps"
  by (induction ps) (auto simp: page_id_bytes_def)

lemma seg_page_of:
  "off + n \<le> kPAGE_SIZE \<Longrightarrow> off + n \<le> length c \<Longrightarrow> seg (page_of c 0) off n = seg c off n"
  by (rule nth_equalityI) (auto simp: nth_seg nth_page_of)

lemma seg_extend: "off + n \<le> length c \<Longrightarrow> seg (extend c m) off n = seg c off n"
  by (simp add: extend_def seg_append_left)

definition flushed_header :: "disk \<Rightarrow> disk_header" where
  "flushed_header s =
     (disk_hdr s)\<lparr>hdr_capacity := ucast (disk_capacity s),
                  hdr_free_list_size := of_nat (length (free_list s))\<rparr>"

lemma flush_all_eq:
  assumes "disk_ok s" "length (free_list s) \<le> 2040"
  obtains c where "dm_flush_all s = (Inr (), s\<lparr>disk_hdr := flushed_header s, disk_file := (disk_file s)\<lparr>contents := c\<rparr>\<rparr>)"
    "seg c 0 32 = header_bytes (flushed_header s)" "seg c 32 (4 * length (free_list s)) = page_id_bytes (free_list s)"
    "32 + 4 * length (free_list s) \<le> length c" "length (contents (disk_file s)) \<le> length c"
    "\<And>p. 0 < p \<Longrightarrow> page_of c p = page_of (contents (disk_file s)) p"
proof -
  define f where "f = disk_file s"
  define l where "l = free_list s"
  define h where "h = header_bytes (flushed_header s)"
  define c1 where "c1 = put (extend (contents f) 32) 0 h"
  define c2 where "c2 = (if l = [] then c1 else put (extend c1 (32 + 4 * length l)) 32 (page_id_bytes l))"
  have lh: "length h = 32" by (simp add: h_def)
  have hn: "h \<noteq> []" using lh by auto
  have ll: "length l \<le> 2040" using assms(2) by (simp add: l_def)
  have lim: "2 ^ 32 * kPAGE_SIZE \<le> size_limit f" using assms(1) by (simp add: disk_ok_def file_ok_def f_def)
  then have lim1: "0 + length h \<le> size_limit f" and lim2: "32 + length (page_id_bytes l) \<le> size_limit (f\<lparr>contents := c1\<rparr>)"
    using lh ll by (auto simp: kPAGE_SIZE_def)
  have w1: "snd (pwrite f h 0) = f\<lparr>contents := c1\<rparr>"
    using pwrite_in[OF lim1] lh hn by (simp add: c1_def)
  have pe: "page_id_bytes l = [] \<longleftrightarrow> l = []" by (simp flip: length_0_conv)
  have w2: "snd (pwrite (f\<lparr>contents := c1\<rparr>) (page_id_bytes l) 32) = f\<lparr>contents := c2\<rparr>"
    using pwrite_in[OF lim2] pe by (simp add: c2_def)
  have eq: "dm_flush_all s = (Inr (), s\<lparr>disk_hdr := flushed_header s, disk_file := (disk_file s)\<lparr>contents := c2\<rparr>\<rparr>)"
    using w1 w2 by (simp add: dm_flush_all_def Let_def flushed_header_def h_def sizeof_DiskHeader_def l_def f_def)
  have l1: "length c1 = max 32 (length (contents f))"
    using lh length_extend by (simp add: c1_def)
  have l2: "length c2 = max (32 + 4 * length l) (length c1)"
    using length_extend l1 by (simp add: c2_def)
  have s1: "seg c1 0 32 = h"
    using lh length_extend by (simp add: c1_def seg_put_same)
  have s2: "seg c2 0 32 = h"
    using s1 l1 length_extend by (simp add: c2_def seg_put_other seg_extend)
  have s3: "seg c2 32 (4 * length l) = page_id_bytes l"
    using length_extend by (cases "l = []") (simp_all add: c2_def seg_put_same, simp add: page_id_bytes_def)
  have p1: "page_of c1 p = page_of (contents f) p" if "0 < p" for p
    using that lh length_extend by (simp add: c1_def page_of_put kPAGE_SIZE_def)
  have p2: "page_of c2 p = page_of c1 p" if "0 < p" for p
    using that ll length_extend by (simp add: c2_def page_of_put kPAGE_SIZE_def)
  show ?thesis
    by (rule that[of c2]) (use eq l1 l2 s2 s3 p1 p2 in \<open>simp_all add: h_def f_def l_def\<close>)
qed

lemma flush_longer: "disk_ok s \<Longrightarrow> length (free_list s) \<le> 2040 \<Longrightarrow> length (contents (disk_file s)) \<le> length (contents (dm_close s))"
  by (rule flush_all_eq[of s]) (simp_all add: dm_close_def)

lemma reopen_file:
  assumes "disk_ok s" "length (free_list s) \<le> 2040" "hdr_magic (disk_hdr s) = kDB_MAGIC" "hdr_version (disk_hdr s) = kDB_FORMAT_VERSION"
    "kPAGE_SIZE \<le> length (contents (dm_close s))"
  shows "\<exists>s'. dm_open (Some (dm_close s)) = Inr s' \<and> disk_capacity s' = disk_capacity s \<and>
    free_list s' = free_list s \<and> (\<forall>p. p \<noteq> 0 \<longrightarrow> disk_page s' p = disk_page s p) \<and> disk_ok s' \<and>
    hdr_magic (disk_hdr s') = kDB_MAGIC \<and> hdr_version (disk_hdr s') = kDB_FORMAT_VERSION"
proof -
  note ll = assms(2)
  obtain c where c: "dm_flush_all s = (Inr (), s\<lparr>disk_hdr := flushed_header s, disk_file := (disk_file s)\<lparr>contents := c\<rparr>\<rparr>)"
    "seg c 0 32 = header_bytes (flushed_header s)" "seg c 32 (4 * length (free_list s)) = page_id_bytes (free_list s)"
    "32 + 4 * length (free_list s) \<le> length c" "length (contents (disk_file s)) \<le> length c"
    "\<And>p. 0 < p \<Longrightarrow> page_of c p = page_of (contents (disk_file s)) p"
    by (rule flush_all_eq[OF assms(1) ll], rule that)
  define f where "f = (disk_file s)\<lparr>contents := c\<rparr>"
  have close: "dm_close s = f" by (simp add: dm_close_def c(1) f_def)
  have fok: "file_ok f" using assms(1) by (simp add: disk_ok_def file_ok_def f_def)
  have size: "\<not> whole_pages (get_size f) < 1" using assms(5) by (simp only: close whole_pages_less[OF fok] not_less)
  define s1 where "s1 = (dm_initial f)\<lparr>disk_capacity := 1\<rparr>"
  define n where "n = length (free_list s)"
  define buf where "buf = page_of c 0"
  have rd: "dm_read_page kDISK_METADATA_PAGE_ID (replicate kPAGE_SIZE 0) s1 = (Inr buf, s1)"
    using read_page_eq[of s1 kDISK_METADATA_PAGE_ID "replicate kPAGE_SIZE 0"] fok
    by (simp add: s1_def dm_initial_def disk_ok_def kDISK_METADATA_PAGE_ID_def buf_def disk_page_def f_def)
  have hdr: "header_of_bytes (seg buf 0 32) = flushed_header s"
    using c(2,4) by (simp add: buf_def seg_page_of kPAGE_SIZE_def)
  have cnt: "unat (hdr_free_list_size (flushed_header s)) = n"
    using ll by (simp add: flushed_header_def n_def unsigned_of_nat take_bit_nat_eq_self)
  have fl: "seg buf 32 (n * 4) = page_id_bytes (free_list s)"
    using c(3,4) ll by (simp add: buf_def seg_page_of kPAGE_SIZE_def n_def mult.commute)
  have in_buf: "32 + n * 4 \<le> length buf" using ll by (simp add: buf_def kPAGE_SIZE_def n_def)
  define s2 where "s2 = s1\<lparr>disk_hdr := flushed_header s, disk_capacity := disk_capacity s, free_list := free_list s\<rparr>"
  have uc: "ucast (hdr_capacity (flushed_header s)) = disk_capacity s"
    unfolding flushed_header_def by simp (rule bit_word_eqI, auto simp: bit_simps dest: bit_imp_le_length)
  have init: "dm_init_header s1 = (Inr (), s2)"
    unfolding dm_init_header_def
    by (subst bind_op_Inr, rule rd)
      (use fl in_buf page_ids_round_trip[of "free_list s"] in \<open>simp add: op_simps Let_def sizeof_DiskHeader_def
        sizeof_PageID_def hdr cnt uc s2_def bind_op_def flip: n_def\<close>)
  have "dm_check_header s2 = (Inr (), s2)"
    using assms(3,4) by (simp add: dm_check_header_def s2_def flushed_header_def)
  then have "dm_open (Some (dm_close s)) = Inr s2"
    using size init by (simp add: dm_open_def close bind_op_def modify_op_def s1_def)
  moreover have "disk_page s2 p = disk_page s p" if "p \<noteq> 0" for p
    using that c(6)[of "unat p"] by (simp add: disk_page_def s2_def s1_def dm_initial_def f_def unat_gt_0)
  ultimately show ?thesis
    using fok assms(3,4) by (auto simp: s2_def s1_def dm_initial_def disk_ok_def flushed_header_def)
qed

lemma reopen_spec:
  assumes "disk_ok s" "disk_inv s" "hdr_magic (disk_hdr s) = kDB_MAGIC" "hdr_version (disk_hdr s) = kDB_FORMAT_VERSION"
    "kPAGE_SIZE \<le> length (contents (disk_file s))"
  shows "\<exists>s'. dm_open (Some (dm_close s)) = Inr s' \<and> disk_capacity s' = disk_capacity s \<and>
    free_list s' = free_list s \<and> (\<forall>p. p \<noteq> 0 \<longrightarrow> disk_page s' p = disk_page s p) \<and> disk_ok s' \<and> disk_inv s'"
proof -
  have "length (free_list s) \<le> 2040" using assms(2) by (simp add: disk_inv_def)
  moreover have "kPAGE_SIZE \<le> length (contents (dm_close s))"
    using flush_longer[OF assms(1) calculation] assms(5) by linarith
  ultimately show ?thesis using reopen_file[OF assms(1) _ assms(3,4)] assms(2) by (auto simp: disk_inv_def)
qed

text \<open>
  C24: restart. Closing the disk manager and opening the file again gives back the capacity, the free
  list and every page but the metadata page, once the file is at least one page long.
\<close>

theorem close_open_round_trip:
  assumes "disk_ok s" "disk_inv s" "hdr_magic (disk_hdr s) = kDB_MAGIC" "hdr_version (disk_hdr s) = kDB_FORMAT_VERSION"
    "kPAGE_SIZE \<le> length (contents (disk_file s))"
  shows "\<exists>s'. dm_open (Some (dm_close s)) = Inr s' \<and> disk_capacity s' = disk_capacity s \<and>
    free_list s' = free_list s \<and> (\<forall>p. p \<noteq> 0 \<longrightarrow> disk_page s' p = disk_page s p) \<and> disk_ok s' \<and> disk_inv s'"
  by (rule reopen_spec[OF assms])

theorem close_open_round_trip_witness:
  "\<exists>s s'. disk_capacity s = 3 \<and> free_list s = [2] \<and> dm_open (Some (dm_close s)) = Inr s' \<and>
     disk_capacity s' = 3 \<and> free_list s' = [2]"
proof -
  define s where "s = (dm_initial empty_file)
    \<lparr>disk_file := empty_file\<lparr>contents := replicate 16384 0\<rparr>, disk_capacity := 3, free_list := [2]\<rparr>"
  have "disk_ok s" "disk_inv s" "hdr_magic (disk_hdr s) = kDB_MAGIC" "hdr_version (disk_hdr s) = kDB_FORMAT_VERSION"
    "kPAGE_SIZE \<le> length (contents (disk_file s))"
    by (simp_all add: s_def disk_ok_def disk_inv_def file_ok_def dm_initial_def empty_file_def kPAGE_SIZE_def)
  moreover have "disk_capacity s = 3" "free_list s = [2]" by (simp_all add: s_def)
  ultimately show ?thesis using close_open_round_trip[of s] by metis
qed

section \<open>Where opening a file departs from its intention\<close>

lemma dm_open_large:
  assumes "kPAGE_SIZE \<le> length (contents f)" "file_ok f"
  defines "h \<equiv> header_of_bytes (seg (contents f) 0 32)"
  assumes "kPAGE_SIZE < 32 + 4 * unat (hdr_free_list_size h)"
  shows "dm_open (Some f) = Inl Undefined_Behaviour"
proof -
  define s1 where "s1 = (dm_initial f)\<lparr>disk_capacity := 1\<rparr>"
  define buf where "buf = page_of (contents f) 0"
  have size: "\<not> whole_pages (get_size f) < 1" using assms(1) by (simp only: whole_pages_less[OF assms(2)] not_less)
  have rd: "dm_read_page kDISK_METADATA_PAGE_ID (replicate kPAGE_SIZE 0) s1 = (Inr buf, s1)"
    using read_page_eq[of s1 kDISK_METADATA_PAGE_ID "replicate kPAGE_SIZE 0"] assms(2)
    by (simp add: s1_def dm_initial_def disk_ok_def kDISK_METADATA_PAGE_ID_def buf_def disk_page_def)
  have hdr: "header_of_bytes (seg buf 0 32) = h"
    using assms(1) by (simp add: buf_def seg_page_of kPAGE_SIZE_def h_def)
  have "length buf = kPAGE_SIZE" by (simp add: buf_def)
  then have sub: "subspan buf 32 (unat (hdr_free_list_size h) * 4) = Inl Undefined_Behaviour"
    using assms(4) by (simp add: subspan_def)
  have "fst (dm_init_header s1) = Inl Undefined_Behaviour"
    unfolding dm_init_header_def
    by (subst bind_op_Inr, rule rd)
      (simp add: op_simps Let_def sizeof_DiskHeader_def sizeof_PageID_def hdr sub bind_op_def)
  then show ?thesis
    using size by (cases "dm_init_header s1") (simp add: dm_open_def bind_op_def modify_op_def s1_def)
qed

text \<open>
  A file shorter than a page is taken for a new database whatever it holds: its first 32 bytes are
  overwritten, and the capacity and free list an earlier session flushed into it are lost.
\<close>

lemma dm_open_short_file_overwrites:
  assumes "length (contents f) < kPAGE_SIZE" "file_ok f"
  shows "\<exists>s. dm_open (Some f) = Inr s \<and> disk_capacity s = 1 \<and> free_list s = [] \<and>
    seg (contents (disk_file s)) 0 8 = le_bytes 8 kDB_MAGIC"
proof -
  define s1 where "s1 = (dm_initial f)\<lparr>disk_capacity := 1\<rparr>"
  have size: "whole_pages (get_size f) < 1" using assms(1) by (simp only: whole_pages_less[OF assms(2)])
  have al: "dm_allocate_page (dm_initial f) = (Inr 0, s1)"
    by (simp add: dm_allocate_page_def dm_initial_def s1_def)
  have ok1: "disk_ok s1" "length (free_list s1) \<le> 2040"
    using assms(2) by (simp_all add: s1_def dm_initial_def disk_ok_def)
  obtain c where c: "dm_flush_all s1 = (Inr (), s1\<lparr>disk_hdr := flushed_header s1, disk_file := (disk_file s1)\<lparr>contents := c\<rparr>\<rparr>)"
    "seg c 0 32 = header_bytes (flushed_header s1)" "seg c 32 (4 * length (free_list s1)) = page_id_bytes (free_list s1)"
    "32 + 4 * length (free_list s1) \<le> length c" "length (contents (disk_file s1)) \<le> length c"
    "\<And>p. 0 < p \<Longrightarrow> page_of c p = page_of (contents (disk_file s1)) p"
    by (rule flush_all_eq[OF ok1], rule that)
  define s2 where "s2 = s1\<lparr>disk_hdr := flushed_header s1, disk_file := (disk_file s1)\<lparr>contents := c\<rparr>\<rparr>"
  have chk: "dm_check_header s2 = (Inr (), s2)"
    by (simp add: dm_check_header_def s2_def s1_def flushed_header_def dm_initial_def)
  have "seg c 0 8 = seg (seg c 0 32) 0 8" by (simp add: seg_seg)
  also have "\<dots> = le_bytes 8 kDB_MAGIC"
    by (simp add: c(2) header_bytes_def seg_append_left seg_full flushed_header_def s1_def dm_initial_def)
  finally have magic: "seg c 0 8 = le_bytes 8 kDB_MAGIC" .
  have "dm_open (Some f) = Inr s2"
    using size al c(1) chk by (simp add: dm_open_def bind_op_def s2_def)
  with magic show ?thesis by (simp add: s2_def s1_def dm_initial_def)
qed

text \<open>A page given back twice is handed out twice\<close>

lemma deallocate_twice:
  assumes "p \<noteq> kDISK_METADATA_PAGE_ID" "length (free_list s) < 1024"
  shows "\<exists>s'. bind_op (dm_deallocate_page p) (\<lambda>_. bind_op (dm_deallocate_page p) (\<lambda>_.
      bind_op dm_allocate_page (\<lambda>a. bind_op dm_allocate_page (\<lambda>b. ret_op (a, b))))) s = (Inr (p, p), s')"
  using assms by (simp add: bind_op_def dm_deallocate_page_def dm_allocate_page_def ret_op_def butlast_append)

end
