(* ===== verification/Buffer_Pool.thy ===== *)
theory Buffer_Pool
  imports Disk_Manager
begin

text \<open>
  The buffer pool: \<open>Page\<close> (\<open>src/buffer/page.cpp\<close>), the LRU \<open>BufferReplacer\<close>
  (\<open>src/buffer/replacer.cpp\<close>) and \<open>BufferPoolManager\<close>
  (\<open>src/buffer/pool_manager.cpp\<close>), with the disk manager it owns a reference to.

  A \<open>Page*\<close> is the identifier of its frame, \<open>nullptr\<close> is \<open>None\<close>. The list of the
  replacer holds nodes: a node address stands for the list iterator that \<open>positions_\<close> keeps. An
  operation runs under the latch of the pool; what it did before an exception stays done.
\<close>

section \<open>Pages in memory\<close>

record page =
  p_page_id :: page_id
  p_data :: "byte list"
  p_pin_count :: u32
  p_is_dirty :: bool

definition page_default :: page where
  "page_default = \<lparr>p_page_id = INVALID_PAGE_ID, p_data = replicate kPAGE_SIZE 0, p_pin_count = 0, p_is_dirty = False\<rparr>"

definition page_reset_memory :: "page_id \<Rightarrow> page \<Rightarrow> page" where
  "page_reset_memory p pg =
     pg\<lparr>p_data := replicate kPAGE_SIZE 0, p_page_id := p, p_is_dirty := False, p_pin_count := 0\<rparr>"

definition page_inc_pin_count :: "page \<Rightarrow> page" where
  "page_inc_pin_count pg = pg\<lparr>p_pin_count := p_pin_count pg + 1\<rparr>"

definition page_dec_pin_count :: "page \<Rightarrow> page" where
  "page_dec_pin_count pg = pg\<lparr>p_pin_count := p_pin_count pg - 1\<rparr>"

definition page_set_dirty :: "bool \<Rightarrow> page \<Rightarrow> page" where
  "page_set_dirty b pg = pg\<lparr>p_is_dirty := b\<rparr>"

section \<open>The replacer\<close>

record replacer =
  mru_pages :: "(nat \<times> page_id) list"
  positions :: "page_id \<Rightarrow> nat option"
  next_node :: nat

definition rp_initial :: replacer where
  "rp_initial = \<lparr>mru_pages = [], positions = Map.empty, next_node = 0\<rparr>"

definition rp_remove :: "page_id \<Rightarrow> replacer \<Rightarrow> replacer" where
  "rp_remove p r =
     (case positions r p of
        Some node \<Rightarrow> r\<lparr>mru_pages := filter (\<lambda>x. fst x \<noteq> node) (mru_pages r),
                        positions := (positions r)(p := None)\<rparr>
      | None \<Rightarrow> r)"

definition rp_record :: "page_id \<Rightarrow> replacer \<Rightarrow> replacer" where
  "rp_record p r =
     (let r1 = rp_remove p r; node = next_node r1 in
        r1\<lparr>mru_pages := mru_pages r1 @ [(node, p)], next_node := Suc node,
           positions := (positions r1)(p \<mapsto> node)\<rparr>)"

fun rp_find_from :: "page list \<Rightarrow> (page_id \<Rightarrow> frame_id option) \<Rightarrow> (nat \<times> page_id) list \<Rightarrow> page_id res" where
  \<comment> \<open>the loop of \<open>find_lru\<close>\<close>
  "rp_find_from frames page_table [] = Inr INVALID_PAGE_ID"
| "rp_find_from frames page_table (x # xs) =
     (case page_table (snd x) of
        None \<Rightarrow> rp_find_from frames page_table xs
      | Some frame_id \<Rightarrow>
          if length frames \<le> unat frame_id then Inl Undefined_Behaviour
          else if p_pin_count (frames ! unat frame_id) = 0 then Inr (snd x)
          else rp_find_from frames page_table xs)"

definition rp_find_lru :: "page list \<Rightarrow> (page_id \<Rightarrow> frame_id option) \<Rightarrow> replacer \<Rightarrow> page_id res" where
  "rp_find_lru frames page_table r = rp_find_from frames page_table (mru_pages r)"

section \<open>The pool\<close>

record pool =
  pool_disk :: disk
  pool_capacity :: nat
  pool_size :: nat
  frames :: "page list"
  page_table :: "page_id \<Rightarrow> frame_id option"
  free_frames_list :: "frame_id list"
  pool_replacer :: replacer

definition bpm_initial :: "disk \<Rightarrow> nat \<Rightarrow> pool" where
  \<comment> \<open>the constructor\<close>
  "bpm_initial d capacity =
     \<lparr>pool_disk = d, pool_capacity = capacity, pool_size = 0, frames = replicate capacity page_default,
      page_table = Map.empty, free_frames_list = [], pool_replacer = rp_initial\<rparr>"

definition on_disk :: "(disk, 'a) op \<Rightarrow> (pool, 'a) op" where
  \<comment> \<open>a call on \<open>pool_disk\<close>\<close>
  "on_disk m s = (let (r, d) = m (pool_disk s) in (r, s\<lparr>pool_disk := d\<rparr>))"

definition frame_op :: "frame_id \<Rightarrow> (pool, page) op" where
  \<comment> \<open>\<open>frames_[f]\<close>: past the end of the array it is undefined\<close>
  "frame_op f s =
     (if unat f < length (frames s) then (Inr (frames s ! unat f), s) else (Inl Undefined_Behaviour, s))"

definition put_frame :: "frame_id \<Rightarrow> page \<Rightarrow> pool \<Rightarrow> pool" where
  "put_frame f pg s = s\<lparr>frames := (frames s)[unat f := pg]\<rparr>"

definition bpm_flush_page :: "page \<Rightarrow> (pool, unit) op" where
  "bpm_flush_page pg = on_disk (dm_write_page (p_page_id pg) (p_data pg))"

definition bpm_find_cached_page :: "page_id \<Rightarrow> (pool, frame_id option) op" where
  "bpm_find_cached_page p s =
     (case page_table s p of
        None \<Rightarrow> (Inr None, s)
      | Some f \<Rightarrow>
          bind_op (frame_op f) (\<lambda>pg.
          bind_op (modify_op (put_frame f (page_inc_pin_count pg))) (\<lambda>_.
          bind_op (modify_op (\<lambda>s. s\<lparr>pool_replacer := rp_record p (pool_replacer s)\<rparr>)) (\<lambda>_.
          ret_op (Some f)))) s)"

definition bpm_find_next_frame :: "(pool, frame_id) op" where
  "bpm_find_next_frame s =
     (if free_frames_list s \<noteq> []
      then (Inr (last (free_frames_list s)), s\<lparr>free_frames_list := butlast (free_frames_list s)\<rparr>)
      else if pool_size s < pool_capacity s
      then (Inr (of_nat (pool_size s)), s\<lparr>pool_size := Suc (pool_size s)\<rparr>)
      else (case rp_find_lru (frames s) (page_table s) (pool_replacer s) of
          Inl e \<Rightarrow> (Inl e, s)
        | Inr p \<Rightarrow>
            if p \<noteq> INVALID_PAGE_ID
            then (case page_table s p of
                Some f \<Rightarrow> (Inr f, s)
              | None \<Rightarrow> (Inr 0, s\<lparr>page_table := (page_table s)(p \<mapsto> 0)\<rparr>))
            else (Inr INVALID_FRAME_ID, s)))"

definition bpm_swap_page :: "page_id \<Rightarrow> bool \<Rightarrow> (pool, frame_id option) op" where
  "bpm_swap_page p read_from_disk =
     bind_op bpm_find_next_frame (\<lambda>f.
       if f = INVALID_FRAME_ID then ret_op None
       else
         bind_op (frame_op f) (\<lambda>pg.
         bind_op (modify_op (\<lambda>s.
           if p_page_id pg \<noteq> INVALID_PAGE_ID
           then s\<lparr>page_table := (page_table s)(p_page_id pg := None),
                  pool_replacer := rp_remove (p_page_id pg) (pool_replacer s)\<rparr>
           else s)) (\<lambda>_.
         bind_op (if p_is_dirty pg then bpm_flush_page pg else ret_op ()) (\<lambda>_.
         bind_op (modify_op (\<lambda>s. s\<lparr>page_table := (page_table s)(p \<mapsto> f)\<rparr>)) (\<lambda>_.
         bind_op (modify_op (put_frame f (page_inc_pin_count (page_reset_memory p pg)))) (\<lambda>_.
         bind_op (modify_op (\<lambda>s. s\<lparr>pool_replacer := rp_record p (pool_replacer s)\<rparr>)) (\<lambda>_.
         bind_op
           (if read_from_disk
            then bind_op (frame_op f) (\<lambda>pg.
                 bind_op (on_disk (dm_read_page p (p_data pg))) (\<lambda>bs.
                 modify_op (put_frame f (pg\<lparr>p_data := bs\<rparr>))))
            else ret_op ()) (\<lambda>_.
         ret_op (Some f)))))))))"

definition bpm_new_page :: "(pool, frame_id option) op" where
  "bpm_new_page = bind_op (on_disk dm_allocate_page) (\<lambda>p. bpm_swap_page p False)"

definition bpm_fetch_page :: "page_id \<Rightarrow> (pool, frame_id option) op" where
  "bpm_fetch_page p =
     bind_op (bpm_find_cached_page p) (\<lambda>page.
       if page \<noteq> None then ret_op page else bpm_swap_page p True)"

definition bpm_delete_page :: "page_id \<Rightarrow> (pool, bool) op" where
  "bpm_delete_page p s =
     (case page_table s p of
        None \<Rightarrow> bind_op (on_disk (dm_deallocate_page p)) (\<lambda>_. ret_op True) s
      | Some f \<Rightarrow>
          bind_op (frame_op f) (\<lambda>pg.
            if 0 < p_pin_count pg then ret_op False
            else
              bind_op (modify_op (\<lambda>s. s\<lparr>page_table := (page_table s)(p := None),
                                        pool_replacer := rp_remove p (pool_replacer s)\<rparr>)) (\<lambda>_.
              bind_op (modify_op (put_frame f (page_reset_memory INVALID_PAGE_ID pg))) (\<lambda>_.
              bind_op (modify_op (\<lambda>s. s\<lparr>free_frames_list := free_frames_list s @ [f]\<rparr>)) (\<lambda>_.
              bind_op (on_disk (dm_deallocate_page p)) (\<lambda>_. ret_op True))))) s)"

definition bpm_unpin_page :: "page_id \<Rightarrow> bool \<Rightarrow> (pool, unit) op" where
  "bpm_unpin_page p dirty s =
     (case page_table s p of
        None \<Rightarrow> (Inr (), s)
      | Some f \<Rightarrow>
          bind_op (frame_op f) (\<lambda>pg.
          modify_op (put_frame f (page_dec_pin_count (if dirty then page_set_dirty True pg else pg)))) s)"

fun bpm_flush_from :: "nat \<Rightarrow> nat \<Rightarrow> (pool, unit) op" where
  \<comment> \<open>the loop of \<open>flush_all\<close> at frame \<open>i\<close> with \<open>n\<close> frames left\<close>
  "bpm_flush_from i 0 = ret_op ()"
| "bpm_flush_from i (Suc n) =
     bind_op (frame_op (of_nat i)) (\<lambda>pg.
     bind_op (if p_is_dirty pg then bpm_flush_page pg else ret_op ()) (\<lambda>_.
     bpm_flush_from (Suc i) n))"

definition bpm_flush_all :: "(pool, unit) op" where
  "bpm_flush_all = bind_op (get_op pool_size) (\<lambda>n. bpm_flush_from 0 n)"

definition bpm_close :: "(pool, unit) op" where
  \<comment> \<open>the destructor\<close>
  "bpm_close = noexcept_op bpm_flush_all"

section \<open>Pinned pages\<close>

definition pinned_page_id :: "frame_id option \<Rightarrow> (pool, page_id) op" where
  "pinned_page_id page =
     (case page of None \<Rightarrow> ret_op INVALID_PAGE_ID | Some f \<Rightarrow> bind_op (frame_op f) (\<lambda>pg. ret_op (p_page_id pg)))"

definition pinned_data :: "frame_id option \<Rightarrow> (pool, byte list) op" where
  "pinned_data page =
     (case page of None \<Rightarrow> ret_op [] | Some f \<Rightarrow> bind_op (frame_op f) (\<lambda>pg. ret_op (p_data pg)))"

definition pinned_destroy :: "frame_id option \<Rightarrow> bool \<Rightarrow> (pool, unit) op" where
  \<comment> \<open>the destructor of \<open>PinnedPage\<close>\<close>
  "pinned_destroy page dirty =
     (case page of
        None \<Rightarrow> ret_op ()
      | Some f \<Rightarrow> bind_op (frame_op f) (\<lambda>pg. bpm_unpin_page (p_page_id pg) dirty))"

definition write_data :: "frame_id \<Rightarrow> byte list \<Rightarrow> (pool, unit) op" where
  \<comment> \<open>a write through the span of a page\<close>
  "write_data f bs = bind_op (frame_op f) (\<lambda>pg. modify_op (put_frame f (pg\<lparr>p_data := bs\<rparr>)))"

definition with_pinned :: "frame_id \<Rightarrow> (pool, 'a \<times> bool) op \<Rightarrow> (pool, 'a) op" where
  \<comment> \<open>a scope with a \<open>PinnedPage\<close> of frame \<open>f\<close>: the flag is its \<open>dirty_\<close> when the scope is left;
    an exception leaves it before \<open>mark_dirty\<close>\<close>
  "with_pinned f body s =
     (case body s of
        (Inr (x, dirty), s1) \<Rightarrow> bind_op (pinned_destroy (Some f) dirty) (\<lambda>_. ret_op x) s1
      | (Inl e, s1) \<Rightarrow> bind_op (pinned_destroy (Some f) False) (\<lambda>_. throw_op e) s1)"

definition page_read :: "frame_id \<Rightarrow> (byte list \<Rightarrow> 'a res) \<Rightarrow> (pool, 'a) op" where
  \<comment> \<open>a read of the span of a page\<close>
  "page_read f g = bind_op (pinned_data (Some f)) (\<lambda>d. lift_op (g d))"

definition page_update :: "frame_id \<Rightarrow> (byte list \<Rightarrow> ('a \<times> byte list) res) \<Rightarrow> (pool, 'a) op" where
  \<comment> \<open>an operation that may write the span of a page\<close>
  "page_update f g =
     bind_op (pinned_data (Some f)) (\<lambda>d.
     bind_op (lift_op (g d)) (\<lambda>(x, d').
     bind_op (write_data f d') (\<lambda>_. ret_op x)))"

end
