(* ===== verification/Buffer_Laws.thy ===== *)
theory Buffer_Laws
  imports Buffer_Pool Disk_Laws
begin

text \<open>
  Laws of the buffer pool. The replacer stands for the list of its pages, least recently used
  first; the locale \<open>replacement_policy\<close> is its contract. The pool stands for the contents of all
  pages (\<open>pool_page\<close>: the frame of a cached page, the disk otherwise) and the pin counts; its
  operations change neither except where they say so. The contents are compared up to a view
  \<open>v\<close>, because a page may be rewritten in memory without being marked dirty as long as what it
  stands for stays the same.
\<close>

section \<open>The replacer keeps the pages in the order of their last use\<close>

definition rp_inv :: "replacer \<Rightarrow> bool" where
  "rp_inv r \<longleftrightarrow> distinct (map fst (mru_pages r)) \<and> distinct (map snd (mru_pages r)) \<and>
     (\<forall>p n. positions r p = Some n \<longleftrightarrow> (n, p) \<in> set (mru_pages r)) \<and>
     (\<forall>x\<in>set (mru_pages r). fst x < next_node r)"

definition rp_order :: "replacer \<Rightarrow> page_id list" where
  "rp_order r = map snd (mru_pages r)"

lemma rp_initial_inv: "rp_inv rp_initial" "rp_order rp_initial = []"
  by (simp_all add: rp_initial_def rp_inv_def rp_order_def)

lemma rp_order_distinct: "rp_inv r \<Longrightarrow> distinct (rp_order r)"
  by (simp add: rp_inv_def rp_order_def)

lemma rp_positions: "rp_inv r \<Longrightarrow> positions r p = None \<longleftrightarrow> p \<notin> set (rp_order r)"
  unfolding rp_inv_def rp_order_def by (metis (no_types, lifting) image_iff list.set_map not_Some_eq prod.collapse snd_conv)

lemma filter_node_page:
  assumes "distinct (map fst xs)" "distinct (map snd xs)" "(n, p) \<in> set xs"
  shows "filter (\<lambda>x. fst x \<noteq> n) xs = filter (\<lambda>x. snd x \<noteq> p) xs"
proof (rule filter_cong[OF refl])
  fix x
  assume "x \<in> set xs"
  with assms show "(fst x \<noteq> n) = (snd x \<noteq> p)"
    by (metis (no_types, lifting) distinct_map fst_conv inj_onD snd_conv)
qed

lemma rp_remove_inv:
  assumes "rp_inv r"
  shows "rp_inv (rp_remove p r)" "rp_order (rp_remove p r) = filter (\<lambda>q. q \<noteq> p) (rp_order r)"
    "next_node (rp_remove p r) = next_node r"
proof -
  have "rp_inv (rp_remove p r) \<and> rp_order (rp_remove p r) = filter (\<lambda>q. q \<noteq> p) (rp_order r) \<and>
    next_node (rp_remove p r) = next_node r"
  proof (cases "positions r p")
    case None
    then have "p \<notin> set (rp_order r)" using rp_positions[OF assms] by simp
    then have "filter (\<lambda>q. q \<noteq> p) (rp_order r) = rp_order r" by (auto simp: filter_id_conv)
    with None assms show ?thesis by (simp add: rp_remove_def)
  next
    case (Some n)
    have d: "distinct (map fst (mru_pages r))" "distinct (map snd (mru_pages r))"
      "\<And>p n. positions r p = Some n \<longleftrightarrow> (n, p) \<in> set (mru_pages r)"
      "\<And>x. x \<in> set (mru_pages r) \<Longrightarrow> fst x < next_node r"
      using assms by (auto simp: rp_inv_def)
    have m: "(n, p) \<in> set (mru_pages r)" using Some d(3) by simp
    have f: "filter (\<lambda>x. fst x \<noteq> n) (mru_pages r) = filter (\<lambda>x. snd x \<noteq> p) (mru_pages r)"
      by (rule filter_node_page[OF d(1,2) m])
    have eq: "rp_remove p r = r\<lparr>mru_pages := filter (\<lambda>x. snd x \<noteq> p) (mru_pages r),
        positions := (positions r)(p := None)\<rparr>"
      using Some f by (simp add: rp_remove_def)
    have "rp_inv (rp_remove p r)"
      unfolding eq rp_inv_def using d by (auto simp: distinct_map_filter)
    then show ?thesis by (simp add: eq rp_order_def filter_map comp_def)
  qed
  then show "rp_inv (rp_remove p r)" "rp_order (rp_remove p r) = filter (\<lambda>q. q \<noteq> p) (rp_order r)"
    "next_node (rp_remove p r) = next_node r" by auto
qed

lemma rp_record_inv:
  assumes "rp_inv r"
  shows "rp_inv (rp_record p r)" "rp_order (rp_record p r) = filter (\<lambda>q. q \<noteq> p) (rp_order r) @ [p]"
proof -
  let ?r = "rp_remove p r"
  note i = rp_remove_inv[OF assms, of p]
  have fresh: "\<And>x. x \<in> set (mru_pages ?r) \<Longrightarrow> fst x < next_node ?r"
    and pos: "\<And>p n. positions ?r p = Some n \<longleftrightarrow> (n, p) \<in> set (mru_pages ?r)"
    using i(1) by (auto simp: rp_inv_def)
  have notin: "p \<notin> snd ` set (mru_pages ?r)"
  proof
    assume "p \<in> snd ` set (mru_pages ?r)"
    then have "p \<in> set (rp_order ?r)" by (simp add: rp_order_def)
    then show False by (simp add: i(2))
  qed
  show "rp_inv (rp_record p r)"
    using i(1) fresh notin
    by (auto simp: rp_record_def Let_def rp_inv_def less_Suc_eq image_iff) (metis fst_conv less_irrefl fresh)+
  show "rp_order (rp_record p r) = filter (\<lambda>q. q \<noteq> p) (rp_order r) @ [p]"
    using i(2) by (simp add: rp_record_def Let_def rp_order_def)
qed

locale replacement_policy =
  fixes inv :: "'r \<Rightarrow> bool"
    and order :: "'r \<Rightarrow> page_id list"
    and rec :: "page_id \<Rightarrow> 'r \<Rightarrow> 'r"
    and rem :: "page_id \<Rightarrow> 'r \<Rightarrow> 'r"
  assumes order_distinct: "inv r \<Longrightarrow> distinct (order r)"
    and rec_inv: "inv r \<Longrightarrow> inv (rec p r)"
    and rec_order: "inv r \<Longrightarrow> order (rec p r) = filter (\<lambda>q. q \<noteq> p) (order r) @ [p]"
    and rem_inv: "inv r \<Longrightarrow> inv (rem p r)"
    and rem_order: "inv r \<Longrightarrow> order (rem p r) = filter (\<lambda>q. q \<noteq> p) (order r)"
begin

lemma rec_all:
  "inv r \<Longrightarrow> inv (fold rec ps r) \<and>
    order (fold rec ps r) = filter (\<lambda>q. q \<notin> set ps) (order r) @ remdups ps"
proof (induction ps arbitrary: r)
  case Nil
  then show ?case by simp
next
  case (Cons p ps)
  have "order (fold rec ps (rec p r)) = filter (\<lambda>q. q \<notin> set ps) (filter (\<lambda>q. q \<noteq> p) (order r) @ [p]) @ remdups ps"
    using Cons.IH[of "rec p r"] rec_inv[OF Cons.prems] rec_order[OF Cons.prems] by simp
  moreover have "filter (\<lambda>q. q \<noteq> p \<and> q \<notin> set ps) (order r) = filter (\<lambda>q. q \<notin> set ps \<and> q \<noteq> p) (order r)"
    by (rule filter_cong) auto
  ultimately show ?case using Cons.IH[of "rec p r"] rec_inv[OF Cons.prems] by auto
qed

lemma rec_set: "inv r \<Longrightarrow> set (order (rec p r)) = insert p (set (order r))"
  using rec_order by auto

lemma rem_set: "inv r \<Longrightarrow> set (order (rem p r)) = set (order r) - {p}"
  using rem_order by auto

end

interpretation rp: replacement_policy rp_inv rp_order rp_record rp_remove
  by unfold_locales (simp_all add: rp_order_distinct rp_record_inv rp_remove_inv)

text \<open>A page is a victim when it is cached in a frame that nobody pins\<close>

definition victim :: "page list \<Rightarrow> (page_id \<Rightarrow> frame_id option) \<Rightarrow> page_id \<Rightarrow> bool" where
  "victim fs pt p \<longleftrightarrow> (\<exists>f. pt p = Some f \<and> p_pin_count (fs ! unat f) = 0)"

lemma find_from_eq:
  "(\<And>p f. pt p = Some f \<Longrightarrow> unat f < length fs) \<Longrightarrow>
    rp_find_from fs pt xs =
      Inr (case find (victim fs pt) (map snd xs) of None \<Rightarrow> INVALID_PAGE_ID | Some p \<Rightarrow> p)"
proof (induction xs)
  case Nil
  then show ?case by simp
next
  case (Cons x xs)
  then show ?case
    by (cases "pt (snd x)") (auto simp: victim_def not_le[symmetric] dest: Cons.prems)
qed

lemma find_lru_eq:
  "(\<And>p f. pt p = Some f \<Longrightarrow> unat f < length fs) \<Longrightarrow>
    rp_find_lru fs pt r =
      Inr (case find (victim fs pt) (rp_order r) of None \<Rightarrow> INVALID_PAGE_ID | Some p \<Rightarrow> p)"
  by (simp add: rp_find_lru_def find_from_eq rp_order_def)

section \<open>The invariant of the pool\<close>

definition frames_ok :: "page list \<Rightarrow> nat \<Rightarrow> frame_id list \<Rightarrow> nat set \<Rightarrow> bool" where
  \<comment> \<open>outside \<open>E\<close>, a frame holds no page exactly when it was never used or is on the free list\<close>
  "frames_ok fs n fl E \<longleftrightarrow>
     n \<le> length fs \<and> distinct fl \<and> (\<forall>f\<in>set fl. unat f < n \<and> unat f \<notin> E) \<and>
     (\<forall>i<length fs. i \<notin> E \<longrightarrow> (p_page_id (fs ! i) = INVALID_PAGE_ID \<longleftrightarrow> n \<le> i \<or> i \<in> unat ` set fl)) \<and>
     (\<forall>i<length fs. p_page_id (fs ! i) = INVALID_PAGE_ID \<longrightarrow> \<not> p_is_dirty (fs ! i)) \<and>
     (\<forall>i<length fs. length (p_data (fs ! i)) = kPAGE_SIZE)"

definition table_ok :: "page list \<Rightarrow> (page_id \<Rightarrow> frame_id option) \<Rightarrow> nat \<Rightarrow> page_id \<Rightarrow> bool" where
  "table_ok fs pt n c \<longleftrightarrow>
     (\<forall>p f. pt p = Some f \<longrightarrow> unat f < n \<and> p_page_id (fs ! unat f) = p \<and> p < c) \<and>
     (\<forall>i<length fs. p_page_id (fs ! i) \<noteq> INVALID_PAGE_ID \<longrightarrow>
        (\<exists>f. pt (p_page_id (fs ! i)) = Some f \<and> unat f = i))"

definition pool_ok :: "pool \<Rightarrow> bool" where
  "pool_ok s \<longleftrightarrow>
     length (frames s) = pool_capacity s \<and> pool_capacity s < 2 ^ 32 \<and>
     frames_ok (frames s) (pool_size s) (free_frames_list s) {} \<and>
     table_ok (frames s) (page_table s) (pool_size s) (disk_capacity (pool_disk s)) \<and>
     rp_inv (pool_replacer s) \<and> set (rp_order (pool_replacer s)) = dom (page_table s) \<and>
     disk_ok (pool_disk s)"

definition pool_page :: "pool \<Rightarrow> page_id \<Rightarrow> byte list" where
  "pool_page s p =
     (case page_table s p of
        Some f \<Rightarrow> p_data (frames s ! unat f)
      | None \<Rightarrow> disk_page (pool_disk s) p)"

definition pool_pins :: "pool \<Rightarrow> page_id \<Rightarrow> nat" where
  "pool_pins s p = (case page_table s p of Some f \<Rightarrow> unat (p_pin_count (frames s ! unat f)) | None \<Rightarrow> 0)"

definition pool_clean :: "(byte list \<Rightarrow> 'v) \<Rightarrow> page_id set \<Rightarrow> pool \<Rightarrow> bool" where
  \<comment> \<open>a cached page that is not dirty, outside \<open>X\<close>, looks as on disk\<close>
  "pool_clean v X s \<longleftrightarrow>
     (\<forall>p f. page_table s p = Some f \<longrightarrow> p \<notin> X \<longrightarrow> \<not> p_is_dirty (frames s ! unat f) \<longrightarrow>
        v (p_data (frames s ! unat f)) = v (disk_page (pool_disk s) p)) \<and>
     (\<forall>p\<in>X. 0 < pool_pins s p)"

lemma frames_okD:
  assumes "frames_ok fs n fl E"
  shows "n \<le> length fs" "distinct fl" "f \<in> set fl \<Longrightarrow> unat f < n" "f \<in> set fl \<Longrightarrow> unat f \<notin> E"
    "i < length fs \<Longrightarrow> i \<notin> E \<Longrightarrow> p_page_id (fs ! i) = INVALID_PAGE_ID \<longleftrightarrow> n \<le> i \<or> i \<in> unat ` set fl"
    "i < length fs \<Longrightarrow> p_page_id (fs ! i) = INVALID_PAGE_ID \<Longrightarrow> \<not> p_is_dirty (fs ! i)"
    "i < length fs \<Longrightarrow> length (p_data (fs ! i)) = kPAGE_SIZE"
  using assms by (auto simp: frames_ok_def)

lemma table_okD:
  assumes "table_ok fs pt n c"
  shows "pt p = Some f \<Longrightarrow> unat f < n" "pt p = Some f \<Longrightarrow> p_page_id (fs ! unat f) = p" "pt p = Some f \<Longrightarrow> p < c"
    "i < length fs \<Longrightarrow> p_page_id (fs ! i) \<noteq> INVALID_PAGE_ID \<Longrightarrow> \<exists>f. pt (p_page_id (fs ! i)) = Some f \<and> unat f = i"
  using assms by (auto simp: table_ok_def)

lemma pool_okD:
  assumes "pool_ok s"
  shows "length (frames s) = pool_capacity s" "pool_capacity s < 2 ^ 32"
    "frames_ok (frames s) (pool_size s) (free_frames_list s) {}"
    "table_ok (frames s) (page_table s) (pool_size s) (disk_capacity (pool_disk s))"
    "rp_inv (pool_replacer s)" "set (rp_order (pool_replacer s)) = dom (page_table s)" "disk_ok (pool_disk s)"
  using assms by (simp_all add: pool_ok_def)

lemma not_invalid: "p < c \<Longrightarrow> p \<noteq> INVALID_PAGE_ID"
  unfolding INVALID_PAGE_ID_max by (metis not_less word_order.extremum)

lemma cached_frame:
  assumes "pool_ok s" "page_table s p = Some f"
  shows "unat f < length (frames s)" "unat f < pool_size s" "p_page_id (frames s ! unat f) = p"
    "p < disk_capacity (pool_disk s)" "length (p_data (frames s ! unat f)) = kPAGE_SIZE"
    "frame_op f s = (Inr (frames s ! unat f), s)"
proof -
  note ok = pool_okD[OF assms(1)]
  show "unat f < pool_size s" "p_page_id (frames s ! unat f) = p" "p < disk_capacity (pool_disk s)"
    using table_okD[OF ok(4)] assms(2) by auto
  then show "unat f < length (frames s)" using frames_okD(1)[OF ok(3)] by simp
  then show "length (p_data (frames s ! unat f)) = kPAGE_SIZE" "frame_op f s = (Inr (frames s ! unat f), s)"
    using frames_okD(7)[OF ok(3)] by (auto simp: frame_op_def)
qed

lemma frame_inj:
  "pool_ok s \<Longrightarrow> page_table s p = Some f \<Longrightarrow> page_table s q = Some g \<Longrightarrow> unat f = unat g \<Longrightarrow> p = q"
  using cached_frame(3) by metis

lemma length_pool_page: "pool_ok s \<Longrightarrow> length (pool_page s p) = kPAGE_SIZE"
  by (cases "page_table s p") (simp_all add: pool_page_def cached_frame)

lemma pool_replacer_irrelevant [simp]:
  "pool_page (s\<lparr>pool_replacer := r\<rparr>) = pool_page s" "pool_pins (s\<lparr>pool_replacer := r\<rparr>) = pool_pins s"
  "pool_clean v X (s\<lparr>pool_replacer := r\<rparr>) = pool_clean v X s"
proof -
  show "pool_page (s\<lparr>pool_replacer := r\<rparr>) = pool_page s" "pool_pins (s\<lparr>pool_replacer := r\<rparr>) = pool_pins s"
    by (auto simp: pool_page_def pool_pins_def split: option.split)
  then show "pool_clean v X (s\<lparr>pool_replacer := r\<rparr>) = pool_clean v X s" by (simp add: pool_clean_def)
qed

text \<open>Changing the page of a frame without moving it\<close>

lemma put_frame_ok:
  assumes "pool_ok s" "page_table s p = Some f"
    and "p_page_id pg = p" "length (p_data pg) = kPAGE_SIZE"
  shows "pool_ok (put_frame f pg s)"
    "pool_page (put_frame f pg s) = (pool_page s)(p := p_data pg)"
    "pool_pins (put_frame f pg s) = (pool_pins s)(p := unat (p_pin_count pg))"
    "page_table (put_frame f pg s) = page_table s" "pool_disk (put_frame f pg s) = pool_disk s"
proof -
  note ok = pool_okD[OF assms(1)]
  note c = cached_frame[OF assms(1,2)]
  have ne: "unat g \<noteq> unat f" if "page_table s q = Some g" "q \<noteq> p" for q g
    using frame_inj[OF assms(1) that(1) assms(2)] that(2) by auto
  have valid: "p \<noteq> INVALID_PAGE_ID" using c(4) by (rule not_invalid)
  have "frames_ok ((frames s)[unat f := pg]) (pool_size s) (free_frames_list s) {}"
    using ok(3) c(1,3) valid assms(3,4) by (auto simp: frames_ok_def nth_list_update)
  moreover have "table_ok ((frames s)[unat f := pg]) (page_table s) (pool_size s) (disk_capacity (pool_disk s))"
    using ok(4) c(1,3) assms(2,3) unfolding table_ok_def
    by (auto simp: nth_list_update) (metis assms(1) frame_inj)
  ultimately show "pool_ok (put_frame f pg s)"
    using ok by (simp add: pool_ok_def put_frame_def)
  show "pool_page (put_frame f pg s) = (pool_page s)(p := p_data pg)"
  proof (rule ext)
    fix q
    show "pool_page (put_frame f pg s) q = ((pool_page s)(p := p_data pg)) q"
      using c(1) assms(2) ne[of q]
      by (cases "q = p") (auto simp: pool_page_def put_frame_def nth_list_update split: option.split)
  qed
  show "pool_pins (put_frame f pg s) = (pool_pins s)(p := unat (p_pin_count pg))"
  proof (rule ext)
    fix q
    show "pool_pins (put_frame f pg s) q = ((pool_pins s)(p := unat (p_pin_count pg))) q"
      using c(1) assms(2) ne[of q]
      by (cases "q = p") (auto simp: pool_pins_def put_frame_def nth_list_update split: option.split)
  qed
  show "page_table (put_frame f pg s) = page_table s" "pool_disk (put_frame f pg s) = pool_disk s"
    by (simp_all add: put_frame_def)
qed

lemma put_frame_clean:
  assumes "pool_ok s" "page_table s p = Some f" "pool_clean v X s"
    and "p \<in> Y \<or> p_is_dirty pg \<or> v (p_data pg) = v (disk_page (pool_disk s) p)"
    and "X - {p} \<subseteq> Y" "Y \<subseteq> insert p X" "p \<in> Y \<Longrightarrow> 0 < p_pin_count pg"
  shows "pool_clean v Y (put_frame f pg s)"
proof -
  note c = cached_frame[OF assms(1,2)]
  have ne: "unat g \<noteq> unat f" if "page_table s q = Some g" "q \<noteq> p" for q g
    using frame_inj[OF assms(1) that(1) assms(2)] that(2) by auto
  have "v (p_data (frames (put_frame f pg s) ! unat g)) = v (disk_page (pool_disk s) q)"
    if "page_table s q = Some g" "q \<notin> Y" "\<not> p_is_dirty (frames (put_frame f pg s) ! unat g)" for q g
    using that c(1) ne[of q g] assms(2-5)
    by (cases "q = p") (auto simp: put_frame_def pool_clean_def nth_list_update)
  moreover have "0 < pool_pins (put_frame f pg s) q" if "q \<in> Y" for q
    using that c(1) ne[of q] assms(2,3,6,7)
    by (cases "q = p") (auto simp: put_frame_def pool_clean_def pool_pins_def nth_list_update
        unat_gt_0 word_gt_0 split: option.splits)
  ultimately show ?thesis by (simp add: pool_clean_def put_frame_def)
qed

lemma record_ok:
  assumes "pool_ok s" "page_table s p \<noteq> None"
  defines "s' \<equiv> s\<lparr>pool_replacer := rp_record p (pool_replacer s)\<rparr>"
  shows "pool_ok s'" "pool_page s' = pool_page s" "pool_pins s' = pool_pins s" "pool_clean v X s' = pool_clean v X s"
    "page_table s' = page_table s" "pool_disk s' = pool_disk s"
  using pool_okD[OF assms(1)] assms(2) rp.rec_inv[of "pool_replacer s" p] rp.rec_set[of "pool_replacer s" p]
  by (auto simp: s'_def pool_ok_def insert_absorb domIff)

section \<open>Finding a frame\<close>

lemma frames_ok_take:
  assumes "frames_ok fs n fl {}" "i < n" "p_page_id (fs ! i) \<noteq> INVALID_PAGE_ID"
  shows "frames_ok fs n fl {i}"
proof -
  have "i < length fs" using frames_okD(1)[OF assms(1)] assms(2) by simp
  then have "i \<notin> unat ` set fl" using frames_okD(5)[OF assms(1), of i] assms(3) by simp
  then show ?thesis using assms(1) by (auto simp: frames_ok_def)
qed

lemma frame_not_invalid: "unat f < n \<Longrightarrow> n < 2 ^ 32 \<Longrightarrow> f \<noteq> INVALID_FRAME_ID"
  by (auto simp: INVALID_FRAME_ID_def)

lemma no_victim_invalid:
  assumes "pool_ok s"
  shows "find (victim (frames s) (page_table s)) (rp_order (pool_replacer s)) = None \<longleftrightarrow>
    (\<forall>p f. page_table s p = Some f \<longrightarrow> p_pin_count (frames s ! unat f) \<noteq> 0)"
  using pool_okD(6)[OF assms] by (auto simp: find_None_iff victim_def dom_def) (metis option.distinct(1))

lemma find_next_frame_cases:
  assumes "pool_ok s"
  obtains
    "bpm_find_next_frame s = (Inr INVALID_FRAME_ID, s)"
    "free_frames_list s = []" "pool_size s = pool_capacity s"
    "\<forall>p f. page_table s p = Some f \<longrightarrow> p_pin_count (frames s ! unat f) \<noteq> 0"
  | f n fl where "bpm_find_next_frame s = (Inr f, s\<lparr>free_frames_list := fl, pool_size := n\<rparr>)"
    "f \<noteq> INVALID_FRAME_ID" "unat f < n" "pool_size s \<le> n" "n \<le> length (frames s)"
    "frames_ok (frames s) n fl {unat f}"
    "p_page_id (frames s ! unat f) = INVALID_PAGE_ID \<or>
      (\<exists>q. page_table s q = Some f \<and> p_pin_count (frames s ! unat f) = 0)"
proof -
  note ok = pool_okD[OF assms]
  note fo = frames_okD[OF ok(3)]
  have inr: "unat f < length (frames s)" if "page_table s p = Some f" for p f
    using cached_frame(1)[OF assms that] .
  consider (free) "free_frames_list s \<noteq> []"
    | (grow) "free_frames_list s = []" "pool_size s < pool_capacity s"
    | (lru) "free_frames_list s = []" "pool_size s = pool_capacity s"
    using fo(1) ok(1) by linarith
  then show ?thesis
  proof cases
    case free
    then obtain fl f where l: "free_frames_list s = fl @ [f]" by (metis rev_exhaust)
    have f: "unat f < pool_size s" using fo(3) l by simp
    have "frames_ok (frames s) (pool_size s) fl {unat f}"
      using ok(3) l unfolding frames_ok_def by (auto simp flip: word_unat_eq_iff)
    moreover have "p_page_id (frames s ! unat f) = INVALID_PAGE_ID"
      using fo(1) fo(5)[of "unat f"] f l by simp
    moreover have "f \<noteq> INVALID_FRAME_ID"
      using frame_not_invalid[OF f] fo(1) ok(1,2) by linarith
    moreover have "bpm_find_next_frame s = (Inr f, s\<lparr>free_frames_list := fl, pool_size := pool_size s\<rparr>)"
      using l by (simp add: bpm_find_next_frame_def)
    ultimately show ?thesis using that(2)[of f "pool_size s" fl] f fo(1) by simp
  next
    case grow
    let ?f = "of_nat (pool_size s) :: frame_id"
    have f: "unat ?f = pool_size s" using grow(2) ok(2) by (intro unat_of_nat32) simp
    have "frames_ok (frames s) (Suc (pool_size s)) [] {unat ?f}"
      using ok(3) grow ok(1) unfolding frames_ok_def f by (auto simp: less_Suc_eq Suc_le_eq le_less)
    moreover have "p_page_id (frames s ! unat ?f) = INVALID_PAGE_ID"
      using fo(5)[of "unat ?f"] f grow ok(1) by simp
    moreover have "?f \<noteq> INVALID_FRAME_ID"
      using frame_not_invalid[of ?f "pool_capacity s"] f grow ok(2) by simp
    moreover have "bpm_find_next_frame s = (Inr ?f, s\<lparr>free_frames_list := [], pool_size := Suc (pool_size s)\<rparr>)"
      using grow by (simp add: bpm_find_next_frame_def)
    ultimately show ?thesis using that(2)[of ?f "Suc (pool_size s)" "[]"] f grow ok(1) by simp
  next
    case lru
    note lf = find_lru_eq[of "page_table s" "frames s" "pool_replacer s", OF inr]
    show ?thesis
    proof (cases "find (victim (frames s) (page_table s)) (rp_order (pool_replacer s))")
      case None
      then show ?thesis
        using that(1) lf lru no_victim_invalid[OF assms] by (simp add: bpm_find_next_frame_def)
    next
      case (Some p)
      then have "victim (frames s) (page_table s) p" by (auto simp: find_Some_iff)
      then obtain f where f: "page_table s p = Some f" "p_pin_count (frames s ! unat f) = 0"
        by (auto simp: victim_def)
      note c = cached_frame[OF assms f(1)]
      have p: "p \<noteq> INVALID_PAGE_ID" using c(4) by (rule not_invalid)
      have "bpm_find_next_frame s = (Inr f, s)"
        using lru lf Some p f by (simp add: bpm_find_next_frame_def)
      then have "bpm_find_next_frame s = (Inr f, s\<lparr>free_frames_list := free_frames_list s, pool_size := pool_size s\<rparr>)"
        by simp
      moreover have "frames_ok (frames s) (pool_size s) (free_frames_list s) {unat f}"
        using c p by (intro frames_ok_take[OF ok(3)]) simp_all
      moreover have "f \<noteq> INVALID_FRAME_ID"
        using frame_not_invalid[OF c(2)] fo(1) ok(1,2) by linarith
      ultimately show ?thesis using that(2) c(2) fo(1) f by blast
    qed
  qed
qed

section \<open>Swapping a page in\<close>

text \<open>The pages look the same outside \<open>A\<close>, and a pinned page stays where it is\<close>

definition pool_keeps :: "(byte list \<Rightarrow> 'v) \<Rightarrow> page_id set \<Rightarrow> pool \<Rightarrow> pool \<Rightarrow> bool" where
  "pool_keeps v A s s' \<longleftrightarrow>
     (\<forall>q. q \<notin> A \<longrightarrow> v (pool_page s' q) = v (pool_page s q)) \<and>
     (\<forall>q. 0 < pool_pins s q \<longrightarrow> page_table s' q = page_table s q) \<and>
     (\<forall>q. 0 < pool_pins s q \<longrightarrow> q \<notin> A \<longrightarrow> pool_page s' q = pool_page s q)"

lemma pool_keeps_refl: "pool_keeps v A s s"
  by (simp add: pool_keeps_def)

lemma pinned_cached: "0 < pool_pins s q \<Longrightarrow> \<exists>f. page_table s q = Some f \<and> 0 < p_pin_count (frames s ! unat f)"
  by (auto simp: pool_pins_def unat_gt_0 word_gt_0 split: option.splits)

lemma swap_core:
  assumes ok: "pool_ok s" and clean: "pool_clean v X s"
    and n: "unat f < n" "pool_size s \<le> n" "n \<le> length (frames s)"
    and fo: "frames_ok (frames s) n fl {unat f}"
    and old: "p_page_id pg = INVALID_PAGE_ID \<or> (page_table s (p_page_id pg) = Some f \<and> p_pin_count pg = 0)"
    and pg: "pg = frames s ! unat f"
    and p: "page_table s p = None" "p < disk_capacity (pool_disk s)"
    and bs: "length bs = kPAGE_SIZE" "p \<in> Y \<or> v bs = v (disk_page d p)"
    and Y: "X \<subseteq> Y" "Y \<subseteq> insert p X"
    and d: "disk_ok d" "disk_capacity d = disk_capacity (pool_disk s)"
      "disk_page d = (if p_is_dirty pg then (disk_page (pool_disk s))(p_page_id pg := p_data pg)
        else disk_page (pool_disk s))"
    and rep: "rp_inv r" "set (rp_order r) = insert p (dom (page_table s) - {p_page_id pg})"
  defines "s' \<equiv> s\<lparr>free_frames_list := fl, pool_size := n, pool_disk := d,
      page_table := (page_table s)(p_page_id pg := None, p \<mapsto> f),
      frames := (frames s)[unat f := \<lparr>p_page_id = p, p_data = bs, p_pin_count = 1, p_is_dirty = False\<rparr>],
      pool_replacer := r\<rparr>"
  shows "pool_ok s'" "page_table s' p = Some f" "pool_page s' p = bs" "pool_clean v Y s'"
    "pool_pins s' = (pool_pins s)(p := 1)" "pool_keeps v {p} s s'"
proof -
  note okd = pool_okD[OF ok]
  note t = table_okD[OF okd(4)]
  have fl: "unat f < length (frames s)" using n by simp
  have pv: "p \<noteq> INVALID_PAGE_ID" using p(2) by (rule not_invalid)
  have po: "p \<noteq> p_page_id pg" using old p(1) pv by auto
  have other: "unat g \<noteq> unat f" if "page_table s q = Some g" "q \<noteq> p_page_id pg" for q g
    using t(2)[OF that(1)] that(2) pg by auto
  have at: "(frames s)[unat f := y] ! unat f = y" for y using fl by simp
  have oth: "(frames s)[unat f := y] ! unat g = frames s ! unat g" if "page_table s q = Some g" "q \<noteq> p_page_id pg" for q g y
    using other[OF that] by simp
  show tp: "page_table s' p = Some f" by (simp add: s'_def)
  show "pool_page s' p = bs" using at by (simp add: pool_page_def s'_def)
  have inv_old: "page_table s (p_page_id pg) = None" if "p_page_id pg = INVALID_PAGE_ID"
    using that t(3) not_invalid by (metis not_Some_eq)
  have pins_old: "pool_pins s (p_page_id pg) = 0"
    using old inv_old pg by (auto simp: pool_pins_def)
  show "pool_pins s' = (pool_pins s)(p := 1)"
  proof (rule ext)
    fix q
    consider "q = p" | "q = p_page_id pg" "q \<noteq> p" | "q \<noteq> p" "q \<noteq> p_page_id pg" by blast
    then show "pool_pins s' q = ((pool_pins s)(p := 1)) q"
    proof cases
      case 1 then show ?thesis using at by (simp add: pool_pins_def s'_def)
    next
      case 2 then show ?thesis using pins_old by (simp add: pool_pins_def s'_def)
    next
      case 3 then show ?thesis using oth by (auto simp: pool_pins_def s'_def split: option.split)
    qed
  qed
  have not_X: "p_page_id pg \<notin> X" using clean pins_old by (auto simp: pool_clean_def)
  have old_view: "v (disk_page d (p_page_id pg)) = v (pool_page s (p_page_id pg))"
    using clean not_X old inv_old pg d(3) frames_okD(6)[OF fo fl]
    by (auto simp: pool_clean_def pool_page_def split: option.split)
  have keep_disk: "disk_page d q = disk_page (pool_disk s) q" if "q \<noteq> p_page_id pg" for q
    using d(3) that by simp
  have view: "v (pool_page s' q) = v (pool_page s q)" if "q \<noteq> p" for q
  proof (cases "q = p_page_id pg")
    case True
    then show ?thesis using old_view that by (simp add: pool_page_def s'_def)
  next
    case False
    then show ?thesis using oth keep_disk that by (auto simp: pool_page_def s'_def split: option.split)
  qed
  show "pool_keeps v {p} s s'"
  proof -
    have "page_table s' q = page_table s q" if "0 < pool_pins s q" for q
      using that pins_old p(1) by (auto simp: s'_def pool_pins_def)
    moreover have "pool_page s' q = pool_page s q" if "0 < pool_pins s q" "q \<noteq> p" for q
      using that pins_old oth[of q] pinned_cached[OF that(1)]
      by (cases "q = p_page_id pg") (auto simp: pool_page_def s'_def)
    ultimately show ?thesis using view by (simp add: pool_keeps_def)
  qed
  show "pool_clean v Y s'"
  proof -
    have "v (p_data (frames s' ! unat g)) = v (disk_page (pool_disk s') q)"
      if "page_table s' q = Some g" "q \<notin> Y" "\<not> p_is_dirty (frames s' ! unat g)" for q g
    proof (cases "q = p")
      case True
      then show ?thesis using that at bs(2) by (simp add: s'_def)
    next
      case False
      then have q: "page_table s q = Some g" "q \<noteq> p_page_id pg"
        using that(1) by (auto simp: s'_def split: if_splits)
      have "q \<notin> X" using that(2) Y(1) by auto
      with that(3) q False clean oth[OF q] keep_disk show ?thesis by (simp add: s'_def pool_clean_def)
    qed
    moreover have "0 < pool_pins s' q" if "q \<in> Y" for q
      using that Y(2) clean \<open>pool_pins s' = (pool_pins s)(p := 1)\<close> by (auto simp: pool_clean_def)
    ultimately show ?thesis by (simp add: pool_clean_def)
  qed
  show "pool_ok s'"
  proof -
    let ?fs = "(frames s)[unat f := \<lparr>p_page_id = p, p_data = bs, p_pin_count = 1, p_is_dirty = False\<rparr>]"
    have "frames_ok ?fs n fl {}"
      using fo n fl pv bs(1) unfolding frames_ok_def by (auto simp: nth_list_update)
    moreover have "table_ok ?fs (page_table s') n (disk_capacity d)"
      unfolding table_ok_def
    proof (intro conjI allI impI)
      fix q g
      assume a: "page_table s' q = Some g"
      show "unat g < n" "p_page_id (?fs ! unat g) = q" "q < disk_capacity d"
        using a t(1,2,3)[of q g] oth[of q g] at n p(2) d(2) by (auto simp: s'_def split: if_splits)
    next
      fix i
      assume i: "i < length ?fs" "p_page_id (?fs ! i) \<noteq> INVALID_PAGE_ID"
      show "\<exists>g. page_table s' (p_page_id (?fs ! i)) = Some g \<and> unat g = i"
      proof (cases "i = unat f")
        case True
        then show ?thesis using at tp by auto
      next
        case False
        then have i': "p_page_id (frames s ! i) \<noteq> INVALID_PAGE_ID" using i by simp
        from t(4)[OF _ this] i obtain g where g: "page_table s (p_page_id (frames s ! i)) = Some g" "unat g = i"
          by auto
        then have "p_page_id (frames s ! i) \<noteq> p_page_id pg" "p_page_id (frames s ! i) \<noteq> p"
          using old False inv_old p(1) by auto
        with g False show ?thesis by (auto simp: s'_def)
      qed
    qed
    moreover have "set (rp_order r) = dom (page_table s')"
      using rep(2) po by (auto simp: s'_def)
    ultimately show ?thesis using okd d rep(1) by (simp add: pool_ok_def s'_def)
  qed
qed

definition pool_full :: "pool \<Rightarrow> bool" where
  \<comment> \<open>no frame can be taken: all are in use and pinned\<close>
  "pool_full s \<longleftrightarrow> free_frames_list s = [] \<and> pool_size s = pool_capacity s \<and>
     (\<forall>p f. page_table s p = Some f \<longrightarrow> p_pin_count (frames s ! unat f) \<noteq> 0)"

lemma on_disk_run: "m (pool_disk s) = (r, d) \<Longrightarrow> on_disk m s = (r, s\<lparr>pool_disk := d\<rparr>)"
  by (simp add: on_disk_def)

lemma fresh_frame:
  "page_inc_pin_count (page_reset_memory p pg) =
    \<lparr>p_page_id = p, p_data = replicate kPAGE_SIZE 0, p_pin_count = 1, p_is_dirty = False\<rparr>"
  by (cases pg) (simp add: page_inc_pin_count_def page_reset_memory_def)

lemma swap_page_spec:
  assumes ok: "pool_ok s" and clean: "pool_clean v X s"
    and p: "page_table s p = None" "p < disk_capacity (pool_disk s)"
  obtains "bpm_swap_page p b s = (Inr None, s)" "pool_full s"
  | f s' where "bpm_swap_page p b s = (Inr (Some f), s')" "pool_ok s'" "page_table s' p = Some f"
    "pool_page s' p = (if b then pool_page s p else replicate kPAGE_SIZE 0)"
    "pool_clean v (if b then X else insert p X) s'" "pool_pins s' = (pool_pins s)(p := 1)" "pool_keeps v {p} s s'"
    "disk_capacity (pool_disk s') = disk_capacity (pool_disk s)" "free_list (pool_disk s') = free_list (pool_disk s)"
    "dom (page_table s') \<subseteq> insert p (dom (page_table s))"
proof (rule find_next_frame_cases[OF ok])
  assume a: "bpm_find_next_frame s = (Inr INVALID_FRAME_ID, s)"
    "free_frames_list s = []" "pool_size s = pool_capacity s"
    "\<forall>p f. page_table s p = Some f \<longrightarrow> p_pin_count (frames s ! unat f) \<noteq> 0"
  then have "bpm_swap_page p b s = (Inr None, s)" by (simp add: bpm_swap_page_def op_simps bind_op_def)
  with a that(1) show ?thesis by (simp add: pool_full_def)
next
  fix f n fl
  assume a: "bpm_find_next_frame s = (Inr f, s\<lparr>free_frames_list := fl, pool_size := n\<rparr>)"
    "f \<noteq> INVALID_FRAME_ID" "unat f < n" "pool_size s \<le> n" "n \<le> length (frames s)"
    "frames_ok (frames s) n fl {unat f}"
    "p_page_id (frames s ! unat f) = INVALID_PAGE_ID \<or>
      (\<exists>q. page_table s q = Some f \<and> p_pin_count (frames s ! unat f) = 0)"
  note okd = pool_okD[OF ok]
  define pg where "pg = frames s ! unat f"
  define old where "old = p_page_id pg"
  have fl: "unat f < length (frames s)" using a(3,5) by simp
  have oldc: "old = INVALID_PAGE_ID \<or> (page_table s old = Some f \<and> p_pin_count pg = 0)"
    using a(7) table_okD(2)[OF okd(4)] by (auto simp: pg_def old_def)
  have lpg: "length (p_data pg) = kPAGE_SIZE" using frames_okD(7)[OF okd(3) fl] by (simp add: pg_def)
  have po: "p \<noteq> old" using oldc p not_invalid by auto
  have dirty_valid: "old < disk_capacity (pool_disk s)" if "p_is_dirty pg"
    using that oldc frames_okD(6)[OF okd(3) fl] table_okD(3)[OF okd(4)] by (auto simp: pg_def old_def)
  obtain d where dd:
    "(if p_is_dirty pg then dm_write_page old (p_data pg) else ret_op ()) (pool_disk s) = (Inr (), d)"
    "disk_ok d" "disk_capacity d = disk_capacity (pool_disk s)" "free_list d = free_list (pool_disk s)"
    "disk_page d = (if p_is_dirty pg then (disk_page (pool_disk s))(old := p_data pg) else disk_page (pool_disk s))"
  proof (cases "p_is_dirty pg")
    case True
    show ?thesis
      by (rule write_page_eq[OF okd(7) dirty_valid[OF True] lpg], rule that) (simp_all add: True)
  next
    case False
    show ?thesis
      by (rule that[of "pool_disk s"]) (simp_all add: False okd(7) op_simps)
  qed
  define r where "r = rp_record p (if old \<noteq> INVALID_PAGE_ID then rp_remove old (pool_replacer s) else pool_replacer s)"
  have inv_old: "page_table s old = None" if "old = INVALID_PAGE_ID"
    using that table_okD(3)[OF okd(4)] not_invalid by (metis not_Some_eq)
  have rep: "rp_inv r" "set (rp_order r) = insert p (dom (page_table s) - {old})"
    by (cases "old = INVALID_PAGE_ID") (use okd(5,6) inv_old in \<open>auto simp: r_def rp.rem_inv rp.rec_inv rp.rec_set rp.rem_set\<close>)
  define bs where "bs = (if b then disk_page d p else replicate kPAGE_SIZE 0)"
  define s' where "s' = s\<lparr>free_frames_list := fl, pool_size := n, pool_disk := d,
      page_table := (page_table s)(old := None, p \<mapsto> f),
      frames := (frames s)[unat f := \<lparr>p_page_id = p, p_data = bs, p_pin_count = 1, p_is_dirty = False\<rparr>],
      pool_replacer := r\<rparr>"
  have lbs: "length bs = kPAGE_SIZE" by (simp add: bs_def)
  have vb: "p \<in> (if b then X else insert p X) \<or> v bs = v (disk_page d p)" by (simp add: bs_def)
  have Y: "X \<subseteq> (if b then X else insert p X)" "(if b then X else insert p X) \<subseteq> insert p X" by auto
  note core = swap_core[OF ok clean a(3,4,5,6) oldc[unfolded old_def] pg_def p lbs vb Y dd(2,3) dd(5)[unfolded old_def]
    rep[unfolded old_def], folded old_def, folded s'_def]
  have rd: "dm_read_page p zs d = (Inr (disk_page d p), d)" if "length zs = kPAGE_SIZE" for zs
    using read_page_eq[OF dd(2), of p zs] that dd(3) p(2) by simp
  have inv0: "(page_table s)(INVALID_PAGE_ID := None) = page_table s"
    using table_okD(3)[OF okd(4)] not_invalid by (metis fun_upd_triv not_Some_eq)
  have flush: "(if p_is_dirty pg then bpm_flush_page pg else ret_op ()) t = (Inr (), t\<lparr>pool_disk := d\<rparr>)"
    if "pool_disk t = pool_disk s" for t
    using dd(1) that by (auto simp: bpm_flush_page_def on_disk_def old_def op_simps split: if_splits)
  have run: "bpm_swap_page p b s = (Inr (Some f), s')"
  proof -
    define s1 where "s1 = s\<lparr>free_frames_list := fl, pool_size := n\<rparr>"
    define s2 where "s2 = s1\<lparr>page_table := (page_table s)(old := None),
      pool_replacer := (if old \<noteq> INVALID_PAGE_ID then rp_remove old (pool_replacer s) else pool_replacer s)\<rparr>"
    have 1: "frame_op f s1 = (Inr pg, s1)" using fl by (simp add: frame_op_def s1_def pg_def)
    have 2: "(if p_page_id pg \<noteq> INVALID_PAGE_ID
        then s1\<lparr>page_table := (page_table s1)(p_page_id pg := None),
                pool_replacer := rp_remove (p_page_id pg) (pool_replacer s1)\<rparr>
        else s1) = s2"
      using inv0 by (cases "old = INVALID_PAGE_ID") (simp_all add: s2_def s1_def old_def)
    have 3: "(if p_is_dirty pg then bpm_flush_page pg else ret_op ()) s2 = (Inr (), s2\<lparr>pool_disk := d\<rparr>)"
      by (rule flush) (simp add: s2_def s1_def)
    have 4: "frame_op f t = (Inr (frames t ! unat f), t)" if "length (frames t) = length (frames s)" for t
      using fl that by (simp add: frame_op_def)
    show ?thesis
      unfolding bpm_swap_page_def
      by (subst bind_op_Inr, rule a(1), unfold s1_def[symmetric], simp only: a(2) if_False,
          subst bind_op_Inr, rule 1, subst bind_op_Inr, rule modify_op_run, unfold 2,
          subst bind_op_Inr, rule 3)
        (use fl rd in \<open>simp add: bind_op_def modify_op_def ret_op_def on_disk_def 4 fresh_frame put_frame_def
          s2_def s1_def s'_def r_def bs_def page_default_def\<close>)
  qed
  have "pool_page s p = disk_page d p" using p(1) po dd(5) by (simp add: pool_page_def)
  then have pp: "pool_page s' p = (if b then pool_page s p else replicate kPAGE_SIZE 0)"
    unfolding core(3) bs_def by simp
  have "pool_disk s' = d" "dom (page_table s') \<subseteq> insert p (dom (page_table s))"
    by (auto simp: s'_def)
  then show ?thesis
    using that(2)[OF run core(1,2) pp core(4-6)] dd(3,4) by simp
qed

section \<open>Fetching, creating, unpinning and deleting\<close>

lemma find_cached_hit:
  assumes "pool_ok s" "page_table s p = Some f" "pool_pins s p < 2 ^ 32 - 1" "pool_clean v X s"
  obtains s' where "bpm_find_cached_page p s = (Inr (Some f), s')" "pool_ok s'" "page_table s' = page_table s"
    "pool_page s' = pool_page s" "pool_pins s' = (pool_pins s)(p := Suc (pool_pins s p))" "pool_clean v X s'"
    "pool_disk s' = pool_disk s"
proof -
  define pg where "pg = frames s ! unat f"
  define t where "t = put_frame f (page_inc_pin_count pg) s"
  note c = cached_frame[OF assms(1,2)]
  have pin: "pool_pins s p = unat (p_pin_count pg)" using assms(2) by (simp add: pool_pins_def pg_def)
  have dat: "pool_page s p = p_data pg" using assms(2) by (simp add: pool_page_def pg_def)
  have "unat (p_pin_count pg + 1) = Suc (unat (p_pin_count pg))"
    using assms(3) by (intro unat_Suc32) (simp add: INVALID_PAGE_ID_def word_less_nat_alt pin)
  moreover from this have "0 < p_pin_count pg + 1" by (metis unat_gt_0 word_gt_0 zero_less_Suc)
  moreover have "p_page_id (page_inc_pin_count pg) = p" "length (p_data (page_inc_pin_count pg)) = kPAGE_SIZE"
    using c by (simp_all add: page_inc_pin_count_def pg_def)
  ultimately have t: "pool_ok t" "pool_page t = pool_page s"
    "pool_pins t = (pool_pins s)(p := Suc (pool_pins s p))" "page_table t = page_table s" "pool_disk t = pool_disk s"
    "pool_clean v X t"
    using put_frame_ok[OF assms(1,2), of "page_inc_pin_count pg"]
      put_frame_clean[OF assms(1,2,4), of X "page_inc_pin_count pg"] assms(2,4) pin dat
    by (auto simp: t_def page_inc_pin_count_def pool_clean_def pg_def)
  have hit: "page_table t p \<noteq> None" using t(4) assms(2) by simp
  note r = record_ok[OF t(1) hit]
  have "bpm_find_cached_page p s = (Inr (Some f), t\<lparr>pool_replacer := rp_record p (pool_replacer t)\<rparr>)"
    using assms(2) c(6) by (simp add: bpm_find_cached_page_def bind_op_def modify_op_def ret_op_def t_def pg_def)
  then show ?thesis
    using that r t by simp
qed

lemma fetch_page_spec:
  assumes "pool_ok s" "pool_clean v X s" "p < disk_capacity (pool_disk s)" "pool_pins s p < 2 ^ 32 - 1"
  obtains "bpm_fetch_page p s = (Inr None, s)" "page_table s p = None" "pool_full s"
  | f s' where "bpm_fetch_page p s = (Inr (Some f), s')" "pool_ok s'" "page_table s' p = Some f"
    "pool_page s' p = pool_page s p" "pool_clean v X s'" "pool_pins s' = (pool_pins s)(p := Suc (pool_pins s p))"
    "pool_keeps v {} s s'" "disk_capacity (pool_disk s') = disk_capacity (pool_disk s)"
    "free_list (pool_disk s') = free_list (pool_disk s)" "dom (page_table s') \<subseteq> insert p (dom (page_table s))"
proof (cases "page_table s p")
  case (Some f)
  obtain s' where h: "bpm_find_cached_page p s = (Inr (Some f), s')" "pool_ok s'" "page_table s' = page_table s"
    "pool_page s' = pool_page s" "pool_pins s' = (pool_pins s)(p := Suc (pool_pins s p))" "pool_clean v X s'"
    "pool_disk s' = pool_disk s"
    by (rule find_cached_hit[OF assms(1) Some assms(4,2)], rule that)
  have "bpm_fetch_page p s = (Inr (Some f), s')"
    using h(1) by (simp add: bpm_fetch_page_def bind_op_def ret_op_def)
  then show ?thesis
    by (rule that(2)) (use h Some in \<open>auto simp: pool_keeps_def\<close>)
next
  case None
  then have miss: "bpm_find_cached_page p s = (Inr None, s)" by (simp add: bpm_find_cached_page_def)
  then have eq: "bpm_fetch_page p s = bpm_swap_page p True s"
    by (simp add: bpm_fetch_page_def bind_op_def)
  have pin0: "pool_pins s p = 0" using None by (simp add: pool_pins_def)
  show ?thesis
  proof (rule swap_page_spec[OF assms(1,2) None assms(3), where b = True])
    assume "bpm_swap_page p True s = (Inr None, s)" "pool_full s"
    with eq None that(1) show ?thesis by simp
  next
    fix f s'
    assume a: "bpm_swap_page p True s = (Inr (Some f), s')" "pool_ok s'" "page_table s' p = Some f"
      "pool_page s' p = (if True then pool_page s p else replicate kPAGE_SIZE 0)"
      "pool_clean v (if True then X else insert p X) s'" "pool_pins s' = (pool_pins s)(p := 1)" "pool_keeps v {p} s s'"
      "disk_capacity (pool_disk s') = disk_capacity (pool_disk s)" "free_list (pool_disk s') = free_list (pool_disk s)"
      "dom (page_table s') \<subseteq> insert p (dom (page_table s))"
    have "pool_page s' p = pool_page s p" using a(4) by simp
    with a(7) have "pool_keeps v {} s s'" by (simp add: pool_keeps_def) metis
    with a eq pin0 show ?thesis by (intro that(2)) simp_all
  qed
qed

text \<open>What a caller of the pool may assume of the pages: those cached are in use on the disk\<close>

definition pool_inv :: "pool \<Rightarrow> bool" where
  "pool_inv s \<longleftrightarrow> pool_ok s \<and> disk_inv (pool_disk s) \<and> dom (page_table s) \<subseteq> disk_in_use (pool_disk s)"

lemma pool_invD:
  assumes "pool_inv s"
  shows "pool_ok s" "disk_inv (pool_disk s)" "page_table s p = Some f \<Longrightarrow> p \<in> disk_in_use (pool_disk s)"
  using assms by (auto simp: pool_inv_def)

lemma in_use_capacity: "p \<in> disk_in_use d \<Longrightarrow> p < disk_capacity d"
  by (simp add: disk_in_use_def)

lemma in_use_cong:
  "disk_capacity d = disk_capacity e \<Longrightarrow> free_list d = free_list e \<Longrightarrow>
    disk_in_use d = disk_in_use e \<and> disk_inv d = disk_inv e"
  by (simp add: disk_in_use_def disk_inv_def)

lemma new_page_spec:
  assumes "pool_inv s" "pool_clean v X s"
    "free_list (pool_disk s) \<noteq> [] \<or> disk_capacity (pool_disk s) < INVALID_PAGE_ID"
  obtains p d where "bpm_new_page s = (Inr None, s\<lparr>pool_disk := d\<rparr>)" "pool_full s"
    "p \<notin> disk_in_use (pool_disk s)" "disk_in_use d = insert p (disk_in_use (pool_disk s))"
  | p f s' where "bpm_new_page s = (Inr (Some f), s')" "p \<notin> disk_in_use (pool_disk s)" "0 < p" "pool_inv s'"
    "disk_in_use (pool_disk s') = insert p (disk_in_use (pool_disk s))"
    "page_table s' p = Some f" "pool_page s' p = replicate kPAGE_SIZE 0" "pool_clean v (insert p X) s'"
    "pool_pins s' = (pool_pins s)(p := 1)" "pool_keeps v {p} s s'" "fst (dm_allocate_page (pool_disk s)) = Inr p"
proof -
  note inv = pool_invD[OF assms(1)]
  note ok = pool_okD[OF inv(1)]
  obtain p d where a: "dm_allocate_page (pool_disk s) = (Inr p, d)" "p \<notin> disk_in_use (pool_disk s)" "0 < p"
    "p < disk_capacity d" "disk_in_use d = insert p (disk_in_use (pool_disk s))" "disk_inv d"
    "disk_file d = disk_file (pool_disk s)" "disk_capacity (pool_disk s) \<le> disk_capacity d"
    using assms(3) allocate_from_free_list[OF inv(2)] allocate_new_page[OF inv(2)] by metis
  define t where "t = s\<lparr>pool_disk := d\<rparr>"
  have pg: "disk_page d = disk_page (pool_disk s)" using a(7) by (simp add: disk_page_def[abs_def])
  have t: "pool_page t = pool_page s" "pool_pins t = pool_pins s" "page_table t = page_table s" "pool_disk t = d"
    "pool_full t = pool_full s"
    using pg by (auto simp: t_def pool_page_def pool_pins_def pool_full_def split: option.split)
  have "table_ok (frames s) (page_table s) (pool_size s) (disk_capacity d)"
    using ok(4) a(8) unfolding table_ok_def by force
  then have tok: "pool_ok t" using ok a(7) by (simp add: pool_ok_def t_def disk_ok_def)
  have tclean: "pool_clean v X t" using assms(2) t(2) pg by (simp add: pool_clean_def t_def)
  have miss: "page_table t p = None" using inv(3) a(2) t(3) by (cases "page_table s p") auto
  have cap: "p < disk_capacity (pool_disk t)" using a(4) t(4) by simp
  have eq: "bpm_new_page s = bpm_swap_page p False t"
    using a(1) by (simp add: bpm_new_page_def bind_op_def on_disk_def t_def)
  show ?thesis
  proof (rule swap_page_spec[OF tok tclean miss cap, where b = False])
    assume "bpm_swap_page p False t = (Inr None, t)" "pool_full t"
    with eq t a that(1) show ?thesis by (simp add: t_def)
  next
    fix f s'
    assume b: "bpm_swap_page p False t = (Inr (Some f), s')" "pool_ok s'" "page_table s' p = Some f"
      "pool_page s' p = (if False then pool_page t p else replicate kPAGE_SIZE 0)"
      "pool_clean v (if False then X else insert p X) s'" "pool_pins s' = (pool_pins t)(p := 1)" "pool_keeps v {p} t s'"
      "disk_capacity (pool_disk s') = disk_capacity (pool_disk t)" "free_list (pool_disk s') = free_list (pool_disk t)"
      "dom (page_table s') \<subseteq> insert p (dom (page_table t))"
    have k: "pool_keeps v {p} s s'" using b(7) t by (simp add: pool_keeps_def)
    note c = in_use_cong[OF b(8,9), unfolded t(4)]
    have "pool_inv s'"
      using b(2,10) c a(5,6) inv(3) t(3) by (auto simp: pool_inv_def)
    with b eq t k c a show ?thesis by (intro that(2)) simp_all
  qed
qed

lemma unpin_spec:
  assumes "pool_ok s" "page_table s p = Some f" "0 < pool_pins s p" "pool_clean v X s"
    and "dirty \<or> p \<notin> X \<or> v (pool_page s p) = v (disk_page (pool_disk s) p)"
  obtains s' where "bpm_unpin_page p dirty s = (Inr (), s')" "pool_ok s'" "page_table s' = page_table s"
    "pool_page s' = pool_page s" "pool_pins s' = (pool_pins s)(p := pool_pins s p - 1)" "pool_clean v (X - {p}) s'"
    "pool_disk s' = pool_disk s"
proof -
  define pg where "pg = frames s ! unat f"
  define pg2 where "pg2 = page_dec_pin_count (if dirty then page_set_dirty True pg else pg)"
  define t where "t = put_frame f pg2 s"
  note c = cached_frame[OF assms(1,2)]
  have pin: "pool_pins s p = unat (p_pin_count pg)" using assms(2) by (simp add: pool_pins_def pg_def)
  have dat: "pool_page s p = p_data pg" using assms(2) by (simp add: pool_page_def pg_def)
  have d2: "p_data pg2 = p_data pg" "p_page_id pg2 = p" "p_is_dirty pg2 = (dirty \<or> p_is_dirty pg)"
    "p_pin_count pg2 = p_pin_count pg - 1"
    using c(3) by (simp_all add: pg2_def page_dec_pin_count_def page_set_dirty_def pg_def)
  have len: "length (p_data pg2) = kPAGE_SIZE" using c(5) d2(1) by (simp add: pg_def)
  have "unat (p_pin_count pg - 1) = unat (p_pin_count pg) - 1"
    using assms(3) pin by (metis unat_gt_0 less_numeral_extra(3) unat_minus_one)
  then have t: "pool_ok t" "pool_page t = pool_page s" "pool_pins t = (pool_pins s)(p := pool_pins s p - 1)"
    "page_table t = page_table s" "pool_disk t = pool_disk s"
    using put_frame_ok[OF assms(1,2) d2(2) len] d2 pin dat by (auto simp: t_def)
  have "pool_clean v (X - {p}) t"
    unfolding t_def
    by (rule put_frame_clean[OF assms(1,2,4)])
      (use assms(2,4,5) d2 dat in \<open>auto simp: pool_clean_def pg_def\<close>)
  moreover have "bpm_unpin_page p dirty s = (Inr (), t)"
    using assms(2) c(6) by (simp add: bpm_unpin_page_def bind_op_def modify_op_def t_def pg2_def pg_def)
  ultimately show ?thesis using that t by blast
qed

lemma write_data_spec:
  assumes "pool_ok s" "page_table s p = Some f" "0 < pool_pins s p" "pool_clean v X s" "length bs = kPAGE_SIZE"
  obtains s' where "write_data f bs s = (Inr (), s')" "pool_ok s'" "page_table s' = page_table s"
    "pool_page s' = (pool_page s)(p := bs)" "pool_pins s' = pool_pins s"
    "pool_clean v (if v bs = v (pool_page s p) then X else insert p X) s'" "pool_disk s' = pool_disk s"
proof -
  define pg where "pg = frames s ! unat f"
  define t where "t = put_frame f (pg\<lparr>p_data := bs\<rparr>) s"
  note c = cached_frame[OF assms(1,2)]
  have pin: "pool_pins s p = unat (p_pin_count pg)" using assms(2) by (simp add: pool_pins_def pg_def)
  have dat: "pool_page s p = p_data pg" using assms(2) by (simp add: pool_page_def pg_def)
  have t: "pool_ok t" "pool_page t = (pool_page s)(p := bs)" "pool_pins t = pool_pins s"
    "page_table t = page_table s" "pool_disk t = pool_disk s"
    using put_frame_ok[OF assms(1,2), of "pg\<lparr>p_data := bs\<rparr>"] c assms(5) pin
    by (auto simp: t_def pg_def)
  have pos: "0 < p_pin_count pg" using assms(3) pin by (simp add: unat_gt_0 word_gt_0)
  have "pool_clean v (if v bs = v (pool_page s p) then X else insert p X) t"
    unfolding t_def
    by (rule put_frame_clean[OF assms(1,2,4)])
      (use assms(2,4) pos dat in \<open>auto simp: pool_clean_def pg_def split: if_splits\<close>)
  moreover have "write_data f bs s = (Inr (), t)"
    using c(6) by (simp add: write_data_def bind_op_def modify_op_def t_def pg_def)
  ultimately show ?thesis using that t by blast
qed

lemma delete_pinned: "pool_ok s \<Longrightarrow> 0 < pool_pins s p \<Longrightarrow> bpm_delete_page p s = (Inr False, s)"
  using pinned_cached[of s p] cached_frame(6)[of s p]
  by (auto simp: bpm_delete_page_def bind_op_def ret_op_def)

lemma delete_core:
  assumes ok: "pool_ok s" and clean: "pool_clean v X s" and f: "page_table s p = Some f" and pin: "pool_pins s p = 0"
    and pg: "p_page_id pg = INVALID_PAGE_ID" "\<not> p_is_dirty pg" "length (p_data pg) = kPAGE_SIZE"
  defines "t \<equiv> s\<lparr>page_table := (page_table s)(p := None), pool_replacer := rp_remove p (pool_replacer s),
      frames := (frames s)[unat f := pg], free_frames_list := free_frames_list s @ [f]\<rparr>"
  shows "pool_ok t" "pool_clean v X t" "pool_pins t = pool_pins s" "q \<noteq> p \<Longrightarrow> pool_page t q = pool_page s q"
    "page_table t = (page_table s)(p := None)" "pool_disk t = pool_disk s"
proof -
  note okd = pool_okD[OF ok]
  note c = cached_frame[OF ok f]
  note tab = table_okD[OF okd(4)]
  have pv: "p \<noteq> INVALID_PAGE_ID" using c(4) by (rule not_invalid)
  have ne: "unat g \<noteq> unat f" if "page_table s q = Some g" "q \<noteq> p" for q g
    using frame_inj[OF ok that(1) f] that(2) by auto
  have notin: "f \<notin> set (free_frames_list s)"
    using frames_okD(1)[OF okd(3)] frames_okD(5)[OF okd(3) c(1)] c(3) pv by auto
  show "page_table t = (page_table s)(p := None)" "pool_disk t = pool_disk s" by (simp_all add: t_def)
  show pp: "pool_pins t = pool_pins s"
  proof (rule ext)
    fix q show "pool_pins t q = pool_pins s q"
      using pin ne[of q] by (cases "q = p") (auto simp: t_def pool_pins_def split: option.split)
  qed
  show "pool_page t q = pool_page s q" if "q \<noteq> p" for q
    using that ne[of q] by (auto simp: t_def pool_page_def split: option.split)
  have "v (p_data (frames t ! unat g)) = v (disk_page (pool_disk t) q)"
    if "page_table t q = Some g" "q \<notin> X" "\<not> p_is_dirty (frames t ! unat g)" for q g
  proof -
    have "page_table s q = Some g" "q \<noteq> p" using that(1) by (auto simp: t_def split: if_splits)
    with that(2,3) clean ne[OF this] show ?thesis by (simp add: t_def pool_clean_def)
  qed
  moreover have "0 < pool_pins t q" if "q \<in> X" for q using that clean pp by (simp add: pool_clean_def)
  ultimately show "pool_clean v X t" by (simp add: pool_clean_def)
  have "frames_ok ((frames s)[unat f := pg]) (pool_size s) (free_frames_list s @ [f]) {}"
    using okd(3) c(1,2) notin pg unfolding frames_ok_def by (auto simp: nth_list_update)
  moreover have "table_ok ((frames s)[unat f := pg]) ((page_table s)(p := None)) (pool_size s)
      (disk_capacity (pool_disk s))"
    unfolding table_ok_def
  proof (intro conjI allI impI)
    fix q g
    assume a: "((page_table s)(p := None)) q = Some g"
    then have q: "page_table s q = Some g" "q \<noteq> p" by (auto split: if_splits)
    show "unat g < pool_size s" "p_page_id ((frames s)[unat f := pg] ! unat g) = q"
        "q < disk_capacity (pool_disk s)"
      using tab(1-3)[OF q(1)] ne[OF q] by auto
  next
    fix i
    assume i: "i < length ((frames s)[unat f := pg])" "p_page_id ((frames s)[unat f := pg] ! i) \<noteq> INVALID_PAGE_ID"
    then have "i \<noteq> unat f" using pg(1) by auto
    with i tab(4)[of i] obtain g where g: "page_table s (p_page_id (frames s ! i)) = Some g" "unat g = i" by auto
    then have "p_page_id (frames s ! i) \<noteq> p" using f \<open>i \<noteq> unat f\<close> by auto
    with g \<open>i \<noteq> unat f\<close>
    show "\<exists>g. ((page_table s)(p := None)) (p_page_id ((frames s)[unat f := pg] ! i)) = Some g \<and> unat g = i"
      by auto
  qed
  ultimately show "pool_ok t"
    using okd rp.rem_inv[OF okd(5), of p] rp.rem_set[OF okd(5), of p] by (simp add: pool_ok_def t_def dom_fun_upd)
qed

lemma deallocate_in_use:
  assumes "disk_inv d" "p \<in> disk_in_use d"
  obtains d' where "dm_deallocate_page p d = (Inr (), d')" "disk_inv d'" "disk_file d' = disk_file d"
    "disk_in_use d' = (if length (free_list d) \<le> 1024 then disk_in_use d - {p} else disk_in_use d)"
    "disk_capacity d' = disk_capacity d" "disk_hdr d' = disk_hdr d" "length (free_list d') \<le> Suc (length (free_list d))"
proof -
  have p: "0 < p" "p < disk_capacity d" "p \<notin> set (free_list d)" "p \<noteq> kDISK_METADATA_PAGE_ID"
    using assms(2) by (auto simp: disk_in_use_def kDISK_METADATA_PAGE_ID_def)
  show ?thesis
  proof (cases "length (free_list d) \<le> 1024")
    case True
    then show ?thesis
      using assms(1) p by (intro that[of "d\<lparr>free_list := free_list d @ [p]\<rparr>"])
        (auto simp: dm_deallocate_page_def disk_inv_def disk_in_use_def)
  next
    case False
    then show ?thesis using assms(1) p by (intro that[of d]) (auto simp: dm_deallocate_page_def)
  qed
qed

lemma disk_file_page: "disk_file d = disk_file e \<Longrightarrow> disk_page d = disk_page e \<and> disk_ok d = disk_ok e"
  by (simp add: disk_page_def[abs_def] disk_ok_def)

lemma change_disk:
  assumes "pool_ok s" "disk_page d = disk_page (pool_disk s)" "disk_ok d"
    "disk_capacity d = disk_capacity (pool_disk s)"
  shows "pool_ok (s\<lparr>pool_disk := d\<rparr>)" "pool_page (s\<lparr>pool_disk := d\<rparr>) = pool_page s"
    "pool_pins (s\<lparr>pool_disk := d\<rparr>) = pool_pins s" "pool_clean v X (s\<lparr>pool_disk := d\<rparr>) = pool_clean v X s"
proof -
  show "pool_ok (s\<lparr>pool_disk := d\<rparr>)" using assms by (simp add: pool_ok_def)
  show "pool_page (s\<lparr>pool_disk := d\<rparr>) = pool_page s" "pool_pins (s\<lparr>pool_disk := d\<rparr>) = pool_pins s"
    using assms(2) by (auto simp: pool_page_def pool_pins_def split: option.split)
  then show "pool_clean v X (s\<lparr>pool_disk := d\<rparr>) = pool_clean v X s"
    using assms(2) by (simp add: pool_clean_def)
qed

lemma delete_page_spec:
  assumes "pool_inv s" "pool_clean v X s" "p \<in> disk_in_use (pool_disk s)" "pool_pins s p = 0"
  obtains s' where "bpm_delete_page p s = (Inr True, s')" "pool_inv s'" "pool_clean v X s'"
    "pool_pins s' = pool_pins s" "\<And>q. q \<noteq> p \<Longrightarrow> pool_page s' q = pool_page s q"
    "page_table s' = (page_table s)(p := None)"
    "disk_in_use (pool_disk s') =
      (if length (free_list (pool_disk s)) \<le> 1024 then disk_in_use (pool_disk s) - {p} else disk_in_use (pool_disk s))"
    "length (free_list (pool_disk s')) \<le> Suc (length (free_list (pool_disk s)))" "pool_capacity s' = pool_capacity s"
proof -
  note inv = pool_invD[OF assms(1)]
  obtain d where d: "dm_deallocate_page p (pool_disk s) = (Inr (), d)" "disk_inv d" "disk_file d = disk_file (pool_disk s)"
    "disk_in_use d = (if length (free_list (pool_disk s)) \<le> 1024 then disk_in_use (pool_disk s) - {p} else disk_in_use (pool_disk s))"
    "disk_capacity d = disk_capacity (pool_disk s)" "disk_hdr d = disk_hdr (pool_disk s)"
    "length (free_list d) \<le> Suc (length (free_list (pool_disk s)))"
    by (rule deallocate_in_use[OF inv(2) assms(3)], rule that)
  obtain t where t: "bpm_delete_page p s = (Inr True, t\<lparr>pool_disk := d\<rparr>)" "pool_ok t" "pool_clean v X t" "pool_pins t = pool_pins s"
    "\<And>q. q \<noteq> p \<Longrightarrow> pool_page t q = pool_page s q" "page_table t = (page_table s)(p := None)" "pool_disk t = pool_disk s"
    "pool_capacity t = pool_capacity s"
  proof (cases "page_table s p")
    case None
    then have "bpm_delete_page p s = (Inr True, s\<lparr>pool_disk := d\<rparr>)"
      using d(1) by (simp add: bpm_delete_page_def bind_op_def on_disk_def ret_op_def)
    moreover have "(page_table s)(p := None) = page_table s" using None by auto
    ultimately show ?thesis using that[of s] assms(2) inv(1) by simp
  next
    case (Some f)
    define pg where "pg = page_reset_memory INVALID_PAGE_ID (frames s ! unat f)"
    have pg: "p_page_id pg = INVALID_PAGE_ID" "\<not> p_is_dirty pg" "length (p_data pg) = kPAGE_SIZE"
      by (simp_all add: pg_def page_reset_memory_def)
    have "p_pin_count (frames s ! unat f) = 0" using assms(4) Some by (simp add: pool_pins_def unat_eq_0)
    moreover define t where "t = s\<lparr>page_table := (page_table s)(p := None),
        pool_replacer := rp_remove p (pool_replacer s), frames := (frames s)[unat f := pg],
        free_frames_list := free_frames_list s @ [f]\<rparr>"
    ultimately have run: "bpm_delete_page p s = (Inr True, t\<lparr>pool_disk := d\<rparr>)"
      using d(1) Some cached_frame(6)[OF inv(1) Some]
      by (simp add: bpm_delete_page_def bind_op_def modify_op_def on_disk_def ret_op_def put_frame_def pg_def t_def)
    show ?thesis
      by (rule that[of t]) (rule run delete_core[OF inv(1) assms(2) Some assms(4) pg, folded t_def] | assumption | simp add: t_def)+
  qed
  have e: "disk_page d = disk_page (pool_disk t)" "disk_ok d" "disk_capacity d = disk_capacity (pool_disk t)"
    using disk_file_page[OF d(3)] d(5) t(7) pool_okD(7)[OF inv(1)] by simp_all
  note c = change_disk(1-3)[OF t(2) e] change_disk(4)[OF t(2) e, of v X]
  have "dom (page_table t) \<subseteq> disk_in_use d" using t(6) inv(3) d(4) by auto
  then have "pool_inv (t\<lparr>pool_disk := d\<rparr>)" using c(1) d(2) by (simp add: pool_inv_def)
  then show ?thesis
    using that[OF t(1)] c t d by simp
qed

section \<open>Writing everything back\<close>

definition dirty_frames :: "page list \<Rightarrow> nat \<Rightarrow> nat \<Rightarrow> (page_id \<times> byte list) list" where
  "dirty_frames fs i n = map (\<lambda>j. (p_page_id (fs ! j), p_data (fs ! j))) (filter (\<lambda>j. p_is_dirty (fs ! j)) [i..<i + n])"

lemma flush_from_eq:
  "i + n \<le> length (frames s) \<Longrightarrow> length (frames s) < 2 ^ 32 \<Longrightarrow>
    bpm_flush_from i n s = on_disk (dev_write_all dm_write_page (dirty_frames (frames s) i n)) s"
proof (induction n arbitrary: i s)
  case 0
  then show ?case by (simp add: dirty_frames_def ret_op_def on_disk_def)
next
  case (Suc n)
  have u: "unat (of_nat i :: frame_id) = i" using Suc.prems by (intro unat_of_nat32) simp
  have fr: "frame_op (of_nat i) s = (Inr (frames s ! i), s)" using Suc.prems u by (simp add: frame_op_def)
  have up: "[i..<i + Suc n] = i # [Suc i..<Suc i + n]" by (simp add: upt_conv_Cons del: upt_Suc)
  have IH: "bpm_flush_from (Suc i) n (s\<lparr>pool_disk := d\<rparr>) =
      on_disk (dev_write_all dm_write_page (dirty_frames (frames s) (Suc i) n)) (s\<lparr>pool_disk := d\<rparr>)" for d
    using Suc.IH[of "Suc i" "s\<lparr>pool_disk := d\<rparr>"] Suc.prems by simp
  show ?case
  proof (cases "p_is_dirty (frames s ! i)")
    case True
    have df: "dirty_frames (frames s) i (Suc n) =
        (p_page_id (frames s ! i), p_data (frames s ! i)) # dirty_frames (frames s) (Suc i) n"
      unfolding dirty_frames_def up using True by simp
    show ?thesis
      using IH True fr
      by (simp add: df bind_op_def bpm_flush_page_def on_disk_def split: prod.split sum.split)
  next
    case False
    have df: "dirty_frames (frames s) i (Suc n) = dirty_frames (frames s) (Suc i) n"
      unfolding dirty_frames_def up using False by simp
    have "bpm_flush_from (Suc i) n s = on_disk (dev_write_all dm_write_page (dirty_frames (frames s) (Suc i) n)) s"
      using Suc.IH[of "Suc i" s] Suc.prems by simp
    then show ?thesis using False fr by (simp add: df bind_op_def ret_op_def)
  qed
qed

lemma dirty_cached:
  assumes "pool_ok s" "i < length (frames s)" "p_is_dirty (frames s ! i)"
  shows "\<exists>f. page_table s (p_page_id (frames s ! i)) = Some f \<and> unat f = i"
  using frames_okD(6)[OF pool_okD(3)[OF assms(1)] assms(2)] table_okD(4)[OF pool_okD(4)[OF assms(1)] assms(2)] assms(3)
  by auto

lemma write_page_meta:
  "dm_write_page p bs d = (r, e) \<Longrightarrow> free_list e = free_list d \<and> disk_hdr e = disk_hdr d"
  by (auto simp: dm_write_page_def Let_def split: if_splits prod.splits)

lemma write_all_meta:
  "dev_write_all dm_write_page xs d = (r, e) \<Longrightarrow> free_list e = free_list d \<and> disk_hdr e = disk_hdr d"
proof (induction xs arbitrary: d)
  case Nil
  then show ?case by (simp add: ret_op_def)
next
  case (Cons x xs)
  then show ?case
    by (auto simp: bind_op_def split: prod.splits sum.splits dest!: write_page_meta)
qed

lemma pool_flush_all_spec:
  assumes "pool_ok s"
  obtains d where "bpm_flush_all s = (Inr (), s\<lparr>pool_disk := d\<rparr>)" "disk_ok d"
    "disk_capacity d = disk_capacity (pool_disk s)" "free_list d = free_list (pool_disk s)" "disk_hdr d = disk_hdr (pool_disk s)"
    "\<And>q. disk_page d q = (case page_table s q of
        Some f \<Rightarrow> if p_is_dirty (frames s ! unat f) then p_data (frames s ! unat f) else disk_page (pool_disk s) q
      | None \<Rightarrow> disk_page (pool_disk s) q)"
proof -
  note ok = pool_okD[OF assms]
  define xs where "xs = dirty_frames (frames s) 0 (pool_size s)"
  have n: "pool_size s \<le> length (frames s)" using frames_okD(1)[OF ok(3)] .
  have mem: "(p, bs) \<in> set xs \<longleftrightarrow>
      (\<exists>f. page_table s p = Some f \<and> p_is_dirty (frames s ! unat f) \<and> bs = p_data (frames s ! unat f))" for p bs
  proof
    assume "(p, bs) \<in> set xs"
    then obtain j where j: "j < pool_size s" "p_is_dirty (frames s ! j)" "p = p_page_id (frames s ! j)" "bs = p_data (frames s ! j)"
      by (auto simp: xs_def dirty_frames_def)
    with dirty_cached[OF assms, of j] n show "\<exists>f. page_table s p = Some f \<and> p_is_dirty (frames s ! unat f) \<and> bs = p_data (frames s ! unat f)"
      by auto
  next
    assume "\<exists>f. page_table s p = Some f \<and> p_is_dirty (frames s ! unat f) \<and> bs = p_data (frames s ! unat f)"
    then show "(p, bs) \<in> set xs"
      using cached_frame(2,3)[OF assms] by (force simp: xs_def dirty_frames_def)
  qed
  have inj: "inj_on (\<lambda>j. p_page_id (frames s ! j)) {j. j < pool_size s \<and> p_is_dirty (frames s ! j)}"
  proof (rule inj_onI, clarify)
    fix x y
    assume a: "p_page_id (frames s ! x) = p_page_id (frames s ! y)" "x < pool_size s" "p_is_dirty (frames s ! x)"
      "y < pool_size s" "p_is_dirty (frames s ! y)"
    from a n have xy: "x < length (frames s)" "y < length (frames s)" by linarith+
    obtain f where f: "page_table s (p_page_id (frames s ! x)) = Some f" "unat f = x"
      using dirty_cached[OF assms xy(1) a(3)] by blast
    obtain g where g: "page_table s (p_page_id (frames s ! y)) = Some g" "unat g = y"
      using dirty_cached[OF assms xy(2) a(5)] by blast
    have "f = g" using f(1) g(1) unfolding a(1) by simp
    then show "x = y" using f(2) g(2) by simp
  qed
  have dist: "distinct (map fst xs)"
    using inj by (auto simp: xs_def dirty_frames_def comp_def distinct_map inj_on_def)
  have pre: "p < disk_capacity (pool_disk s) \<and> length bs = kPAGE_SIZE" if "(p, bs) \<in> set xs" for p bs
    using that mem cached_frame(4,5)[OF assms] by auto
  obtain d where d: "dev_write_all dm_write_page xs (pool_disk s) = (Inr (), d)" "disk_ok d"
    "disk_capacity d = disk_capacity (pool_disk s)"
    "\<forall>q. disk_page d q = (case map_of xs q of None \<Rightarrow> disk_page (pool_disk s) q | Some bs \<Rightarrow> bs)"
    using dm.write_all[OF ok(7) pre dist] by blast
  have "bpm_flush_all s = (Inr (), s\<lparr>pool_disk := d\<rparr>)"
    using flush_from_eq[of 0 "pool_size s" s] n ok(1,2) d(1)
    by (simp add: bpm_flush_all_def bind_op_def get_op_def on_disk_def xs_def)
  moreover have "disk_page d q = (case page_table s q of
        Some f \<Rightarrow> if p_is_dirty (frames s ! unat f) then p_data (frames s ! unat f) else disk_page (pool_disk s) q
      | None \<Rightarrow> disk_page (pool_disk s) q)" for q
  proof (cases "map_of xs q")
    case None
    then have "\<nexists>bs. (q, bs) \<in> set xs" by (auto simp: map_of_eq_None_iff image_iff)
    with None d(4) mem show ?thesis by (auto split: option.split)
  next
    case (Some bs)
    then have "(q, bs) \<in> set xs" by (rule map_of_SomeD)
    with Some d(4) mem show ?thesis by auto
  qed
  ultimately show ?thesis using that d(2,3) write_all_meta[OF d(1)] by blast
qed

end
