(* ===== verification/Buffer_Spec.thy ===== *)
theory Buffer_Spec
  imports Buffer_Laws
begin

text \<open>
  Properties of the replacer and the buffer pool, on pools in the state the constructor gives and
  those reached from it. The abstract view is the pair of the contents of all pages and the pin
  counts: caching, eviction and write-back do not show in it.
\<close>

section \<open>A new pool\<close>

lemma initial_pool:
  assumes "disk_ok d" "disk_inv d" "n < 2 ^ 32"
  shows "pool_inv (bpm_initial d n)" "pool_page (bpm_initial d n) = disk_page d"
    "pool_pins (bpm_initial d n) = (\<lambda>_. 0)" "pool_clean v {} (bpm_initial d n)"
proof -
  have fs: "frames (bpm_initial d n) = replicate n page_default" by (simp add: bpm_initial_def)
  have "frames_ok (replicate n page_default) 0 [] {}" by (auto simp: frames_ok_def page_default_def)
  moreover have "table_ok (replicate n page_default) Map.empty 0 c" for c
    by (auto simp: table_ok_def page_default_def)
  ultimately have "pool_ok (bpm_initial d n)"
    using assms rp_initial_inv by (simp add: pool_ok_def bpm_initial_def)
  then show "pool_inv (bpm_initial d n)"
    using assms by (simp add: pool_inv_def bpm_initial_def)
  show "pool_page (bpm_initial d n) = disk_page d" "pool_pins (bpm_initial d n) = (\<lambda>_. 0)"
    "pool_clean v {} (bpm_initial d n)"
    by (auto simp: pool_page_def pool_pins_def pool_clean_def bpm_initial_def)
qed

definition small_disk :: disk where
  \<comment> \<open>pages 1 and 2 in use\<close>
  "small_disk = (dm_initial empty_file)\<lparr>disk_capacity := 3\<rparr>"

lemma small_disk:
  "disk_ok small_disk" "disk_inv small_disk" "disk_in_use small_disk = {1, 2}" "disk_capacity small_disk = 3"
  "free_list small_disk = []"
proof -
  show "disk_ok small_disk" "disk_inv small_disk" "disk_capacity small_disk = 3" "free_list small_disk = []"
    by (simp_all add: small_disk_def disk_ok_def disk_inv_def file_ok_def dm_initial_def empty_file_def kPAGE_SIZE_def)
  have "0 < p \<and> p < 3 \<longleftrightarrow> p = 1 \<or> p = 2" for p :: page_id
    unfolding word_less_nat_alt word_unat_eq_iff by auto
  then show "disk_in_use small_disk = {1, 2}"
    by (auto simp: disk_in_use_def small_disk_def dm_initial_def)
qed

definition small_pool :: pool where
  "small_pool = bpm_initial small_disk 2"

lemma small_pool:
  "pool_inv small_pool" "pool_page small_pool = disk_page small_disk" "pool_pins small_pool = (\<lambda>_. 0)"
  "pool_clean v {} small_pool" "pool_disk small_pool = small_disk" "page_table small_pool = Map.empty"
  "\<not> pool_full small_pool"
  unfolding small_pool_def
  using initial_pool[OF small_disk(1,2), of 2] by (simp_all add: bpm_initial_def pool_full_def)

section \<open>Properties\<close>

text \<open>
  C27: the replacer is least-recently-used. After any sequence of accesses \<open>find_lru\<close> returns the first
  page, in the order of their last accesses, that is cached in an unpinned frame, and the invalid
  identifier when there is none.
\<close>

theorem find_lru_least_recently_used:
  assumes "\<And>p f. pt p = Some f \<Longrightarrow> unat f < length fs"
  shows "rp_find_lru fs pt (fold rp_record ps rp_initial) =
    Inr (case find (victim fs pt) (remdups ps) of None \<Rightarrow> INVALID_PAGE_ID | Some p \<Rightarrow> p)"
  using rp.rec_all[OF rp_initial_inv(1), of ps] rp_initial_inv(2) find_lru_eq[OF assms, of pt]
  by simp

theorem find_lru_least_recently_used_witness:
  "rp_find_lru [page_default, page_default] [4 \<mapsto> 0, 5 \<mapsto> 1] (fold rp_record [4, 5, 4] rp_initial) = Inr 5"
  by (subst find_lru_least_recently_used)
    (auto simp: victim_def page_default_def split: if_splits)

text \<open>
  C17: fetching. Fetching a page in use either returns no frame, and then every frame is in use and
  pinned and nothing changed, or pins the page once more in a frame that holds its contents; in
  both cases every page has the contents it had, whatever was evicted or read, and the invariant of the pool holds.
\<close>

theorem fetch_page_keeps_contents:
  assumes "pool_inv s" "pool_clean id {} s" "p \<in> disk_in_use (pool_disk s)" "pool_pins s p < 2 ^ 32 - 1"
  shows "(bpm_fetch_page p s = (Inr None, s) \<and> pool_full s) \<or>
    (\<exists>f s'. bpm_fetch_page p s = (Inr (Some f), s') \<and> pool_inv s' \<and> pool_clean id {} s' \<and>
      fst (pinned_data (Some f) s') = Inr (pool_page s p) \<and> pool_page s' = pool_page s \<and>
      pool_pins s' = (pool_pins s)(p := Suc (pool_pins s p)))"
proof -
  note inv = pool_invD[OF assms(1)]
  show ?thesis
  proof (rule fetch_page_spec[OF inv(1) assms(2) in_use_capacity[OF assms(3)] assms(4)])
    fix f s'
    assume a: "bpm_fetch_page p s = (Inr (Some f), s')" "pool_ok s'" "page_table s' p = Some f"
    "pool_page s' p = pool_page s p" "pool_clean id {} s'" "pool_pins s' = (pool_pins s)(p := Suc (pool_pins s p))"
    "pool_keeps id {} s s'" "disk_capacity (pool_disk s') = disk_capacity (pool_disk s)"
    "free_list (pool_disk s') = free_list (pool_disk s)" "dom (page_table s') \<subseteq> insert p (dom (page_table s))"
    have "pool_inv s'"
      using a(2,10) in_use_cong[OF a(8,9)] inv(2,3) assms(3) by (auto simp: pool_inv_def)
    moreover have "pool_page s' = pool_page s" using a(7) by (auto simp: pool_keeps_def)
    moreover have "fst (pinned_data (Some f) s') = Inr (pool_page s' p)"
      using cached_frame(6)[OF a(2,3)] a(3) by (simp add: pinned_data_def bind_op_def ret_op_def pool_page_def)
    ultimately show ?thesis using a(1,5,6) by auto
  qed simp
qed

theorem fetch_page_keeps_contents_witness:
  "\<exists>f s'. bpm_fetch_page 2 small_pool = (Inr (Some f), s') \<and> pool_page s' = disk_page small_disk \<and> pool_pins s' 2 = 1"
  using fetch_page_keeps_contents[OF small_pool(1,4), of 2] small_pool(2,3,5,7) small_disk by auto

text \<open>
  Creating and deleting pages. A new page comes from outside the pages in use, is zeroed, pinned
  once, and becomes one of them; deleting an unpinned page takes it out of use (or leaks it when the
  free list is full) and deleting a pinned one is refused. No other page changes.
\<close>

theorem new_page_delete_page:
  assumes "pool_inv s" "pool_clean id {} s" "\<not> pool_full s"
    "free_list (pool_disk s) \<noteq> [] \<or> disk_capacity (pool_disk s) < INVALID_PAGE_ID"
  shows "\<exists>p f s'. bpm_new_page s = (Inr (Some f), s') \<and> p \<notin> disk_in_use (pool_disk s) \<and> pool_inv s' \<and>
    disk_in_use (pool_disk s') = insert p (disk_in_use (pool_disk s)) \<and>
    pool_page s' = (pool_page s)(p := replicate kPAGE_SIZE 0) \<and> pool_pins s' = (pool_pins s)(p := 1) \<and>
    bpm_delete_page p s' = (Inr False, s') \<and>
    (\<exists>s2. bind_op (bpm_unpin_page p True) (\<lambda>_. bpm_delete_page p) s' = (Inr True, s2) \<and> pool_inv s2 \<and>
      (\<forall>q. q \<noteq> p \<longrightarrow> pool_page s2 q = pool_page s q) \<and> pool_pins s2 = (pool_pins s)(p := 0) \<and>
      (length (free_list (pool_disk s')) \<le> 1024 \<longrightarrow> disk_in_use (pool_disk s2) = disk_in_use (pool_disk s)))"
proof (rule new_page_spec[OF assms(1,2,4)])
  fix p f s'
  assume a: "bpm_new_page s = (Inr (Some f), s')" "p \<notin> disk_in_use (pool_disk s)" "0 < p" "pool_inv s'"
    "disk_in_use (pool_disk s') = insert p (disk_in_use (pool_disk s))"
    "page_table s' p = Some f" "pool_page s' p = replicate kPAGE_SIZE 0" "pool_clean id (insert p {}) s'"
    "pool_pins s' = (pool_pins s)(p := 1)" "pool_keeps id {p} s s'"
  note inv = pool_invD[OF a(4)]
  have pp: "pool_page s' = (pool_page s)(p := replicate kPAGE_SIZE 0)"
    using a(7,10) by (auto simp: pool_keeps_def)
  have pin: "0 < pool_pins s' p" using a(9) by simp
  obtain t where t: "bpm_unpin_page p True s' = (Inr (), t)" "pool_ok t" "page_table t = page_table s'"
    "pool_page t = pool_page s'" "pool_pins t = (pool_pins s')(p := pool_pins s' p - 1)"
    "pool_clean id (insert p {} - {p}) t" "pool_disk t = pool_disk s'"
    by (rule unpin_spec[OF inv(1) a(6) pin a(8), where dirty = True], simp, rule that)
  have tinv: "pool_inv t" using t(2,3,7) a(4) by (simp add: pool_inv_def)
  have tc: "pool_clean id {} t" using t(6) by simp
  have tp: "p \<in> disk_in_use (pool_disk t)" using t(7) a(5) by simp
  have tz: "pool_pins t p = 0" using t(5) a(9) by simp
  obtain u where u: "bpm_delete_page p t = (Inr True, u)" "pool_inv u" "pool_clean id {} u"
    "pool_pins u = pool_pins t" "\<And>q. q \<noteq> p \<Longrightarrow> pool_page u q = pool_page t q"
    "page_table u = (page_table t)(p := None)"
    "disk_in_use (pool_disk u) =
      (if length (free_list (pool_disk t)) \<le> 1024 then disk_in_use (pool_disk t) - {p} else disk_in_use (pool_disk t))"
    by (rule delete_page_spec[OF tinv tc tp tz], rule that)
  have "bind_op (bpm_unpin_page p True) (\<lambda>_. bpm_delete_page p) s' = (Inr True, u)"
    using t(1) u(1) by (simp add: bind_op_def)
  moreover have "length (free_list (pool_disk s')) \<le> 1024 \<Longrightarrow> disk_in_use (pool_disk u) = disk_in_use (pool_disk s)"
    using u(7) t(7) a(2,5) by auto
  moreover have "pool_pins u = (pool_pins s)(p := 0)" using u(4) t(5) a(9) by simp
  moreover have "\<forall>q. q \<noteq> p \<longrightarrow> pool_page u q = pool_page s q" using u(5) t(4) pp by simp
  moreover have "bpm_delete_page p s' = (Inr False, s')" by (rule delete_pinned[OF inv(1) pin])
  ultimately show ?thesis using a(1,2,4,5,9) pp u(2) by blast
qed (use assms(3) in blast)

theorem new_page_delete_page_witness:
  "\<exists>p f s'. bpm_new_page small_pool = (Inr (Some f), s') \<and> disk_in_use (pool_disk s') = insert p {1, 2} \<and>
     pool_pins s' p = 1"
  using new_page_delete_page[OF small_pool(1,4,7)] small_pool(2,3,5) small_disk(3-5)
  by (auto simp: INVALID_PAGE_ID_def)

lemma initial_page: "pool_page (bpm_initial d n) p = disk_page d p"
  by (simp add: pool_page_def bpm_initial_def)

lemma shutdown_pages:
  assumes "pool_inv s" "pool_clean v {} s"
    "hdr_magic (disk_hdr (pool_disk s)) = kDB_MAGIC" "hdr_version (disk_hdr (pool_disk s)) = kDB_FORMAT_VERSION"
    "kPAGE_SIZE \<le> length (contents (disk_file (pool_disk (snd (bpm_flush_all s)))))"
  obtains s' d' where "bpm_flush_all s = (Inr (), s')" "dm_open (Some (dm_close (pool_disk s'))) = Inr d'"
    "disk_in_use d' = disk_in_use (pool_disk s)" "\<And>p. p \<noteq> 0 \<Longrightarrow> v (disk_page d' p) = v (pool_page s p)"
    "disk_ok d'" "disk_inv d'" "disk_capacity d' = disk_capacity (pool_disk s)"
proof -
  note inv = pool_invD[OF assms(1)]
  obtain d where d: "bpm_flush_all s = (Inr (), s\<lparr>pool_disk := d\<rparr>)" "disk_ok d"
    "disk_capacity d = disk_capacity (pool_disk s)" "free_list d = free_list (pool_disk s)" "disk_hdr d = disk_hdr (pool_disk s)"
    "\<And>q. disk_page d q = (case page_table s q of
        Some f \<Rightarrow> if p_is_dirty (frames s ! unat f) then p_data (frames s ! unat f) else disk_page (pool_disk s) q
      | None \<Rightarrow> disk_page (pool_disk s) q)"
    by (rule pool_flush_all_spec[OF inv(1)], rule that)
  have pg: "v (disk_page d q) = v (pool_page s q)" for q
    using assms(2) d(6)[of q] by (auto simp: pool_page_def pool_clean_def split: option.split)
  have dinv: "disk_inv d" using in_use_cong[OF d(3,4)] inv(2) by simp
  obtain e where e: "dm_open (Some (dm_close d)) = Inr e" "disk_capacity e = disk_capacity d"
    "free_list e = free_list d" "\<forall>p. p \<noteq> 0 \<longrightarrow> disk_page e p = disk_page d p" "disk_ok e" "disk_inv e"
    using reopen_spec[OF d(2) dinv] assms(3-5) d(1,5) by auto
  have "disk_in_use e = disk_in_use (pool_disk s)"
    using in_use_cong[OF e(2,3)] in_use_cong[OF d(3,4)] by simp
  then show ?thesis by (intro that[of "s\<lparr>pool_disk := d\<rparr>" e]) (use d e pg in simp_all)
qed

text \<open>
  C18: durability. After a shutdown (the pool writes its dirty pages back, the disk manager closes the
  file) opening the file again shows, for every page, the contents the pool had, provided no page
  was changed without being marked dirty.
\<close>

theorem shutdown_keeps_pages:
  assumes "pool_inv s" "pool_clean id {} s"
    "hdr_magic (disk_hdr (pool_disk s)) = kDB_MAGIC" "hdr_version (disk_hdr (pool_disk s)) = kDB_FORMAT_VERSION"
    "kPAGE_SIZE \<le> length (contents (disk_file (pool_disk (snd (bpm_flush_all s)))))"
  shows "\<exists>s' d'. bpm_flush_all s = (Inr (), s') \<and> dm_open (Some (dm_close (pool_disk s'))) = Inr d' \<and>
    disk_in_use d' = disk_in_use (pool_disk s) \<and> (\<forall>p. p \<noteq> 0 \<longrightarrow> disk_page d' p = pool_page s p) \<and>
    (\<forall>p. p \<noteq> 0 \<longrightarrow> pool_page (bpm_initial d' n) p = pool_page s p)"
  by (rule shutdown_pages[OF assms]) (auto simp: initial_page)

theorem shutdown_keeps_pages_witness:
  "\<exists>s' d'. bpm_flush_all (bpm_initial (small_disk\<lparr>disk_file := empty_file\<lparr>contents := replicate 24576 7\<rparr>\<rparr>) 2) = (Inr (), s') \<and>
     dm_open (Some (dm_close (pool_disk s'))) = Inr d' \<and> disk_page d' 2 = replicate kPAGE_SIZE 7"
proof -
  define d where "d = small_disk\<lparr>disk_file := empty_file\<lparr>contents := replicate 24576 7\<rparr>\<rparr>"
  define s where "s = bpm_initial d 2"
  have d: "disk_ok d" "disk_inv d"
    using small_disk(1,2) by (simp_all add: d_def disk_ok_def file_ok_def disk_inv_def empty_file_def kPAGE_SIZE_def)
  have fl: "bpm_flush_all s = (Inr (), s)"
    by (simp add: s_def bpm_flush_all_def bind_op_def get_op_def bpm_initial_def ret_op_def)
  have i: "pool_inv s" "pool_page s = disk_page d" "pool_clean id {} s"
    using initial_pool[OF d, of 2] by (simp_all add: s_def)
  have "disk_page d 2 = replicate kPAGE_SIZE 7"
    by (simp add: d_def disk_page_def page_of_def kPAGE_SIZE_def)
  moreover have "hdr_magic (disk_hdr (pool_disk s)) = kDB_MAGIC" "hdr_version (disk_hdr (pool_disk s)) = kDB_FORMAT_VERSION"
    "kPAGE_SIZE \<le> length (contents (disk_file (pool_disk (snd (bpm_flush_all s)))))"
    unfolding fl
    by (simp_all add: s_def bpm_initial_def d_def small_disk_def dm_initial_def kPAGE_SIZE_def)
  ultimately show ?thesis
    using shutdown_keeps_pages[OF i(1,3), of 0] i(2) unfolding d_def[symmetric] s_def[symmetric] by fastforce
qed

text \<open>
  C26: updating. Fetching a page, writing it through the span and unpinning it as dirty changes that page
  and nothing else, and leaves the invariant and the pin counts as they were: the new contents are what every later
  fetch, eviction or shutdown sees.
\<close>

theorem update_page_spec:
  assumes "pool_inv s" "pool_clean id {} s" "p \<in> disk_in_use (pool_disk s)" "pool_pins s p < 2 ^ 32 - 1"
    "\<not> pool_full s" "length bs = kPAGE_SIZE"
  shows "\<exists>s'. bind_op (bpm_fetch_page p) (\<lambda>page. bind_op (write_data (the page) bs) (\<lambda>_. pinned_destroy page True)) s =
      (Inr (), s') \<and> pool_inv s' \<and> pool_clean id {} s' \<and> pool_page s' = (pool_page s)(p := bs) \<and>
    pool_pins s' = pool_pins s"
proof -
  note inv = pool_invD[OF assms(1)]
  show ?thesis
  proof (rule fetch_page_spec[OF inv(1) assms(2) in_use_capacity[OF assms(3)] assms(4)])
    fix f s1
    assume a: "bpm_fetch_page p s = (Inr (Some f), s1)" "pool_ok s1" "page_table s1 p = Some f"
      "pool_page s1 p = pool_page s p" "pool_clean id {} s1" "pool_pins s1 = (pool_pins s)(p := Suc (pool_pins s p))"
      "pool_keeps id {} s s1" "disk_capacity (pool_disk s1) = disk_capacity (pool_disk s)"
      "free_list (pool_disk s1) = free_list (pool_disk s)" "dom (page_table s1) \<subseteq> insert p (dom (page_table s))"
    have pin: "0 < pool_pins s1 p" using a(6) by simp
    obtain s2 where b: "write_data f bs s1 = (Inr (), s2)" "pool_ok s2" "page_table s2 = page_table s1"
      "pool_page s2 = (pool_page s1)(p := bs)" "pool_pins s2 = pool_pins s1"
      "pool_clean id (if id bs = id (pool_page s1 p) then {} else insert p {}) s2" "pool_disk s2 = pool_disk s1"
      by (rule write_data_spec[OF a(2,3) pin a(5) assms(6)], rule that)
    have f2: "page_table s2 p = Some f" and pin2: "0 < pool_pins s2 p" using a(3) b(3,5) pin by simp_all
    obtain s3 where c: "bpm_unpin_page p True s2 = (Inr (), s3)" "pool_ok s3" "page_table s3 = page_table s2"
      "pool_page s3 = pool_page s2" "pool_pins s3 = (pool_pins s2)(p := pool_pins s2 p - 1)"
      "pool_clean id ((if id bs = id (pool_page s1 p) then {} else insert p {}) - {p}) s3"
      "pool_disk s3 = pool_disk s2"
      by (rule unpin_spec[OF b(2) f2 pin2 b(6), where dirty = True], simp, rule that)
    have run: "bind_op (bpm_fetch_page p) (\<lambda>page. bind_op (write_data (the page) bs) (\<lambda>_. pinned_destroy page True)) s = (Inr (), s3)"
      using a(1) b(1) c(1) cached_frame(3,6)[OF b(2) f2]
      by (simp add: bind_op_def pinned_destroy_def)
    have e: "(if id bs = id (pool_page s1 p) then {} else insert p {}) - {p} = {}" by simp
    have "pool_inv s3"
      using c(2,3,7) b(3,7) a(10) in_use_cong[OF a(8,9)] inv(2,3) assms(3) by (auto simp: pool_inv_def)
    moreover have "pool_page s3 = (pool_page s)(p := bs)"
      using c(4) b(4) a(7) by (auto simp: pool_keeps_def)
    moreover have "pool_pins s3 = pool_pins s" using c(5) b(5) a(6) by simp
    ultimately show ?thesis using run c(6) unfolding e by blast
  qed (use assms(5) in blast)
qed

theorem update_page_spec_witness:
  "\<exists>s'. bind_op (bpm_fetch_page 2) (\<lambda>page. bind_op (write_data (the page) (replicate kPAGE_SIZE 5))
      (\<lambda>_. pinned_destroy page True)) small_pool = (Inr (), s') \<and>
     pool_page s' = (disk_page small_disk)(2 := replicate kPAGE_SIZE 5)"
  using update_page_spec[OF small_pool(1,4), of 2 "replicate kPAGE_SIZE 5"] small_pool(2,3,5,7) small_disk(3)
  by auto

text \<open>
  A page that is not allocated. The first fetch throws, but it leaves the page in the page table:
  the second fetch returns a zeroed page instead of throwing.
\<close>

theorem fetch_unallocated_twice:
  assumes "disk_capacity d \<le> p" "p \<noteq> INVALID_PAGE_ID" "0 < n" "n < 2 ^ 32"
  shows "\<exists>m s f s'. bpm_fetch_page p (bpm_initial d n) = (Inl (Runtime_Error m), s) \<and>
    bpm_fetch_page p s = (Inr (Some f), s') \<and> fst (pinned_data (Some f) s') = Inr (replicate kPAGE_SIZE 0)"
proof -
  obtain m where m: "\<And>bs. dm_read_page p bs d = (Inl (Runtime_Error m), d)"
    using assms(1) by (simp add: dm_read_page_def)
  obtain k where n: "n = Suc k" using assms(3) gr0_implies_Suc by blast
  define fr where "fr = \<lparr>p_page_id = p, p_data = replicate kPAGE_SIZE 0, p_pin_count = 1, p_is_dirty = False\<rparr>"
  define s where "s = (bpm_initial d n)\<lparr>pool_size := 1, page_table := [p \<mapsto> 0],
    frames := fr # replicate k page_default, pool_replacer := rp_record p rp_initial\<rparr>"
  have inv: "(0 :: frame_id) \<noteq> INVALID_FRAME_ID" by (simp add: INVALID_FRAME_ID_def)
  have fe: "bpm_fetch_page p (bpm_initial d n) = (Inl (Runtime_Error m), s)"
    using inv by (simp add: bpm_fetch_page_def bpm_find_cached_page_def bpm_swap_page_def bpm_find_next_frame_def
        bind_op_def modify_op_def frame_op_def on_disk_def m ret_op_def put_frame_def fresh_frame
        bpm_initial_def n s_def fr_def page_default_def)
  have "\<exists>s'. bpm_fetch_page p s = (Inr (Some 0), s') \<and> fst (pinned_data (Some 0) s') = Inr (replicate kPAGE_SIZE 0)"
    by (simp add: bpm_fetch_page_def bpm_find_cached_page_def bind_op_def modify_op_def frame_op_def ret_op_def
        put_frame_def pinned_data_def page_inc_pin_count_def s_def fr_def bpm_initial_def)
  with fe show ?thesis by blast
qed

theorem fetch_unallocated_twice_witness:
  "\<exists>m s f s'. bpm_fetch_page 9 (bpm_initial small_disk 4) = (Inl (Runtime_Error m), s) \<and>
    bpm_fetch_page 9 s = (Inr (Some f), s') \<and> fst (pinned_data (Some f) s') = Inr (replicate kPAGE_SIZE 0)"
  by (rule fetch_unallocated_twice) (simp_all add: small_disk INVALID_PAGE_ID_def)

text \<open>
  Unpinning a page that nobody pins wraps its pin count around, and the page can never be evicted.
\<close>

lemma unpin_underflow:
  assumes "page_table s p = Some f" "unat f < length (frames s)" "p_pin_count (frames s ! unat f) = 0"
  shows "\<exists>s'. bpm_unpin_page p False s = (Inr (), s') \<and> p_pin_count (frames s' ! unat f) = 2 ^ 32 - 1 \<and>
    \<not> victim (frames s') (page_table s') p"
  using assms by (simp add: bpm_unpin_page_def bind_op_def frame_op_def modify_op_def put_frame_def
      page_dec_pin_count_def victim_def)

text \<open>
  A write through a page that is unpinned without being marked dirty is lost when the frame is reused:
  here, on a pool of one frame.
\<close>

lemma unmarked_write_lost:
  assumes "disk_ok d" "p < disk_capacity d" "q < disk_capacity d" "p \<noteq> q" "length bs = kPAGE_SIZE"
  shows "\<exists>s f s'. bind_op (bpm_fetch_page p) (\<lambda>page. bind_op (write_data (the page) bs) (\<lambda>_. pinned_destroy page False))
      (bpm_initial d 1) = (Inr (), s) \<and>
    bind_op (bpm_fetch_page q) (\<lambda>page. bind_op (pinned_destroy page False) (\<lambda>_. bpm_fetch_page p)) s = (Inr (Some f), s') \<and>
    fst (pinned_data (Some f) s') = Inr (disk_page d p)"
proof -
  have rd: "dm_read_page r zs d = (Inr (disk_page d r), d)" if "length zs = kPAGE_SIZE" "r < disk_capacity d" for r zs
    using read_page_eq[OF assms(1) that(2), of zs] that(1) by simp
  have inv: "(0 :: frame_id) \<noteq> INVALID_FRAME_ID" by (simp add: INVALID_FRAME_ID_def)
  have pv: "p \<noteq> INVALID_PAGE_ID" "q \<noteq> INVALID_PAGE_ID" using assms(2,3) by (auto dest: not_invalid)
  define fr where "fr r b n = \<lparr>p_page_id = r, p_data = b, p_pin_count = n, p_is_dirty = False\<rparr>" for r b and n :: u32
  define st where "st r b n rp = (bpm_initial d 1)\<lparr>pool_size := 1, page_table := [r \<mapsto> 0], frames := [fr r b n],
    pool_replacer := rp\<rparr>" for r b n rp
  have f0: "bpm_fetch_page p (bpm_initial d 1) = (Inr (Some 0), st p (disk_page d p) 1 (rp_record p rp_initial))"
    using inv assms(2) by (simp add: bpm_fetch_page_def bpm_find_cached_page_def bpm_swap_page_def bpm_find_next_frame_def
        bind_op_def modify_op_def frame_op_def on_disk_def rd ret_op_def put_frame_def fresh_frame
        bpm_initial_def st_def fr_def page_default_def)
  have w0: "write_data 0 bs (st p b n rp) = (Inr (), st p bs n rp)" for b n rp
    by (simp add: write_data_def bind_op_def frame_op_def modify_op_def put_frame_def st_def fr_def)
  have u0: "pinned_destroy (Some 0) False (st r b n rp) = (Inr (), st r b (n - 1) rp)" for r b n rp
    by (simp add: pinned_destroy_def bind_op_def frame_op_def bpm_unpin_page_def modify_op_def put_frame_def
        page_dec_pin_count_def st_def fr_def)
  have sw: "\<exists>rp'. bpm_fetch_page r' (st r b 0 rp) = (Inr (Some 0), st r' (disk_page d r') 1 rp') \<and> rp_inv rp' \<and> rp_order rp' = [r']"
    if "r' \<noteq> r" "r' < disk_capacity d" "r \<noteq> INVALID_PAGE_ID" "rp_inv rp" "rp_order rp = [r]" for r r' b rp
  proof -
    have ix: "unat g < length [fr r b 0]" if "[r \<mapsto> 0] x = Some g" for x and g :: frame_id
      using that by (simp split: if_splits)
    have v: "rp_find_lru [fr r b 0] [r \<mapsto> 0] rp = Inr r"
      using find_lru_eq[of "[r \<mapsto> 0]" "[fr r b 0]" rp, OF ix] that(5) by (simp add: victim_def fr_def)
    have i1: "rp_inv (rp_remove r rp)" "rp_order (rp_remove r rp) = []"
      using rp.rem_inv[OF that(4)] rp.rem_order[OF that(4), of r] that(5) by simp_all
    have i2: "rp_inv (rp_record r' (rp_remove r rp))" "rp_order (rp_record r' (rp_remove r rp)) = [r']"
      using rp.rec_inv[OF i1(1)] rp.rec_order[OF i1(1), of r'] i1(2) by simp_all
    have "bpm_fetch_page r' (st r b 0 rp) =
        (Inr (Some 0), st r' (disk_page d r') 1 (rp_record r' (rp_remove r rp)))"
      using that(1-3) v inv by (simp add: bpm_fetch_page_def bpm_find_cached_page_def bpm_swap_page_def bpm_find_next_frame_def
        bind_op_def modify_op_def frame_op_def on_disk_def rd ret_op_def put_frame_def fresh_frame
        bpm_initial_def st_def fr_def)
    with i2 show ?thesis by blast
  qed
  note i0 = rp.rec_inv[OF rp_initial_inv(1), of p] rp.rec_order[OF rp_initial_inv(1), of p]
  have o0: "rp_order (rp_record p rp_initial) = [p]" using i0(2) rp_initial_inv(2) by simp
  obtain r1 where r1: "bpm_fetch_page q (st p bs 0 (rp_record p rp_initial)) = (Inr (Some 0), st q (disk_page d q) 1 r1)"
    "rp_inv r1" "rp_order r1 = [q]"
    using sw[OF _ assms(3) pv(1) i0(1) o0] assms(4) by blast
  obtain r2 where r2: "bpm_fetch_page p (st q (disk_page d q) 0 r1) = (Inr (Some 0), st p (disk_page d p) 1 r2)"
    using sw[OF assms(4) assms(2) pv(2) r1(2,3)] by blast
  have "fst (pinned_data (Some 0) (st p (disk_page d p) 1 r2)) = Inr (disk_page d p)"
    by (simp add: pinned_data_def bind_op_def frame_op_def ret_op_def st_def fr_def)
  then show ?thesis
    using f0 w0 u0 r1(1) r2 by (intro exI[of _ "st p bs 0 (rp_record p rp_initial)"]) (simp add: bind_op_def)
qed

end
