(* ===== verification/Table_Heap.thy ===== *)
theory Table_Heap
  imports Buffer_Pool Slotted_Page_Spec
begin

text \<open>
  The table heap (\<open>src/table/table_heap.cpp\<close>): a chain of slotted pages in the buffer pool, and
  the cursor \<open>TableHeap::Scan\<close> over it.

  The loops follow the links of the pages and are given \<open>kCHAIN_FUEL\<close> steps, one for each page
  identifier there is: a chain without a cycle is shorter, and on a cyclic one the C++ loop does
  not end (\<open>Diverges\<close>). Where \<open>insert_tuple\<close> releases the latch of the page to allocate the next
  one, \<open>others\<close> stands for what other threads do before it is taken again.
\<close>

definition kCHAIN_FUEL :: nat where
  "kCHAIN_FUEL = 2 ^ 32"

definition MAX_TUPLE_SIZE :: nat where
  "MAX_TUPLE_SIZE = kPAGE_SIZE - sizeof_PageHeader - sizeof_Slot"

section \<open>Creating and inserting\<close>

definition heap_create :: "(pool, page_id) op" where
  "heap_create =
     bind_op bpm_new_page (\<lambda>page.
       case page of
         None \<Rightarrow> throw_op (Runtime_Error ''TableHeap: failed to create next page'')
       | Some f \<Rightarrow>
           with_pinned f
             (bind_op (page_update f (\<lambda>d. bind_res (sp_init d) (\<lambda>d'. Inr ((), d')))) (\<lambda>_.
              bind_op (pinned_page_id (Some f)) (\<lambda>p. ret_op (p, True)))))"

datatype insert_step =
    Insert_Done rid
  | Insert_Continue page_id bool

definition heap_link_new_page ::
  "(pool, unit) op \<Rightarrow> frame_id \<Rightarrow> (pool, insert_step \<times> bool) op" where
  \<comment> \<open>\<open>insert_tuple\<close> on the last page of the chain, once no new page has been created yet\<close>
  "heap_link_new_page others f =
     bind_op bpm_new_page (\<lambda>new_page.
       case new_page of
         None \<Rightarrow> throw_op (Runtime_Error ''TableHeap: failed to create next page'')
       | Some g \<Rightarrow>
           bind_op (with_pinned g
             (bind_op (page_update g (\<lambda>d. bind_res (sp_init d) (\<lambda>d'. Inr ((), d')))) (\<lambda>_. ret_op ((), True)))) (\<lambda>_.
           bind_op others (\<lambda>_.
           bind_op (page_read f sp_next_page) (\<lambda>next_id.
           bind_op (pinned_page_id (Some g)) (\<lambda>new_id.
             if next_id = INVALID_PAGE_ID then
               bind_op (page_update f (\<lambda>d. bind_res (sp_set_next_page d new_id) (\<lambda>d'. Inr ((), d')))) (\<lambda>_.
               bind_op (page_read f sp_next_page) (\<lambda>p. ret_op (Insert_Continue p True, True)))
             else
               bind_op (bpm_delete_page new_id) (\<lambda>_. ret_op (Insert_Continue next_id True, False)))))))"

definition heap_insert_page ::
  "(pool, unit) op \<Rightarrow> frame_id \<Rightarrow> bool \<Rightarrow> byte list \<Rightarrow> (pool, insert_step \<times> bool) op" where
  \<comment> \<open>the body of the loop of \<open>insert_tuple\<close>, with the page pinned in frame \<open>f\<close>\<close>
  "heap_insert_page others f created_new_page t =
     bind_op (page_update f (insert_or_compact (\<lambda>d. sp_insert_tuple d t None) sp_is_compacted sp_compact)) (\<lambda>r.
       case r of
         Some rid \<Rightarrow>
           bind_op (pinned_page_id (Some f)) (\<lambda>p. ret_op (Insert_Done (rid\<lparr>rid_page_id := p\<rparr>), True))
       | None \<Rightarrow>
           bind_op (page_read f sp_next_page) (\<lambda>next_id.
             if next_id \<noteq> INVALID_PAGE_ID then ret_op (Insert_Continue next_id created_new_page, False)
             else if created_new_page then
               throw_op (Runtime_Error ''TableHeap::insert_tuple: tuple failed to fit even on a freshly created page'')
             else heap_link_new_page others f))"

fun heap_insert_from ::
  "(pool, unit) op \<Rightarrow> nat \<Rightarrow> page_id \<Rightarrow> bool \<Rightarrow> byte list \<Rightarrow> (pool, rid option) op" where
  "heap_insert_from others 0 page_id created_new_page t = throw_op Diverges"
| "heap_insert_from others (Suc n) page_id created_new_page t =
     bind_op (bpm_fetch_page page_id) (\<lambda>page.
       case page of
         None \<Rightarrow> ret_op None
       | Some f \<Rightarrow>
           bind_op (with_pinned f (heap_insert_page others f created_new_page t)) (\<lambda>step.
             case step of
               Insert_Done rid \<Rightarrow> ret_op (Some rid)
             | Insert_Continue p created \<Rightarrow> heap_insert_from others n p created t))"

definition heap_insert_tuple :: "(pool, unit) op \<Rightarrow> page_id \<Rightarrow> byte list \<Rightarrow> (pool, rid option) op" where
  "heap_insert_tuple others first_page_id t =
     (if MAX_TUPLE_SIZE < length t
      then throw_op (Runtime_Error ''TableHeap::insert_tuple: tuple exceeds maximum page capacity'')
      else heap_insert_from others kCHAIN_FUEL first_page_id False t)"

section \<open>Reading, updating, deleting, restoring\<close>

definition heap_get_tuple :: "rid \<Rightarrow> (pool, byte list option) op" where
  "heap_get_tuple r =
     bind_op (bpm_fetch_page (rid_page_id r)) (\<lambda>page.
       case page of
         None \<Rightarrow> ret_op None
       | Some f \<Rightarrow>
           with_pinned f
             (bind_op (page_read f (\<lambda>d. sp_get_tuple d (rid_slot_num r))) (\<lambda>view.
              ret_op (if view = [] then None else Some view, False))))"

definition heap_reinsert :: "frame_id \<Rightarrow> rid \<Rightarrow> byte list \<Rightarrow> (pool, rid option) op" where
  \<comment> \<open>\<open>update_tuple\<close> once the old tuple is deleted: compact the page and insert at the same slot\<close>
  "heap_reinsert f r t =
     bind_op (page_read f sp_is_compacted) (\<lambda>compacted.
     bind_op (if compacted then ret_op ()
              else page_update f (\<lambda>d. bind_res (sp_compact d) (\<lambda>d'. Inr ((), d')))) (\<lambda>_.
     page_update f (\<lambda>d. sp_insert_tuple d t (Some (rid_slot_num r)))))"

datatype update_step =
    Update_Done "rid option"
  | Update_Elsewhere

definition heap_update_page :: "frame_id \<Rightarrow> rid \<Rightarrow> byte list \<Rightarrow> (pool, update_step \<times> bool) op" where
  "heap_update_page f r t =
     bind_op (page_read f (\<lambda>d. sp_has_slot d (rid_slot_num r))) (\<lambda>has.
       if \<not> has then ret_op (Update_Done None, False)
       else bind_op (page_update f (\<lambda>d. sp_try_update_in_place d r t)) (\<lambda>updated.
         if updated then ret_op (Update_Done (Some r), True)
         else bind_op (page_update f (\<lambda>d. sp_delete_tuple d (rid_slot_num r))) (\<lambda>deleted.
           if \<not> deleted then ret_op (Update_Done None, False)
           else bind_op (heap_reinsert f r t) (\<lambda>rid_opt.
             case rid_opt of
               Some x \<Rightarrow>
                 bind_op (pinned_page_id (Some f)) (\<lambda>p. ret_op (Update_Done (Some (x\<lparr>rid_page_id := p\<rparr>)), True))
             | None \<Rightarrow> ret_op (Update_Elsewhere, True)))))"

definition heap_update_tuple :: "(pool, unit) op \<Rightarrow> page_id \<Rightarrow> rid \<Rightarrow> byte list \<Rightarrow> (pool, rid option) op" where
  "heap_update_tuple others first_page_id r t =
     bind_op (bpm_fetch_page (rid_page_id r)) (\<lambda>page.
       case page of
         None \<Rightarrow> ret_op None
       | Some f \<Rightarrow>
           bind_op (with_pinned f (heap_update_page f r t)) (\<lambda>step.
             case step of
               Update_Done x \<Rightarrow> ret_op x
             | Update_Elsewhere \<Rightarrow> heap_insert_tuple others first_page_id t))"

definition heap_delete_tuple :: "rid \<Rightarrow> (pool, bool) op" where
  "heap_delete_tuple r =
     bind_op (bpm_fetch_page (rid_page_id r)) (\<lambda>page.
       case page of
         None \<Rightarrow> ret_op False
       | Some f \<Rightarrow>
           with_pinned f
             (bind_op (page_update f (\<lambda>d. sp_delete_tuple d (rid_slot_num r))) (\<lambda>deleted.
              ret_op (deleted, deleted))))"

definition heap_restore_tuple :: "rid \<Rightarrow> byte list \<Rightarrow> (pool, unit) op" where
  \<comment> \<open>the page is not marked dirty\<close>
  "heap_restore_tuple r t =
     bind_op (bpm_fetch_page (rid_page_id r)) (\<lambda>page.
       case page of
         None \<Rightarrow> ret_op ()
       | Some f \<Rightarrow>
           with_pinned f
             (bind_op (page_update f (\<lambda>d. bind_res (sp_restore_tuple d (rid_slot_num r) t) (\<lambda>d'. Inr ((), d')))) (\<lambda>_.
              ret_op ((), False))))"

section \<open>The pages of a heap\<close>

datatype fetch_status = FAILED | SUCCESS

fun heap_all_pages_from :: "nat \<Rightarrow> page_id \<Rightarrow> page_id list \<Rightarrow> (pool, page_id list \<times> fetch_status) op" where
  "heap_all_pages_from 0 page_id result = throw_op Diverges"
| "heap_all_pages_from (Suc n) page_id result =
     bind_op (bpm_fetch_page page_id) (\<lambda>page.
       case page of
         None \<Rightarrow> ret_op (result, FAILED)
       | Some f \<Rightarrow>
           bind_op (with_pinned f (bind_op (page_read f sp_next_page) (\<lambda>p. ret_op (p, False)))) (\<lambda>next_id.
             if next_id = INVALID_PAGE_ID then ret_op (result @ [page_id], SUCCESS)
             else heap_all_pages_from n next_id (result @ [page_id])))"

definition heap_all_pages :: "page_id \<Rightarrow> (pool, page_id list \<times> fetch_status) op" where
  "heap_all_pages first_page_id = heap_all_pages_from kCHAIN_FUEL first_page_id []"

definition heap_drop_page :: "page_id \<Rightarrow> (pool, bool) op" where
  "heap_drop_page p = bpm_delete_page p"

section \<open>The cursor\<close>

record heap_scan =
  current_rid :: rid
  current_page :: "frame_id option"

definition heap_scan_begin :: "page_id \<Rightarrow> (pool, heap_scan) op" where
  "heap_scan_begin first_page_id =
     bind_op (bpm_fetch_page first_page_id) (\<lambda>page.
     ret_op \<lparr>current_rid = \<lparr>rid_page_id = first_page_id, rid_slot_num = 0\<rparr>, current_page = page\<rparr>)"

definition heap_scan_end :: "heap_scan \<Rightarrow> (pool, unit) op" where
  "heap_scan_end sc = pinned_destroy (current_page sc) False"

definition heap_scan_next_page :: "heap_scan \<Rightarrow> (pool, bool \<times> heap_scan) op" where
  \<comment> \<open>a failed fetch leaves \<open>current_page_\<close> on the page that was unpinned\<close>
  "heap_scan_next_page sc =
     (case current_page sc of
        None \<Rightarrow> ret_op (False, sc)
      | Some f \<Rightarrow>
          bind_op (page_read f sp_has_next_page) (\<lambda>has_next.
            if \<not> has_next then ret_op (False, sc)
            else bind_op (page_read f sp_next_page) (\<lambda>next_page_id.
              bind_op (pinned_destroy (Some f) False) (\<lambda>_.
              bind_op (bpm_fetch_page next_page_id) (\<lambda>next_page.
                case next_page of
                  None \<Rightarrow> ret_op (False, sc)
                | Some g \<Rightarrow>
                    bind_op (pinned_page_id (Some g)) (\<lambda>p.
                    ret_op (True, \<lparr>current_rid = \<lparr>rid_page_id = p, rid_slot_num = 0\<rparr>, current_page = Some g\<rparr>)))))))"

definition heap_scan_seek :: "frame_id \<Rightarrow> u16 \<Rightarrow> (pool, u16 \<times> bool) op" where
  \<comment> \<open>the slot the cursor moves to on its page, and whether it is occupied\<close>
  "heap_scan_seek f slot =
     bind_op (page_read f (\<lambda>d. sp_has_slot d slot)) (\<lambda>has.
     bind_op (if has then ret_op slot
              else bind_op (page_read f (\<lambda>d. sp_next_occupied_slot d slot)) (\<lambda>next_slot.
                ret_op (case next_slot of None \<Rightarrow> slot | Some k \<Rightarrow> k))) (\<lambda>slot'.
     bind_op (page_read f (\<lambda>d. sp_has_slot d slot')) (\<lambda>has'. ret_op (slot', has'))))"

fun heap_scan_next_from :: "nat \<Rightarrow> heap_scan \<Rightarrow> (pool, (rid \<times> byte list) option \<times> heap_scan) op" where
  "heap_scan_next_from 0 sc = throw_op Diverges"
| "heap_scan_next_from (Suc n) sc =
     (case current_page sc of
        None \<Rightarrow> ret_op (None, sc)
      | Some f \<Rightarrow>
          bind_op (heap_scan_seek f (rid_slot_num (current_rid sc))) (\<lambda>(slot, found).
            let rid = (current_rid sc)\<lparr>rid_slot_num := slot\<rparr> in
            if \<not> found then
              bind_op (heap_scan_next_page (sc\<lparr>current_rid := rid\<rparr>)) (\<lambda>(moved, sc').
                if moved then heap_scan_next_from n sc' else ret_op (None, sc'))
            else
              bind_op (page_read f (\<lambda>d. sp_get_tuple d slot)) (\<lambda>tuple.
              ret_op (Some (rid, tuple), sc\<lparr>current_rid := rid\<lparr>rid_slot_num := slot + 1\<rparr>\<rparr>))))"

definition heap_scan_next :: "heap_scan \<Rightarrow> (pool, (rid \<times> byte list) option \<times> heap_scan) op" where
  "heap_scan_next sc = heap_scan_next_from kCHAIN_FUEL sc"

definition heap_scan_next_rid :: "heap_scan \<Rightarrow> rid" where
  "heap_scan_next_rid sc = current_rid sc"

end
