(* ===== verification/Heap_Laws.thy ===== *)
theory Heap_Laws
  imports Table_Heap Buffer_Laws
begin

text \<open>
  Laws of the table heap. A heap stands for the tuples of its chain of pages, a partial map from
  record identifiers. Pages are compared by \<open>page_view\<close>, what a well-formed page stands for: a page
  may be compacted in memory without being marked dirty. The locale \<open>page_store\<close> is the contract
  of the buffer pool the heap uses: fetch, read, write and unpin.
\<close>

section \<open>What a page stands for\<close>

definition page_view :: "byte list \<Rightarrow> bool \<times> (nat \<Rightarrow> byte list option) \<times> page_id \<times> nat" where
  "page_view d = (page_ok d, pg_tuple d, pg_next d, pg_count d)"

lemma page_viewD:
  assumes "page_view d = page_view e"
  shows "page_ok d = page_ok e" "pg_tuple d = pg_tuple e" "pg_next d = pg_next e" "pg_count d = pg_count e"
  using assms by (simp_all add: page_view_def)

lemma page_ok_length: "page_ok d \<Longrightarrow> length d = kPAGE_SIZE"
  by (auto simp: page_ok_def header_ok_def)

section \<open>Room for pins\<close>

definition pool_room :: "nat \<Rightarrow> pool \<Rightarrow> bool" where
  \<comment> \<open>at least \<open>k\<close> frames are not pinned, and no pin count is about to wrap\<close>
  "pool_room k s \<longleftrightarrow> card {p. 0 < pool_pins s p} + k \<le> pool_capacity s \<and> (\<forall>p. pool_pins s p + k < 2 ^ 32 - 1)"

lemma pool_room_le: "pool_room k s \<Longrightarrow> j \<le> k \<Longrightarrow> pool_room j s"
  unfolding pool_room_def by (meson add_le_mono1 add_left_mono le_less_trans order_trans)

lemma full_all_pinned:
  assumes "pool_ok s" "pool_full s"
  shows "pool_capacity s \<le> card {p. 0 < pool_pins s p}"
proof -
  note ok = pool_okD[OF assms(1)]
  let ?n = "pool_capacity s"
  have valid: "p_page_id (frames s ! i) \<noteq> INVALID_PAGE_ID" if "i < ?n" for i
    using frames_okD(5)[OF ok(3), of i] that ok(1) assms(2) by (auto simp: pool_full_def)
  have tab: "\<exists>f. page_table s (p_page_id (frames s ! i)) = Some f \<and> unat f = i" if "i < ?n" for i
    using table_okD(4)[OF ok(4), of i] valid[OF that] that ok(1) by simp
  have inj: "inj_on (\<lambda>i. p_page_id (frames s ! i)) {..<?n}"
  proof (rule inj_onI)
    fix i j assume a: "i \<in> {..<?n}" "j \<in> {..<?n}" "p_page_id (frames s ! i) = p_page_id (frames s ! j)"
    obtain f where f: "page_table s (p_page_id (frames s ! i)) = Some f" "unat f = i" using tab a(1) by auto
    obtain g where g: "page_table s (p_page_id (frames s ! j)) = Some g" "unat g = j" using tab a(2) by auto
    have "f = g" using f(1) g(1) unfolding a(3) by simp
    then show "i = j" using f(2) g(2) by simp
  qed
  have "(\<lambda>i. p_page_id (frames s ! i)) ` {..<?n} \<subseteq> {p. 0 < pool_pins s p}"
  proof clarify
    fix i assume i: "i < ?n"
    obtain f where f: "page_table s (p_page_id (frames s ! i)) = Some f" "unat f = i" using tab i by blast
    then have "p_pin_count (frames s ! i) \<noteq> 0" using assms(2) by (auto simp: pool_full_def)
    then show "0 < pool_pins s (p_page_id (frames s ! i))"
      using f by (simp add: pool_pins_def unat_gt_0)
  qed
  from card_mono[OF finite this] card_image[OF inj] show ?thesis by simp
qed

lemma room_not_full: "pool_ok s \<Longrightarrow> pool_room (Suc k) s \<Longrightarrow> \<not> pool_full s"
  using full_all_pinned[of s] by (auto simp: pool_room_def)

lemma room_pin:
  assumes "pool_room (Suc k) s" "pool_pins s' = (pool_pins s)(p := Suc (pool_pins s p))" "pool_capacity s' = pool_capacity s"
  shows "pool_room k s'"
proof -
  have "{q. 0 < pool_pins s' q} \<subseteq> insert p {q. 0 < pool_pins s q}" using assms(2) by auto
  then have "card {q. 0 < pool_pins s' q} \<le> card (insert p {q. 0 < pool_pins s q})"
    by (intro card_mono) auto
  also have "\<dots> \<le> Suc (card {q. 0 < pool_pins s q})" by (simp add: card_insert_if)
  finally have le: "card {q. 0 < pool_pins s' q} \<le> Suc (card {q. 0 < pool_pins s q})" .
  have "pool_pins s' q + k < 2 ^ 32 - 1" for q
  proof -
    have "pool_pins s q + Suc k < 2 ^ 32 - 1" using assms(1) by (auto simp: pool_room_def)
    then show ?thesis using assms(2) by (cases "q = p") auto
  qed
  with le show ?thesis using assms(1,3) by (auto simp: pool_room_def)
qed

lemma room_cong: "pool_pins s' = pool_pins s \<Longrightarrow> pool_capacity s' = pool_capacity s \<Longrightarrow> pool_room k s' = pool_room k s"
  by (simp add: pool_room_def)

lemma room_mono:
  assumes "pool_room k s" "j \<le> k"
  shows "pool_room j s"
proof -
  have "pool_pins s p + j < 2 ^ 32 - 1" for p
  proof -
    have "pool_pins s p + k < 2 ^ 32 - 1" using assms(1) unfolding pool_room_def by blast
    then show ?thesis using assms(2) by linarith
  qed
  moreover have "card {p. 0 < pool_pins s p} + j \<le> pool_capacity s"
    using assms unfolding pool_room_def by linarith
  ultimately show ?thesis unfolding pool_room_def by blast
qed

section \<open>The capacity of the pool never changes\<close>

definition keeps_cap :: "(pool, 'a) op \<Rightarrow> bool" where
  "keeps_cap m \<longleftrightarrow> (\<forall>s. pool_capacity (snd (m s)) = pool_capacity s)"

lemma keeps_cap_bind: "keeps_cap m \<Longrightarrow> (\<And>x. keeps_cap (f x)) \<Longrightarrow> keeps_cap (bind_op m f)"
  by (auto simp: keeps_cap_def bind_op_def split: prod.split sum.split) (metis snd_conv)+

lemma keeps_cap_basic:
  "keeps_cap (ret_op x)" "keeps_cap (throw_op e)" "keeps_cap (lift_op r)" "keeps_cap (frame_op f)"
  "keeps_cap (on_disk m)" "(\<And>s. pool_capacity (g s) = pool_capacity s) \<Longrightarrow> keeps_cap (modify_op g)"
  by (auto simp: keeps_cap_def ret_op_def throw_op_def lift_op_def frame_op_def on_disk_def modify_op_def
      split: prod.split)

lemma keeps_cap_put: "pool_capacity (put_frame f pg s) = pool_capacity s"
  by (simp add: put_frame_def)

lemma keeps_cap_next_frame: "keeps_cap bpm_find_next_frame"
  by (auto simp: keeps_cap_def bpm_find_next_frame_def split: sum.split option.split)

lemma keeps_cap_swap: "keeps_cap (bpm_swap_page p b)"
  unfolding bpm_swap_page_def bpm_flush_page_def
  by (intro keeps_cap_bind keeps_cap_next_frame) (auto intro!: keeps_cap_bind keeps_cap_basic simp: keeps_cap_put)

lemma keeps_cap_fetch: "keeps_cap (bpm_fetch_page p)"
proof -
  have "keeps_cap (bpm_find_cached_page p)"
    by (auto simp: keeps_cap_def bpm_find_cached_page_def bind_op_def frame_op_def modify_op_def ret_op_def
        put_frame_def split: option.split)
  then show ?thesis
    unfolding bpm_fetch_page_def by (auto intro!: keeps_cap_bind keeps_cap_basic keeps_cap_swap)
qed

lemma keeps_cap_new: "keeps_cap bpm_new_page"
  unfolding bpm_new_page_def by (auto intro!: keeps_cap_bind keeps_cap_basic keeps_cap_swap)

lemma keeps_cap_unpin: "keeps_cap (bpm_unpin_page p b)"
  by (auto simp: keeps_cap_def bpm_unpin_page_def bind_op_def frame_op_def modify_op_def put_frame_def split: option.split)

lemma keeps_cap_write: "keeps_cap (write_data f d)"
  by (auto simp: keeps_cap_def write_data_def bind_op_def frame_op_def modify_op_def put_frame_def)

lemma keeps_capD: "keeps_cap m \<Longrightarrow> m s = (r, s') \<Longrightarrow> pool_capacity s' = pool_capacity s"
  unfolding keeps_cap_def by (metis snd_conv)

section \<open>The pool as a store of pages\<close>

definition disk_space :: "disk \<Rightarrow> page_id \<times> page_id list" where
  "disk_space d = (disk_capacity d, free_list d)"

definition space_left :: "page_id \<times> page_id list \<Rightarrow> bool" where
  "space_left x \<longleftrightarrow> snd x \<noteq> [] \<or> fst x < INVALID_PAGE_ID"

abbreviation disk_alloc :: "disk \<Rightarrow> bool" where
  \<comment> \<open>a page can still be allocated\<close>
  "disk_alloc d \<equiv> space_left (disk_space d)"

lemma disk_alloc_def: "disk_alloc d \<longleftrightarrow> free_list d \<noteq> [] \<or> disk_capacity d < INVALID_PAGE_ID"
  by (simp add: space_left_def disk_space_def)

definition pool_st :: "(byte list \<Rightarrow> 'v) \<Rightarrow> page_id set \<Rightarrow> pool \<Rightarrow> bool" where
  "pool_st v X s \<longleftrightarrow> pool_inv s \<and> pool_clean v X s"

definition pool_held :: "pool \<Rightarrow> page_id \<Rightarrow> frame_id \<Rightarrow> bool" where
  "pool_held s p f \<longleftrightarrow> page_table s p = Some f \<and> 0 < pool_pins s p"

definition pool_used :: "pool \<Rightarrow> page_id set" where
  "pool_used s = disk_in_use (pool_disk s)"

lemma pool_stD: "pool_st v X s \<Longrightarrow> pool_inv s" "pool_st v X s \<Longrightarrow> pool_clean v X s" "pool_st v X s \<Longrightarrow> pool_ok s"
  by (simp_all add: pool_st_def pool_inv_def)

lemma pool_fetch_ok:
  assumes "pool_st v X s" "p \<in> pool_used s" "pool_room (Suc k) s"
  obtains f s' where "bpm_fetch_page p s = (Inr (Some f), s')" "pool_st v X s'" "pool_held s' p f"
    "pool_page s' p = pool_page s p" "pool_pins s' = (pool_pins s)(p := Suc (pool_pins s p))"
    "pool_keeps v {} s s'" "pool_used s' = pool_used s" "pool_capacity s' = pool_capacity s" "pool_room k s'"
    "disk_space (pool_disk s') = disk_space (pool_disk s)"
proof -
  note st = pool_stD[OF assms(1)]
  note inv = pool_invD[OF st(1)]
  have pin: "pool_pins s p < 2 ^ 32 - 1"
    using assms(3) unfolding pool_room_def by (metis add_lessD1)
  show ?thesis
  proof (rule fetch_page_spec[OF inv(1) st(2) _ pin])
    show "p < disk_capacity (pool_disk s)" using assms(2) by (simp add: in_use_capacity pool_used_def)
  next
    assume "pool_full s"
    then show ?thesis using room_not_full[OF st(3) assms(3)] by blast
  next
    fix f s'
    assume a: "bpm_fetch_page p s = (Inr (Some f), s')" "pool_ok s'" "page_table s' p = Some f"
      "pool_page s' p = pool_page s p" "pool_clean v X s'" "pool_pins s' = (pool_pins s)(p := Suc (pool_pins s p))"
      "pool_keeps v {} s s'" "disk_capacity (pool_disk s') = disk_capacity (pool_disk s)"
      "free_list (pool_disk s') = free_list (pool_disk s)" "dom (page_table s') \<subseteq> insert p (dom (page_table s))"
    have cap: "pool_capacity s' = pool_capacity s" by (rule keeps_capD[OF keeps_cap_fetch a(1)])
    have "pool_inv s'"
      using a(2,10) in_use_cong[OF a(8,9)] inv(2,3) assms(2) by (auto simp: pool_inv_def pool_used_def)
    moreover have "pool_held s' p f" using a(3,6) by (simp add: pool_held_def)
    moreover have "pool_room k s'" by (rule room_pin[OF assms(3) a(6) cap])
    ultimately show ?thesis
      using that a cap in_use_cong[OF a(8,9)] by (simp add: pool_st_def pool_used_def disk_space_def)
  qed
qed

lemma pool_held_read:
  assumes "pool_st v X s" "pool_held s p f"
  shows "pinned_data (Some f) s = (Inr (pool_page s p), s)" "page_read f g s = (g (pool_page s p), s)"
    "pinned_page_id (Some f) s = (Inr p, s)"
proof -
  note c = cached_frame[OF pool_stD(3)[OF assms(1)], of p f]
  have f: "page_table s p = Some f" using assms(2) by (simp add: pool_held_def)
  show d: "pinned_data (Some f) s = (Inr (pool_page s p), s)"
    using c f by (simp add: pinned_data_def bind_op_def ret_op_def pool_page_def)
  show "page_read f g s = (g (pool_page s p), s)"
    by (simp add: page_read_def bind_op_def d lift_op_def)
  show "pinned_page_id (Some f) s = (Inr p, s)"
    using c f by (simp add: pinned_page_id_def bind_op_def ret_op_def)
qed

lemma pool_write_ok:
  assumes "pool_st v X s" "pool_held s p f" "length d = kPAGE_SIZE"
  obtains s' where "write_data f d s = (Inr (), s')"
    "pool_st v (if v d = v (pool_page s p) then X else insert p X) s'"
    "page_table s' = page_table s" "pool_page s' = (pool_page s)(p := d)" "pool_pins s' = pool_pins s"
    "pool_disk s' = pool_disk s" "pool_capacity s' = pool_capacity s"
proof -
  note st = pool_stD[OF assms(1)]
  have f: "page_table s p = Some f" and pin: "0 < pool_pins s p" using assms(2) by (simp_all add: pool_held_def)
  obtain s' where w: "write_data f d s = (Inr (), s')" "pool_ok s'" "page_table s' = page_table s"
    "pool_page s' = (pool_page s)(p := d)" "pool_pins s' = pool_pins s"
    "pool_clean v (if v d = v (pool_page s p) then X else insert p X) s'" "pool_disk s' = pool_disk s"
    by (rule write_data_spec[OF st(3) f pin st(2) assms(3)], rule that)
  have "pool_inv s'" using w(2,3,7) st(1) by (simp add: pool_inv_def)
  with w keeps_capD[OF keeps_cap_write w(1)] that show ?thesis by (simp add: pool_st_def)
qed

lemma pool_update_ok:
  assumes "pool_st v X s" "pool_held s p f" "g (pool_page s p) = Inr (x, d)" "length d = kPAGE_SIZE"
  obtains s' where "page_update f g s = (Inr x, s')"
    "pool_st v (if v d = v (pool_page s p) then X else insert p X) s'"
    "page_table s' = page_table s" "pool_page s' = (pool_page s)(p := d)" "pool_pins s' = pool_pins s"
    "pool_disk s' = pool_disk s" "pool_capacity s' = pool_capacity s"
proof (rule pool_write_ok[OF assms(1,2,4)])
  fix s'
  assume w: "write_data f d s = (Inr (), s')"
    "pool_st v (if v d = v (pool_page s p) then X else insert p X) s'"
    "page_table s' = page_table s" "pool_page s' = (pool_page s)(p := d)" "pool_pins s' = pool_pins s"
    "pool_disk s' = pool_disk s" "pool_capacity s' = pool_capacity s"
  have "page_update f g s = (Inr x, s')"
    using w(1) assms(3) by (simp add: page_update_def bind_op_def pool_held_read[OF assms(1,2)] lift_op_def ret_op_def)
  with w that show ?thesis by blast
qed

lemma pool_unpin_ok:
  assumes "pool_st v X s" "pool_held s p f" "dirty \<or> p \<notin> X"
  obtains s' where "pinned_destroy (Some f) dirty s = (Inr (), s')" "pool_st v (X - {p}) s'"
    "page_table s' = page_table s" "pool_page s' = pool_page s" "pool_pins s' = (pool_pins s)(p := pool_pins s p - 1)"
    "pool_disk s' = pool_disk s" "pool_capacity s' = pool_capacity s"
proof -
  note st = pool_stD[OF assms(1)]
  have f: "page_table s p = Some f" and pin: "0 < pool_pins s p" using assms(2) by (simp_all add: pool_held_def)
  have dirty: "dirty \<or> p \<notin> X \<or> v (pool_page s p) = v (disk_page (pool_disk s) p)" using assms(3) by blast
  obtain s' where u: "bpm_unpin_page p dirty s = (Inr (), s')" "pool_ok s'" "page_table s' = page_table s"
    "pool_page s' = pool_page s" "pool_pins s' = (pool_pins s)(p := pool_pins s p - 1)" "pool_clean v (X - {p}) s'"
    "pool_disk s' = pool_disk s"
    by (rule unpin_spec[OF st(3) f pin st(2) dirty], rule that)
  have "pinned_destroy (Some f) dirty s = (Inr (), s')"
    using u(1) cached_frame(3,6)[OF st(3) f] by (simp add: pinned_destroy_def bind_op_def)
  moreover have "pool_inv s'" using u(2,3,7) st(1) by (simp add: pool_inv_def)
  ultimately show ?thesis using that u keeps_capD[OF keeps_cap_unpin u(1)] by (simp add: pool_st_def)
qed

section \<open>The contract of a page store, and a visit of one page\<close>

definition visit_page ::
  "(page_id \<Rightarrow> ('s, 'h option) op) \<Rightarrow> ('h \<Rightarrow> ('s, byte list) op) \<Rightarrow> ('h \<Rightarrow> byte list \<Rightarrow> ('s, unit) op) \<Rightarrow>
    ('h \<Rightarrow> bool \<Rightarrow> ('s, unit) op) \<Rightarrow> page_id \<Rightarrow> (byte list \<Rightarrow> ('a \<times> bool \<times> byte list) res) \<Rightarrow> ('s, 'a option) op" where
  \<comment> \<open>fetch a page, work on its bytes, unpin it\<close>
  "visit_page fetch get stor unpin p g =
     bind_op (fetch p) (\<lambda>page.
       case page of
         None \<Rightarrow> ret_op None
       | Some h \<Rightarrow>
           bind_op (get h) (\<lambda>d.
           bind_op (lift_op (g d)) (\<lambda>(x, dirty, d').
           bind_op (stor h d') (\<lambda>_.
           bind_op (unpin h dirty) (\<lambda>_. ret_op (Some x))))))"

locale page_store =
  fixes st :: "page_id set \<Rightarrow> 's \<Rightarrow> bool"
    and used :: "'s \<Rightarrow> page_id set"
    and page :: "'s \<Rightarrow> page_id \<Rightarrow> byte list"
    and pins :: "'s \<Rightarrow> page_id \<Rightarrow> nat"
    and rest :: "'s \<Rightarrow> 'c"
    and room :: "nat \<Rightarrow> 's \<Rightarrow> bool"
    and held :: "'s \<Rightarrow> page_id \<Rightarrow> 'h \<Rightarrow> bool"
    and view :: "byte list \<Rightarrow> 'v"
    and fetch :: "page_id \<Rightarrow> ('s, 'h option) op"
    and get :: "'h \<Rightarrow> ('s, byte list) op"
    and stor :: "'h \<Rightarrow> byte list \<Rightarrow> ('s, unit) op"
    and unpin :: "'h \<Rightarrow> bool \<Rightarrow> ('s, unit) op"
  assumes fetch_ok: "st X s \<Longrightarrow> p \<in> used s \<Longrightarrow> room (Suc k) s \<Longrightarrow>
      \<exists>h s'. fetch p s = (Inr (Some h), s') \<and> st X s' \<and> held s' p h \<and> page s' p = page s p \<and>
        (\<forall>q. view (page s' q) = view (page s q)) \<and> used s' = used s \<and>
        pins s' = (pins s)(p := Suc (pins s p)) \<and> rest s' = rest s"
    and get_ok: "st X s \<Longrightarrow> held s p h \<Longrightarrow> get h s = (Inr (page s p), s)"
    and stor_ok: "st X s \<Longrightarrow> held s p h \<Longrightarrow> length d = kPAGE_SIZE \<Longrightarrow>
      \<exists>s'. stor h d s = (Inr (), s') \<and> st (if view d = view (page s p) then X else insert p X) s' \<and>
        held s' p h \<and> page s' = (page s)(p := d) \<and> used s' = used s \<and> pins s' = pins s \<and> rest s' = rest s"
    and unpin_ok: "st X s \<Longrightarrow> held s p h \<Longrightarrow> dirty \<or> p \<notin> X \<Longrightarrow>
      \<exists>s'. unpin h dirty s = (Inr (), s') \<and> st (X - {p}) s' \<and> page s' = page s \<and> used s' = used s \<and>
        pins s' = (pins s)(p := pins s p - 1) \<and> rest s' = rest s"
    and room_cong: "pins s' = pins s \<Longrightarrow> rest s' = rest s \<Longrightarrow> room k s' = room k s"
begin

lemma visit:
  assumes "st {} s" "p \<in> used s" "room (Suc k) s" "g (page s p) = Inr (x, dirty, d)" "length d = kPAGE_SIZE"
    "dirty \<or> view d = view (page s p)"
  shows "\<exists>s'. visit_page fetch get stor unpin p g s = (Inr (Some x), s') \<and> st {} s' \<and> used s' = used s \<and>
    pins s' = pins s \<and> rest s' = rest s \<and> (\<forall>j. room j s' = room j s) \<and>
    (\<forall>q. view (page s' q) = (if q = p then view d else view (page s q)))"
proof -
  obtain h s1 where a: "fetch p s = (Inr (Some h), s1)" "st {} s1" "held s1 p h" "page s1 p = page s p"
    "\<forall>q. view (page s1 q) = view (page s q)" "used s1 = used s" "pins s1 = (pins s)(p := Suc (pins s p))" "rest s1 = rest s"
    using fetch_ok[OF assms(1-3)] by blast
  define X where "X = (if view d = view (page s1 p) then {} else {p})"
  obtain s2 where b: "stor h d s1 = (Inr (), s2)" "st X s2" "held s2 p h" "page s2 = (page s1)(p := d)"
    "used s2 = used s1" "pins s2 = pins s1" "rest s2 = rest s1"
    using stor_ok[OF a(2,3) assms(5)] unfolding X_def by blast
  have "dirty \<or> p \<notin> X" using assms(6) a(4) by (auto simp: X_def)
  then obtain s3 where c: "unpin h dirty s2 = (Inr (), s3)" "st (X - {p}) s3" "page s3 = page s2" "used s3 = used s2"
    "pins s3 = (pins s2)(p := pins s2 p - 1)" "rest s3 = rest s2"
    using unpin_ok[OF b(2,3)] by blast
  have "X - {p} = {}" by (simp add: X_def)
  with c(2) have "st {} s3" by simp
  moreover have "visit_page fetch get stor unpin p g s = (Inr (Some x), s3)"
    using a(1,4) b(1) c(1) assms(4) get_ok[OF a(2,3)]
    by (simp add: visit_page_def bind_op_def lift_op_def ret_op_def)
  moreover have pins: "pins s3 = pins s" and rest: "rest s3 = rest s" using a b c by auto
  moreover have "room j s3 = room j s" for j by (rule room_cong[OF pins rest])
  ultimately show ?thesis using a b c by auto
qed

end

definition pool_rest :: "pool \<Rightarrow> nat \<times> page_id \<times> page_id list" where
  "pool_rest s = (pool_capacity s, disk_space (pool_disk s))"

interpretation ps: page_store "pool_st page_view" pool_used pool_page pool_pins pool_rest pool_room pool_held page_view
    bpm_fetch_page "\<lambda>f. pinned_data (Some f)" write_data "\<lambda>f. pinned_destroy (Some f)"
proof unfold_locales
  fix X :: "page_id set" and s p k
  assume a: "pool_st page_view X s" "p \<in> pool_used s" "pool_room (Suc k) s"
  show "\<exists>h s'. bpm_fetch_page p s = (Inr (Some h), s') \<and> pool_st page_view X s' \<and> pool_held s' p h \<and>
        pool_page s' p = pool_page s p \<and> (\<forall>q. page_view (pool_page s' q) = page_view (pool_page s q)) \<and>
        pool_used s' = pool_used s \<and> pool_pins s' = (pool_pins s)(p := Suc (pool_pins s p)) \<and> pool_rest s' = pool_rest s"
    by (rule pool_fetch_ok[OF a]) (auto simp: pool_keeps_def pool_rest_def)
next
  fix X :: "page_id set" and s p h
  assume "pool_st page_view X s" "pool_held s p h"
  then show "pinned_data (Some h) s = (Inr (pool_page s p), s)" by (rule pool_held_read)
next
  fix X :: "page_id set" and s p h and d :: "byte list"
  assume a: "pool_st page_view X s" "pool_held s p h" "length d = kPAGE_SIZE"
  show "\<exists>s'. write_data h d s = (Inr (), s') \<and>
      pool_st page_view (if page_view d = page_view (pool_page s p) then X else insert p X) s' \<and>
      pool_held s' p h \<and> pool_page s' = (pool_page s)(p := d) \<and> pool_used s' = pool_used s \<and>
      pool_pins s' = pool_pins s \<and> pool_rest s' = pool_rest s"
    by (rule pool_write_ok[OF a]) (use a(2) in \<open>simp add: pool_held_def pool_used_def pool_rest_def\<close>)
next
  fix X :: "page_id set" and s p h and dirty :: bool
  assume a: "pool_st page_view X s" "pool_held s p h" "dirty \<or> p \<notin> X"
  show "\<exists>s'. pinned_destroy (Some h) dirty s = (Inr (), s') \<and> pool_st page_view (X - {p}) s' \<and>
      pool_page s' = pool_page s \<and> pool_used s' = pool_used s \<and>
      pool_pins s' = (pool_pins s)(p := pool_pins s p - 1) \<and> pool_rest s' = pool_rest s"
    by (rule pool_unpin_ok[OF a]) (simp add: pool_used_def pool_rest_def)
next
  fix s s' k
  assume "pool_pins s' = pool_pins s" "pool_rest s' = pool_rest s"
  then show "pool_room k s' = pool_room k s" by (simp add: pool_rest_def pool_room_def)
qed

section \<open>What a heap stands for\<close>

fun heap_chain :: "(page_id \<Rightarrow> byte list) \<Rightarrow> page_id \<Rightarrow> page_id list \<Rightarrow> bool" where
  "heap_chain pc p [] \<longleftrightarrow> p = INVALID_PAGE_ID"
| "heap_chain pc p (q # qs) \<longleftrightarrow>
     p = q \<and> q \<noteq> INVALID_PAGE_ID \<and> page_ok (pc q) \<and> heap_chain pc (pg_next (pc q)) qs"

definition heap_map :: "(page_id \<Rightarrow> byte list) \<Rightarrow> page_id list \<Rightarrow> rid \<Rightarrow> byte list option" where
  "heap_map pc ps r =
     (if rid_page_id r \<in> set ps then pg_tuple (pc (rid_page_id r)) (unat (rid_slot_num r)) else None)"

definition heap_inv :: "pool \<Rightarrow> page_id \<Rightarrow> page_id list \<Rightarrow> bool" where
  "heap_inv s p ps \<longleftrightarrow> pool_st page_view {} s \<and> heap_chain (pool_page s) p ps \<and> ps \<noteq> [] \<and> distinct ps \<and>
     set ps \<subseteq> pool_used s"

lemma heap_chain_page_ok: "heap_chain pc p ps \<Longrightarrow> q \<in> set ps \<Longrightarrow> page_ok (pc q)"
  by (induction ps arbitrary: p) auto

lemma heap_chain_cong:
  "(\<And>q. q \<in> set ps \<Longrightarrow> page_ok (pc' q) = page_ok (pc q) \<and> pg_next (pc' q) = pg_next (pc q)) \<Longrightarrow>
    heap_chain pc' p ps = heap_chain pc p ps"
  by (induction ps arbitrary: p) auto

lemma heap_view_cong:
  assumes "\<And>q. q \<in> set ps \<Longrightarrow> page_view (pc' q) = page_view (pc q)"
  shows "heap_chain pc' p ps = heap_chain pc p ps" "heap_map pc' ps = heap_map pc ps"
proof -
  show "heap_chain pc' p ps = heap_chain pc p ps"
    by (rule heap_chain_cong) (use assms page_viewD in blast)
  show "heap_map pc' ps = heap_map pc ps"
    using page_viewD(2)[OF assms] by (auto simp: heap_map_def)
qed

lemma heap_set_page:
  assumes "heap_chain pc p ps" "q \<in> set ps" "page_ok d" "pg_next d = pg_next (pc q)"
    and "\<And>r. r \<in> set ps \<Longrightarrow> page_view (pc' r) = (if r = q then page_view d else page_view (pc r))"
  shows "heap_chain pc' p ps"
    "heap_map pc' ps r = (if rid_page_id r = q then pg_tuple d (unat (rid_slot_num r)) else heap_map pc ps r)"
proof -
  have "page_ok (pc' x) = page_ok (pc x) \<and> pg_next (pc' x) = pg_next (pc x)" if "x \<in> set ps" for x
    using assms(5)[OF that] assms(3,4) heap_chain_page_ok[OF assms(1) that]
    by (auto dest: page_viewD split: if_splits)
  then show "heap_chain pc' p ps" using heap_chain_cong[of ps pc' pc p] assms(1) by blast
  show "heap_map pc' ps r = (if rid_page_id r = q then pg_tuple d (unat (rid_slot_num r)) else heap_map pc ps r)"
    using assms(2) assms(5)[of "rid_page_id r"] by (auto simp: heap_map_def page_view_def split: if_splits)
qed

lemma heap_invD:
  assumes "heap_inv s p ps"
  shows "pool_st page_view {} s" "heap_chain (pool_page s) p ps" "ps \<noteq> []" "distinct ps" "set ps \<subseteq> pool_used s"
    "q \<in> set ps \<Longrightarrow> page_ok (pool_page s q)"
  using assms heap_chain_page_ok by (auto simp: heap_inv_def)

text \<open>An operation on the heap leaves the pins, the room for pins and the pages of others as they were\<close>

definition heap_frame :: "page_id set \<Rightarrow> pool \<Rightarrow> pool \<Rightarrow> bool" where
  "heap_frame A s s' \<longleftrightarrow> pool_pins s' = pool_pins s \<and> (\<forall>k. pool_room k s' = pool_room k s) \<and>
     (\<forall>q. q \<notin> A \<longrightarrow> page_view (pool_page s' q) = page_view (pool_page s q))"

lemma heap_frame_refl: "heap_frame A s s"
  by (simp add: heap_frame_def)

lemma heap_frame_trans: "heap_frame A s t \<Longrightarrow> heap_frame B t u \<Longrightarrow> heap_frame (A \<union> B) s u"
  by (simp add: heap_frame_def)

lemma heap_frame_mono: "heap_frame A s t \<Longrightarrow> A \<subseteq> B \<Longrightarrow> heap_frame B s t"
  by (auto simp: heap_frame_def)

section \<open>Working on one page\<close>

lemma visit_scope:
  assumes "visit_page bpm_fetch_page (\<lambda>f. pinned_data (Some f)) write_data (\<lambda>f. pinned_destroy (Some f)) p
    (\<lambda>d. bind_res (g d) (\<lambda>(x, d'). Inr (k x, dirty x, d'))) s = (Inr (Some y), s')"
  shows "bind_op (bpm_fetch_page p) (\<lambda>page. case page of None \<Rightarrow> ret_op n | Some f \<Rightarrow>
      with_pinned f (bind_op (page_update f g) (\<lambda>x. ret_op (k x, dirty x)))) s = (Inr y, s')"
proof -
  obtain h s1 where f: "bpm_fetch_page p s = (Inr (Some h), s1)"
    using assms by (auto simp: visit_page_def bind_op_def ret_op_def split: prod.splits sum.splits option.splits)
  show ?thesis
    using assms by (auto simp: visit_page_def bind_op_def lift_op_def with_pinned_def page_update_def ret_op_def f
        split: prod.splits sum.splits)
qed

lemma write_back_same: "pinned_data (Some f) s = (Inr d, s') \<Longrightarrow> write_data f d s = (Inr (), s)"
  by (auto simp: pinned_data_def write_data_def bind_op_def frame_op_def modify_op_def put_frame_def ret_op_def
      split: if_splits)

lemma pinned_data_state: "pinned_data x s = (r, s') \<Longrightarrow> s' = s"
  by (auto simp: pinned_data_def bind_op_def frame_op_def ret_op_def split: option.splits if_splits)

lemma visit_scope_read:
  assumes "visit_page bpm_fetch_page (\<lambda>f. pinned_data (Some f)) write_data (\<lambda>f. pinned_destroy (Some f)) p
    (\<lambda>d. bind_res (g d) (\<lambda>x. Inr (k x, False, d))) s = (Inr (Some y), s')"
  shows "bind_op (bpm_fetch_page p) (\<lambda>page. case page of None \<Rightarrow> ret_op n | Some f \<Rightarrow>
      with_pinned f (bind_op (page_read f g) (\<lambda>x. ret_op (k x, False)))) s = (Inr y, s')"
proof -
  obtain h s1 where f: "bpm_fetch_page p s = (Inr (Some h), s1)"
    using assms by (auto simp: visit_page_def bind_op_def ret_op_def split: prod.splits sum.splits option.splits)
  obtain d where d: "pinned_data (Some h) s1 = (Inr d, s1)"
    using assms f pinned_data_state[of "Some h" s1]
    by (cases "pinned_data (Some h) s1")
      (auto simp: visit_page_def bind_op_def ret_op_def split: prod.splits sum.splits option.splits)
  show ?thesis
    using assms write_back_same[OF d]
    by (auto simp: visit_page_def bind_op_def lift_op_def with_pinned_def page_read_def ret_op_def f d
        split: prod.splits sum.splits)
qed

lemma heap_visit:
  assumes "heap_inv s p ps" "q \<in> set ps" "pool_room (Suc k) s" "g (pool_page s q) = Inr (x, d)"
    "page_ok d" "pg_next d = pg_next (pool_page s q)" "dirty x \<or> page_view d = page_view (pool_page s q)"
  obtains s' where "bind_op (bpm_fetch_page q) (\<lambda>page. case page of None \<Rightarrow> ret_op n | Some f \<Rightarrow>
      with_pinned f (bind_op (page_update f g) (\<lambda>x. ret_op (kk x, dirty x)))) s = (Inr (kk x), s')"
    "heap_inv s' p ps" "heap_frame {q} s s'" "page_view (pool_page s' q) = page_view d" "pool_used s' = pool_used s"
    "disk_space (pool_disk s') = disk_space (pool_disk s)"
    "\<And>r. heap_map (pool_page s') ps r =
      (if rid_page_id r = q then pg_tuple d (unat (rid_slot_num r)) else heap_map (pool_page s) ps r)"
proof -
  note h = heap_invD[OF assms(1)]
  have qu: "q \<in> pool_used s" using h(5) assms(2) by blast
  have gg: "(\<lambda>d. bind_res (g d) (\<lambda>(x, d'). Inr (kk x, dirty x, d'))) (pool_page s q) = Inr (kk x, dirty x, d)"
    using assms(4) by simp
  obtain s' where v: "visit_page bpm_fetch_page (\<lambda>f. pinned_data (Some f)) write_data (\<lambda>f. pinned_destroy (Some f)) q
    (\<lambda>d. bind_res (g d) (\<lambda>(x, d'). Inr (kk x, dirty x, d'))) s = (Inr (Some (kk x)), s')"
    "pool_st page_view {} s'" "pool_used s' = pool_used s" "pool_pins s' = pool_pins s" "pool_rest s' = pool_rest s"
    "\<forall>j. pool_room j s' = pool_room j s"
    "\<forall>r. page_view (pool_page s' r) = (if r = q then page_view d else page_view (pool_page s r))"
    using ps.visit[where g = "\<lambda>d. bind_res (g d) (\<lambda>(x, d'). Inr (kk x, dirty x, d'))",
        OF h(1) qu assms(3) gg page_ok_length[OF assms(5)] assms(7)] by blast
  have pv: "page_view (pool_page s' r) = (if r = q then page_view d else page_view (pool_page s r))" for r
    using v(7) by blast
  note hs = heap_set_page[OF h(2) assms(2,5,6) pv]
  have "heap_inv s' p ps" using v(2,3) hs(1) h by (simp add: heap_inv_def)
  moreover have "heap_frame {q} s s'" using v(4,6) pv by (simp add: heap_frame_def)
  ultimately show ?thesis
    using that[OF visit_scope[OF v(1)]] hs(2) pv[of q] v(3,5) by (simp add: pool_rest_def)
qed

lemma heap_look:
  assumes "heap_inv s p ps" "q \<in> set ps" "pool_room (Suc k) s" "g (pool_page s q) = Inr x"
  obtains s' where "bind_op (bpm_fetch_page q) (\<lambda>page. case page of None \<Rightarrow> ret_op n | Some f \<Rightarrow>
      with_pinned f (bind_op (page_read f g) (\<lambda>x. ret_op (kk x, False)))) s = (Inr (kk x), s')"
    "heap_inv s' p ps" "heap_frame {} s s'" "pool_used s' = pool_used s"
    "disk_space (pool_disk s') = disk_space (pool_disk s)" "heap_map (pool_page s') ps = heap_map (pool_page s) ps"
proof -
  note h = heap_invD[OF assms(1)]
  have qu: "q \<in> pool_used s" using h(5) assms(2) by blast
  have gg: "(\<lambda>d. bind_res (g d) (\<lambda>x. Inr (kk x, False, d))) (pool_page s q) = Inr (kk x, False, pool_page s q)"
    using assms(4) by simp
  obtain s' where v: "visit_page bpm_fetch_page (\<lambda>f. pinned_data (Some f)) write_data (\<lambda>f. pinned_destroy (Some f)) q
    (\<lambda>d. bind_res (g d) (\<lambda>x. Inr (kk x, False, d))) s = (Inr (Some (kk x)), s')"
    "pool_st page_view {} s'" "pool_used s' = pool_used s" "pool_pins s' = pool_pins s" "pool_rest s' = pool_rest s"
    "\<forall>j. pool_room j s' = pool_room j s"
    "\<forall>r. page_view (pool_page s' r) = (if r = q then page_view (pool_page s q) else page_view (pool_page s r))"
    using ps.visit[where g = "\<lambda>d. bind_res (g d) (\<lambda>x. Inr (kk x, False, d))",
        OF h(1) qu assms(3) gg page_ok_length[OF h(6)[OF assms(2)]]] by blast
  have pv: "page_view (pool_page s' r) = page_view (pool_page s r)" for r
    using v(7) by (simp split: if_splits)
  note hs = heap_view_cong[of ps "pool_page s'" "pool_page s", OF pv]
  have "heap_inv s' p ps" using v(2,3) hs(1) h by (simp add: heap_inv_def)
  moreover have "heap_frame {} s s'" using v(4,6) pv by (simp add: heap_frame_def)
  ultimately show ?thesis
    using that[OF visit_scope_read[OF v(1)]] hs(2) v(3,5) by (simp add: pool_rest_def)
qed

section \<open>Reading and deleting\<close>

lemma heap_get_spec:
  assumes "heap_inv s p ps" "rid_page_id r \<in> set ps" "pool_room (Suc k) s"
  obtains s' where "heap_get_tuple r s =
      (Inr (case heap_map (pool_page s) ps r of None \<Rightarrow> None | Some t \<Rightarrow> if t = [] then None else Some t), s')"
    "heap_inv s' p ps" "heap_frame {} s s'" "pool_used s' = pool_used s"
    "disk_space (pool_disk s') = disk_space (pool_disk s)" "heap_map (pool_page s') ps = heap_map (pool_page s) ps"
proof -
  define d where "d = pool_page s (rid_page_id r)"
  define x where "x = (case pg_tuple d (unat (rid_slot_num r)) of None \<Rightarrow> [] | Some t \<Rightarrow> t)"
  have ok: "page_ok d" using heap_invD(6)[OF assms(1,2)] by (simp add: d_def)
  have g: "(\<lambda>d. sp_get_tuple d (rid_slot_num r)) (pool_page s (rid_page_id r)) = Inr x"
    using get_tuple_eq[OF ok] by (simp add: x_def d_def)
  have val: "(if x = [] then None else Some x) =
      (case heap_map (pool_page s) ps r of None \<Rightarrow> None | Some t \<Rightarrow> if t = [] then None else Some t)"
    using assms(2) by (simp add: heap_map_def x_def d_def split: option.split)
  show ?thesis
  proof (rule heap_look[where g = "\<lambda>d. sp_get_tuple d (rid_slot_num r)" and
          kk = "\<lambda>view. if view = [] then None else Some view" and n = None, OF assms g, folded heap_get_tuple_def, unfolded val])
  qed (rule that)
qed

lemma heap_delete_spec:
  assumes "heap_inv s p ps" "rid_page_id r \<in> set ps" "pool_room (Suc k) s"
  obtains s' where "heap_delete_tuple r s = (Inr (heap_map (pool_page s) ps r \<noteq> None), s')"
    "heap_inv s' p ps" "heap_frame {rid_page_id r} s s'" "pool_used s' = pool_used s"
    "disk_space (pool_disk s') = disk_space (pool_disk s)"
    "heap_map (pool_page s') ps = (heap_map (pool_page s) ps)(r := None)"
    "pg_count (pool_page s' (rid_page_id r)) = pg_count (pool_page s (rid_page_id r))"
proof -
  define d where "d = pool_page s (rid_page_id r)"
  define k where "k = unat (rid_slot_num r)"
  define x where "x = (pg_tuple d k \<noteq> None)"
  define e where "e = (if x then pg_delete d k else d)"
  have ok: "page_ok d" using heap_invD(6)[OF assms(1,2)] by (simp add: d_def)
  have kc: "k < pg_count d" if x using that by (auto simp: x_def pg_tuple_def pg_live_def split: if_splits)
  have g: "(\<lambda>d. sp_delete_tuple d (rid_slot_num r)) (pool_page s (rid_page_id r)) = Inr (x, e)"
    using delete_tuple_eq[OF ok, of "rid_slot_num r"] by (auto simp: x_def e_def d_def k_def)
  have e: "page_ok e" "pg_next e = pg_next d" "pg_tuple e = (pg_tuple d)(k := None)" "pg_count e = pg_count d"
    using delete_ok[OF ok kc] delete_fields(2,3)[OF page_okD(1)[OF ok] kc] ok
    by (auto simp: e_def x_def fun_upd_idem)
  have dv: "x \<or> page_view e = page_view (pool_page s (rid_page_id r))" by (simp add: e_def d_def)
  have nx: "pg_next e = pg_next (pool_page s (rid_page_id r))" using e(2) by (simp add: d_def)
  have val: "x = (heap_map (pool_page s) ps r \<noteq> None)"
    using assms(2) by (simp add: heap_map_def x_def d_def k_def)
  show ?thesis
  proof (rule heap_visit[where g = "\<lambda>d. sp_delete_tuple d (rid_slot_num r)" and kk = "\<lambda>x. x" and dirty = "\<lambda>x. x"
        and n = False, OF assms g e(1) nx dv])
    fix s'
    assume a: "bind_op (bpm_fetch_page (rid_page_id r)) (\<lambda>page. case page of None \<Rightarrow> ret_op False | Some f \<Rightarrow>
        with_pinned f (bind_op (page_update f (\<lambda>d. sp_delete_tuple d (rid_slot_num r))) (\<lambda>x. ret_op (x, x)))) s = (Inr x, s')"
      "heap_inv s' p ps" "heap_frame {rid_page_id r} s s'" "page_view (pool_page s' (rid_page_id r)) = page_view e"
      "pool_used s' = pool_used s" "disk_space (pool_disk s') = disk_space (pool_disk s)"
      "\<And>q. heap_map (pool_page s') ps q =
        (if rid_page_id q = rid_page_id r then pg_tuple e (unat (rid_slot_num q)) else heap_map (pool_page s) ps q)"
    have "heap_map (pool_page s') ps q = ((heap_map (pool_page s) ps)(r := None)) q" for q
    proof (cases "rid_page_id q = rid_page_id r")
      case True
      have "unat (rid_slot_num q) = k \<longleftrightarrow> q = r"
        using True by (cases q; cases r) (auto simp: k_def word_unat_eq_iff)
      then show ?thesis
        using a(7)[of q] True assms(2) e(3) by (auto simp: heap_map_def d_def)
    next
      case False
      then show ?thesis using a(7)[of q] by auto
    qed
    moreover have "pg_count (pool_page s' (rid_page_id r)) = pg_count (pool_page s (rid_page_id r))"
      using a(4) e(4) by (simp add: page_view_def d_def)
    ultimately show ?thesis
      using that[of s'] a val by (simp add: heap_delete_tuple_def fun_eq_iff)
  qed
qed

section \<open>Running operations on the bytes of a pinned page\<close>

definition with_data :: "pool \<Rightarrow> frame_id \<Rightarrow> byte list \<Rightarrow> pool" where
  "with_data s f d = put_frame f ((frames s ! unat f)\<lparr>p_data := d\<rparr>) s"

lemma with_data_run:
  assumes "unat f < length (frames s)"
  shows "page_update f g (with_data s f d) =
      (case g d of Inl e \<Rightarrow> (Inl e, with_data s f d) | Inr (x, d') \<Rightarrow> (Inr x, with_data s f d'))"
    "page_read f h (with_data s f d) = (h d, with_data s f d)"
    "pinned_page_id (Some f) (with_data s f d) = (Inr (p_page_id (frames s ! unat f)), with_data s f d)"
    "write_data f d' s = (Inr (), with_data s f d')"
  using assms
  by (auto simp: page_update_def page_read_def pinned_page_id_def pinned_data_def write_data_def bind_op_def frame_op_def
      ret_op_def lift_op_def modify_op_def with_data_def put_frame_def split: sum.split)

lemma with_data_id: "unat f < length (frames s) \<Longrightarrow> with_data s f (p_data (frames s ! unat f)) = s"
  by (simp add: with_data_def put_frame_def)

lemma held_frame:
  assumes "pool_st v X s" "pool_held s p f"
  shows "unat f < length (frames s)" "p_page_id (frames s ! unat f) = p" "with_data s f (pool_page s p) = s"
proof -
  have f: "page_table s p = Some f" using assms(2) by (simp add: pool_held_def)
  note c = cached_frame[OF pool_stD(3)[OF assms(1)] f]
  show "unat f < length (frames s)" "p_page_id (frames s ! unat f) = p" using c by simp_all
  then show "with_data s f (pool_page s p) = s" using with_data_id[of f s] f by (simp add: pool_page_def)
qed

lemma with_data_st:
  assumes "pool_st v X s" "pool_held s p f" "length d = kPAGE_SIZE"
  shows "pool_st v (if v d = v (pool_page s p) then X else insert p X) (with_data s f d)"
    "page_table (with_data s f d) = page_table s" "pool_page (with_data s f d) = (pool_page s)(p := d)"
    "pool_pins (with_data s f d) = pool_pins s" "pool_disk (with_data s f d) = pool_disk s"
    "pool_capacity (with_data s f d) = pool_capacity s" "pool_held (with_data s f d) = pool_held s"
proof -
  have "pool_st v (if v d = v (pool_page s p) then X else insert p X) (with_data s f d) \<and>
    page_table (with_data s f d) = page_table s \<and> pool_page (with_data s f d) = (pool_page s)(p := d) \<and>
    pool_pins (with_data s f d) = pool_pins s \<and> pool_disk (with_data s f d) = pool_disk s \<and>
    pool_capacity (with_data s f d) = pool_capacity s \<and> pool_held (with_data s f d) = pool_held s"
  proof (rule pool_write_ok[OF assms])
  fix s'
  assume a: "write_data f d s = (Inr (), s')"
    "pool_st v (if v d = v (pool_page s p) then X else insert p X) s'"
    "page_table s' = page_table s" "pool_page s' = (pool_page s)(p := d)" "pool_pins s' = pool_pins s"
    "pool_disk s' = pool_disk s" "pool_capacity s' = pool_capacity s"
  have "s' = with_data s f d" using with_data_run(4)[OF held_frame(1)[OF assms(1,2)]] a(1) by simp
  with a show ?thesis by (simp add: pool_held_def fun_eq_iff)
  qed
  then show "pool_st v (if v d = v (pool_page s p) then X else insert p X) (with_data s f d)"
    "page_table (with_data s f d) = page_table s" "pool_page (with_data s f d) = (pool_page s)(p := d)"
    "pool_pins (with_data s f d) = pool_pins s" "pool_disk (with_data s f d) = pool_disk s"
    "pool_capacity (with_data s f d) = pool_capacity s" "pool_held (with_data s f d) = pool_held s" by simp_all
qed

section \<open>Creating a page of a heap\<close>

lemma pool_new_ok:
  assumes "pool_st v X s" "disk_alloc (pool_disk s)" "pool_room (Suc k) s"
  obtains q g s' where "bpm_new_page s = (Inr (Some g), s')" "q \<notin> pool_used s" "q \<noteq> INVALID_PAGE_ID"
    "pool_st v (insert q X) s'" "pool_used s' = insert q (pool_used s)" "pool_held s' q g"
    "pool_page s' q = replicate kPAGE_SIZE 0" "pool_pins s' = (pool_pins s)(q := Suc (pool_pins s q))"
    "pool_pins s q = 0" "pool_keeps v {q} s s'" "pool_capacity s' = pool_capacity s" "pool_room k s'"
    "fst (dm_allocate_page (pool_disk s)) = Inr q"
proof -
  note st = pool_stD[OF assms(1)]
  show ?thesis
  proof (rule new_page_spec[OF st(1,2)])
    show "free_list (pool_disk s) \<noteq> [] \<or> disk_capacity (pool_disk s) < INVALID_PAGE_ID"
      using assms(2) by (simp add: disk_alloc_def)
  next
    assume "pool_full s"
    then show ?thesis using room_not_full[OF st(3) assms(3)] by blast
  next
    fix q g s'
    assume a: "bpm_new_page s = (Inr (Some g), s')" "q \<notin> disk_in_use (pool_disk s)" "0 < q" "pool_inv s'"
      "disk_in_use (pool_disk s') = insert q (disk_in_use (pool_disk s))"
      "page_table s' q = Some g" "pool_page s' q = replicate kPAGE_SIZE 0" "pool_clean v (insert q X) s'"
      "pool_pins s' = (pool_pins s)(q := 1)" "pool_keeps v {q} s s'" "fst (dm_allocate_page (pool_disk s)) = Inr q"
    have cap: "pool_capacity s' = pool_capacity s" by (rule keeps_capD[OF keeps_cap_new a(1)])
    have z: "pool_pins s q = 0"
      using pool_invD(3)[OF st(1), of q] a(2) by (cases "page_table s q") (auto simp: pool_pins_def)
    have pins: "pool_pins s' = (pool_pins s)(q := Suc (pool_pins s q))" using a(9) z by simp
    have "q < disk_capacity (pool_disk s')" using a(5) by (intro in_use_capacity) simp
    then have "q \<noteq> INVALID_PAGE_ID" by (rule not_invalid)
    then show ?thesis
      using that[of g s' q] a z pins cap room_pin[OF assms(3) pins cap]
      by (simp add: pool_st_def pool_used_def pool_held_def)
  qed
qed

lemma init_page:
  obtains e where "sp_init (replicate kPAGE_SIZE 0) = Inr e" "page_ok e" "pg_tuple e = Map.empty"
    "pg_next e = INVALID_PAGE_ID" "pg_count e = 0" "page_view e = page_view fresh_page" "length e = kPAGE_SIZE"
  using that[of fresh_page] fresh_page_init fresh_page_ok page_ok_length[OF fresh_page_ok(1)] by blast

lemma unpin_pinned_room:
  "pool_pins s' = (pool_pins s)(p := pool_pins s p - 1) \<Longrightarrow> pool_pins s = (pool_pins t)(p := Suc (pool_pins t p)) \<Longrightarrow>
    pool_pins s' = pool_pins t"
  by auto

definition init_op :: "byte list \<Rightarrow> (unit \<times> byte list) res" where
  "init_op d = bind_res (sp_init d) (\<lambda>d'. Inr ((), d'))"

lemma init_op_fold: "(\<lambda>d. bind_res (sp_init d) (\<lambda>d'. Inr ((), d'))) = init_op"
  by (simp add: fun_eq_iff init_op_def)

lemma init_new_page:
  assumes "pool_st page_view X s" "disk_alloc (pool_disk s)" "pool_room (Suc k) s"
  obtains q g s' s2 where "bpm_new_page s = (Inr (Some g), s2)"
    "with_pinned g (bind_op (page_update g init_op) (\<lambda>_. ret_op ((), True))) s2 = (Inr (), s')"
    "with_pinned g (bind_op (page_update g init_op) (\<lambda>_. bind_op (pinned_page_id (Some g)) (\<lambda>p. ret_op (p, True)))) s2 = (Inr q, s')"
    "q \<notin> pool_used s" "q \<noteq> INVALID_PAGE_ID" "pool_st page_view X s'" "pool_used s' = insert q (pool_used s)"
    "pool_page s' q = fresh_page" "pool_pins s' = pool_pins s" "pool_keeps page_view {q} s s'"
    "pool_capacity s' = pool_capacity s" "pool_pins s q = 0" "unat g < length (frames s')" "p_page_id (frames s' ! unat g) = q"
    "fst (dm_allocate_page (pool_disk s)) = Inr q"
proof (rule pool_new_ok[OF assms])
  fix q g s2
  assume a: "bpm_new_page s = (Inr (Some g), s2)" "q \<notin> pool_used s" "q \<noteq> INVALID_PAGE_ID"
    "pool_st page_view (insert q X) s2" "pool_used s2 = insert q (pool_used s)" "pool_held s2 q g"
    "pool_page s2 q = replicate kPAGE_SIZE 0" "pool_pins s2 = (pool_pins s)(q := Suc (pool_pins s q))"
    "pool_pins s q = 0" "pool_keeps page_view {q} s s2" "pool_capacity s2 = pool_capacity s" "pool_room k s2"
    "fst (dm_allocate_page (pool_disk s)) = Inr q"
  have len: "length fresh_page = kPAGE_SIZE" by (rule page_ok_length[OF fresh_page_ok(1)])
  have qX: "q \<notin> X"
    using a(9) pool_stD(2)[OF assms(1)] by (auto simp: pool_clean_def)
  note w = with_data_st[OF a(4,6) len]
  define s3 where "s3 = with_data s2 g fresh_page"
  have st3: "pool_st page_view (insert q X) s3" using w(1) by (simp add: s3_def insert_absorb split: if_splits)
  have h3: "pool_held s3 q g" using w(7) a(6) by (simp add: s3_def)
  obtain s' where u: "pinned_destroy (Some g) True s3 = (Inr (), s')" "pool_st page_view (insert q X - {q}) s'"
    "page_table s' = page_table s3" "pool_page s' = pool_page s3" "pool_pins s' = (pool_pins s3)(q := pool_pins s3 q - 1)"
    "pool_disk s' = pool_disk s3" "pool_capacity s' = pool_capacity s3"
    using pool_unpin_ok[OF st3 h3, of True] by auto
  have up: "page_update g init_op s2 = (Inr (), s3)"
    using with_data_run(1)[OF held_frame(1)[OF a(4,6)], of init_op "pool_page s2 q"] held_frame(3)[OF a(4,6)] a(7)
    by (simp add: init_op_def fresh_page_init s3_def)
  have id3: "pinned_page_id (Some g) s3 = (Inr q, s3)" by (rule pool_held_read(3)[OF st3 h3])
  have "insert q X - {q} = X" using qX by auto
  moreover have pins: "pool_pins s' = pool_pins s"
    using u(5) w(4) a(8) by (intro unpin_pinned_room[of s' s3]) (simp_all add: s3_def)
  moreover have "pool_keeps page_view {q} s s'"
    using a(9,10) u(3,4) w(2,3) by (auto simp: pool_keeps_def s3_def)
  moreover have "page_table s' q = Some g" using u(3) h3 by (simp add: pool_held_def)
  moreover have "pool_page s' q = fresh_page" using u(4) w(3) by (simp add: s3_def)
  moreover have "pool_used s' = insert q (pool_used s)" using u(6) w(5) a(5) by (simp add: pool_used_def s3_def)
  ultimately show ?thesis
    using that[OF a(1), of s' q] u up id3 a(2,3,9,11,13) w(6) cached_frame(1,3)[OF pool_stD(3)[OF u(2)], of q g]
    by (simp add: with_pinned_def bind_op_def ret_op_def s3_def)
qed

lemma heap_create_spec:
  assumes "pool_st page_view {} s" "disk_alloc (pool_disk s)" "pool_room (Suc k) s"
  obtains q s' where "heap_create s = (Inr q, s')" "q \<notin> pool_used s" "heap_inv s' q [q]"
    "heap_map (pool_page s') [q] = Map.empty" "heap_frame {q} s s'" "pool_used s' = insert q (pool_used s)"
    "fst (dm_allocate_page (pool_disk s)) = Inr q"
proof (rule init_new_page[OF assms])
  fix q g s' s2
  assume a: "bpm_new_page s = (Inr (Some g), s2)"
    "with_pinned g (bind_op (page_update g init_op) (\<lambda>_. ret_op ((), True))) s2 = (Inr (), s')"
    "with_pinned g (bind_op (page_update g init_op) (\<lambda>_. bind_op (pinned_page_id (Some g)) (\<lambda>p. ret_op (p, True)))) s2 = (Inr q, s')"
    "q \<notin> pool_used s" "q \<noteq> INVALID_PAGE_ID" "pool_st page_view {} s'" "pool_used s' = insert q (pool_used s)"
    "pool_page s' q = fresh_page" "pool_pins s' = pool_pins s" "pool_keeps page_view {q} s s'"
    "pool_capacity s' = pool_capacity s" "pool_pins s q = 0" "unat g < length (frames s')" "p_page_id (frames s' ! unat g) = q"
    "fst (dm_allocate_page (pool_disk s)) = Inr q"
  have "heap_create s = (Inr q, s')"
    using a(1,3) by (simp add: heap_create_def bind_op_def init_op_fold)
  moreover have "heap_inv s' q [q]" using a(5-8) by (simp add: heap_inv_def fresh_page_ok)
  moreover have "heap_map (pool_page s') [q] = Map.empty"
    using a(8) by (auto simp: heap_map_def fresh_page_ok)
  moreover have "heap_frame {q} s s'"
    using a(9,10,11) by (simp add: heap_frame_def pool_keeps_def pool_room_def)
  ultimately show ?thesis using that a(4,7,15) by blast
qed

section \<open>Inserting\<close>

lemma held_update:
  assumes "pool_st v X s" "pool_held s p f" "g (pool_page s p) = Inr (x, d)"
  shows "page_update f g s = (Inr x, with_data s f d)"
proof -
  note h = held_frame[OF assms(1,2)]
  have "page_update f g (with_data s f (pool_page s p)) = (Inr x, with_data s f d)"
    unfolding with_data_run(1)[OF h(1)] using assms(3) by simp
  then show ?thesis by (simp only: h(3))
qed

text \<open>One page of the chain, pinned in frame \<open>f\<close>\<close>

lemma insert_page_hit:
  assumes "pool_st page_view {} s" "pool_held s p f" "page_ok (pool_page s p)" "length t < 65536"
    and "insert_or_compact (\<lambda>d. sp_insert_tuple d t None) sp_is_compacted sp_compact (pool_page s p) = Inr (Some r, d)"
  shows "heap_insert_page others f c t s = (Inr (Insert_Done (r\<lparr>rid_page_id := p\<rparr>), True), with_data s f d)"
proof -
  note h = held_frame[OF assms(1,2)]
  have "page_update f (insert_or_compact (\<lambda>d. sp_insert_tuple d t None) sp_is_compacted sp_compact) s = (Inr (Some r), with_data s f d)"
    by (rule held_update[OF assms(1,2)]) (rule assms(5))
  then show ?thesis
    using with_data_run(3)[OF h(1), of d] h(2) by (simp add: heap_insert_page_def bind_op_def ret_op_def)
qed

lemma insert_page_miss:
  assumes "pool_st page_view {} s" "pool_held s p f"
    and "insert_or_compact (\<lambda>d. sp_insert_tuple d t None) sp_is_compacted sp_compact (pool_page s p) = Inr (None, d)"
    and "page_ok d" "page_view d = page_view (pool_page s p)"
  shows "heap_insert_page others f c t s =
      (if pg_next d \<noteq> INVALID_PAGE_ID then (Inr (Insert_Continue (pg_next d) c, False), with_data s f d)
       else if c then (Inl (Runtime_Error ''TableHeap::insert_tuple: tuple failed to fit even on a freshly created page''),
         with_data s f d)
       else heap_link_new_page others f (with_data s f d))"
    and "pool_st page_view {} (with_data s f d)" "pool_held (with_data s f d) = pool_held s"
    and "page_table (with_data s f d) = page_table s" "pool_page (with_data s f d) = (pool_page s)(p := d)"
    and "pool_pins (with_data s f d) = pool_pins s" "pool_disk (with_data s f d) = pool_disk s"
    and "pool_capacity (with_data s f d) = pool_capacity s"
proof -
  note h = held_frame[OF assms(1,2)]
  have "page_update f (insert_or_compact (\<lambda>d. sp_insert_tuple d t None) sp_is_compacted sp_compact) s = (Inr None, with_data s f d)"
    by (rule held_update[OF assms(1,2)]) (rule assms(3))
  then show "heap_insert_page others f c t s =
      (if pg_next d \<noteq> INVALID_PAGE_ID then (Inr (Insert_Continue (pg_next d) c, False), with_data s f d)
       else if c then (Inl (Runtime_Error ''TableHeap::insert_tuple: tuple failed to fit even on a freshly created page''),
         with_data s f d)
       else heap_link_new_page others f (with_data s f d))"
    using with_data_run(2)[OF h(1), of sp_next_page d] next_page_eq[OF assms(4)]
    by (simp add: heap_insert_page_def bind_op_def ret_op_def throw_op_def)
  note w = with_data_st[OF assms(1,2) page_ok_length[OF assms(4)]]
  show "pool_st page_view {} (with_data s f d)" using w(1) assms(5) by simp
  show "pool_held (with_data s f d) = pool_held s" "page_table (with_data s f d) = page_table s"
    "pool_page (with_data s f d) = (pool_page s)(p := d)" "pool_pins (with_data s f d) = pool_pins s"
    "pool_disk (with_data s f d) = pool_disk s" "pool_capacity (with_data s f d) = pool_capacity s"
    using w by simp_all
qed

lemma keeps_held: "pool_keeps v A s s' \<Longrightarrow> pool_held s p f \<Longrightarrow> pool_pins s' = pool_pins s \<Longrightarrow> pool_held s' p f"
  by (simp add: pool_keeps_def pool_held_def)

text \<open>The last page of the chain: a fresh page is linked behind it\<close>

lemma link_new_page:
  assumes "pool_st page_view {} s" "pool_held s p f" "page_ok (pool_page s p)" "pg_next (pool_page s p) = INVALID_PAGE_ID"
    "p \<in> pool_used s" "disk_alloc (pool_disk s)" "pool_room (Suc k) s"
  obtains q d s' where "heap_link_new_page (ret_op ()) f s = (Inr (Insert_Continue q True, True), s')"
    "q \<notin> pool_used s" "q \<noteq> INVALID_PAGE_ID" "pool_st page_view {p} s'" "pool_held s' p f"
    "pool_used s' = insert q (pool_used s)" "pool_page s' p = d" "pool_page s' q = fresh_page"
    "page_ok d" "pg_next d = q" "pg_tuple d = pg_tuple (pool_page s p)"
    "pool_pins s' = pool_pins s" "pool_capacity s' = pool_capacity s"
    "\<And>x. x \<noteq> p \<Longrightarrow> x \<noteq> q \<Longrightarrow> page_view (pool_page s' x) = page_view (pool_page s x)"
proof (rule init_new_page[OF assms(1,6,7)])
  fix q g s1 s2
  assume a: "bpm_new_page s = (Inr (Some g), s2)"
    "with_pinned g (bind_op (page_update g init_op) (\<lambda>_. ret_op ((), True))) s2 = (Inr (), s1)"
    "with_pinned g (bind_op (page_update g init_op) (\<lambda>_. bind_op (pinned_page_id (Some g)) (\<lambda>p. ret_op (p, True)))) s2 = (Inr q, s1)"
    "q \<notin> pool_used s" "q \<noteq> INVALID_PAGE_ID" "pool_st page_view {} s1" "pool_used s1 = insert q (pool_used s)"
    "pool_page s1 q = fresh_page" "pool_pins s1 = pool_pins s" "pool_keeps page_view {q} s s1"
    "pool_capacity s1 = pool_capacity s" "pool_pins s q = 0" "unat g < length (frames s1)" "p_page_id (frames s1 ! unat g) = q"
  have pq: "p \<noteq> q" using assms(5) a(4) by blast
  have pin: "0 < pool_pins s p" using assms(2) by (simp add: pool_held_def)
  have pp: "pool_page s1 p = pool_page s p" using a(10) pin pq by (simp add: pool_keeps_def)
  have held: "pool_held s1 p f" by (rule keeps_held[OF a(10) assms(2) a(9)])
  note h = held_frame[OF a(6) held]
  define d where "d = pg_set_next (pool_page s p) q"
  note sn = set_next_page_ok[OF assms(3), of q]
  note w = with_data_st[OF a(6) held page_ok_length[OF sn(2)]]
  define s' where "s' = with_data s1 f d"
  have idg: "pinned_page_id (Some g) s1 = (Inr q, s1)"
    using a(13,14) by (simp add: pinned_page_id_def bind_op_def frame_op_def ret_op_def)
  have rd: "page_read f sp_next_page s1 = (Inr INVALID_PAGE_ID, s1)"
    using pool_held_read(2)[OF a(6) held, of sp_next_page] next_page_eq[OF assms(3)] assms(4) pp by simp
  have up: "page_update f (\<lambda>d. bind_res (sp_set_next_page d q) (\<lambda>d'. Inr ((), d'))) s1 = (Inr (), s')"
    unfolding s'_def by (rule held_update[OF a(6) held]) (simp add: sn(1) pp d_def)
  have rd2: "page_read f sp_next_page s' = (Inr q, s')"
    using with_data_run(2)[OF h(1), of sp_next_page d] next_page_eq[OF sn(2)] sn(4) by (simp add: s'_def d_def)
  have run: "heap_link_new_page (ret_op ()) f s = (Inr (Insert_Continue q True, True), s')"
    using a(1,2) idg rd up rd2
    by (simp add: heap_link_new_page_def bind_op_def ret_op_def init_op_fold)
  have "d \<noteq> d \<or> page_view d \<noteq> page_view (pool_page s1 p)"
    using sn(4) pp assms(4) a(5) by (auto simp: d_def dest: page_viewD)
  then have "pool_st page_view {p} s'" using w(1) by (simp add: s'_def d_def split: if_splits)
  moreover have "page_view (pool_page s' x) = page_view (pool_page s x)" if "x \<noteq> p" "x \<noteq> q" for x
    using that w(3) a(10) by (simp add: s'_def d_def pool_keeps_def)
  ultimately show ?thesis
    using that[OF run a(4,5)] a(7-9,11) w sn held pq pp
    by (simp add: s'_def d_def pool_used_def)
qed

text \<open>One iteration of the loop: fetch, work on the page, unpin\<close>

lemma unpin_after_fetch:
  assumes "pool_st page_view X s2" "pool_held s2 p f" "dirty \<or> p \<notin> X" "X \<subseteq> {p}"
    and "pool_pins s1 = (pool_pins s)(p := Suc (pool_pins s p))" "pool_pins s2 = pool_pins s1"
    and "pool_capacity s2 = pool_capacity s"
  obtains s3 where "pinned_destroy (Some f) dirty s2 = (Inr (), s3)" "pool_st page_view {} s3"
    "pool_page s3 = pool_page s2" "pool_used s3 = pool_used s2" "pool_disk s3 = pool_disk s2"
    "pool_pins s3 = pool_pins s" "\<And>k. pool_room k s3 = pool_room k s"
proof -
  obtain s3 where u: "pinned_destroy (Some f) dirty s2 = (Inr (), s3)" "pool_st page_view (X - {p}) s3"
    "page_table s3 = page_table s2" "pool_page s3 = pool_page s2" "pool_pins s3 = (pool_pins s2)(p := pool_pins s2 p - 1)"
    "pool_disk s3 = pool_disk s2" "pool_capacity s3 = pool_capacity s2"
    by (rule pool_unpin_ok[OF assms(1-3)], rule that)
  have "X - {p} = {}" using assms(4) by blast
  with u(2) have "pool_st page_view {} s3" by simp
  moreover have pins: "pool_pins s3 = pool_pins s" using u(5) assms(5,6) by auto
  ultimately show ?thesis
    using that u assms(7) by (simp add: pool_used_def pool_room_def)
qed

lemma insert_iter:
  assumes st: "pool_st page_view {} s" and p: "p \<in> pool_used s" and ok: "page_ok (pool_page s p)"
    and len: "length t < 65536" and room: "pool_room 2 s" and alloc: "disk_alloc (pool_disk s) \<or> c"
  obtains (hit) r d s' where "heap_insert_from (ret_op ()) (Suc n) p c t s = (Inr (Some r), s')" "rid_page_id r = p"
      "pg_tuple (pool_page s p) (unat (rid_slot_num r)) = None" "pool_page s' p = d" "page_ok d"
      "pg_tuple d = (pg_tuple (pool_page s p))(unat (rid_slot_num r) \<mapsto> t)" "pg_next d = pg_next (pool_page s p)"
      "pool_st page_view {} s'" "pool_used s' = pool_used s" "heap_frame {p} s s'"
      "disk_space (pool_disk s') = disk_space (pool_disk s)"
  | (go) s' where "heap_insert_from (ret_op ()) (Suc n) p c t s = heap_insert_from (ret_op ()) n (pg_next (pool_page s p)) c t s'"
      "pg_next (pool_page s p) \<noteq> INVALID_PAGE_ID" "pool_st page_view {} s'" "pool_used s' = pool_used s" "heap_frame {} s s'"
      "disk_space (pool_disk s') = disk_space (pool_disk s)"
  | (link) q d s' where "heap_insert_from (ret_op ()) (Suc n) p c t s = heap_insert_from (ret_op ()) n q True t s'" "\<not> c"
      "pg_next (pool_page s p) = INVALID_PAGE_ID" "q \<notin> pool_used s" "q \<noteq> INVALID_PAGE_ID" "pool_st page_view {} s'"
      "pool_used s' = insert q (pool_used s)" "pool_page s' p = d" "page_ok d" "pg_next d = q"
      "pg_tuple d = pg_tuple (pool_page s p)" "pool_page s' q = fresh_page" "heap_frame {p, q} s s'"
  | (full) "c" "pg_next (pool_page s p) = INVALID_PAGE_ID"
      "\<exists>d. insert_or_compact (\<lambda>d. sp_insert_tuple d t None) sp_is_compacted sp_compact (pool_page s p) = Inr (None, d)"
proof -
  have room': "pool_room (Suc (Suc 0)) s" using room by (simp add: numeral_2_eq_2)
  obtain f s1 where a: "bpm_fetch_page p s = (Inr (Some f), s1)" "pool_st page_view {} s1" "pool_held s1 p f"
    "pool_page s1 p = pool_page s p" "pool_pins s1 = (pool_pins s)(p := Suc (pool_pins s p))"
    "pool_keeps page_view {} s s1" "pool_used s1 = pool_used s" "pool_capacity s1 = pool_capacity s" "pool_room (Suc 0) s1"
    "disk_space (pool_disk s1) = disk_space (pool_disk s)"
    by (rule pool_fetch_ok[OF st p room'], rule that)
  have ok1: "page_ok (pool_page s1 p)" using a(4) ok by simp
  have keep1: "page_view (pool_page s1 x) = page_view (pool_page s x)" for x using a(6) by (simp add: pool_keeps_def)
  show ?thesis
  proof (rule sp.insert_or_compact_cases[OF ok1 len])
    fix r d
    assume b: "insert_or_compact (\<lambda>d. sp_insert_tuple d t None) sp_is_compacted sp_compact (pool_page s1 p) = Inr (Some r, d)"
      "page_ok d" "pg_tuple (pool_page s1 p) (unat (rid_slot_num r)) = None"
      "pg_tuple d = (pg_tuple (pool_page s1 p))(unat (rid_slot_num r) \<mapsto> t)" "pg_next d = pg_next (pool_page s1 p)"
    note ins = insert_page_hit[OF a(2,3) ok1 len b(1), of "ret_op ()" c]
    note w = with_data_st[OF a(2,3) page_ok_length[OF b(2)]]
    define X where "X = (if page_view d = page_view (pool_page s1 p) then {} else insert p {})"
    have X: "X \<subseteq> {p}" by (simp add: X_def)
    have held: "pool_held (with_data s1 f d) p f" using w(7) a(3) by simp
    have pins: "pool_pins (with_data s1 f d) = pool_pins s1" and cap: "pool_capacity (with_data s1 f d) = pool_capacity s"
      using w(4,6) a(8) by simp_all
    obtain s3 where u: "pinned_destroy (Some f) True (with_data s1 f d) = (Inr (), s3)" "pool_st page_view {} s3"
      "pool_page s3 = pool_page (with_data s1 f d)" "pool_used s3 = pool_used (with_data s1 f d)"
      "pool_disk s3 = pool_disk (with_data s1 f d)" "pool_pins s3 = pool_pins s" "\<And>k. pool_room k s3 = pool_room k s"
      by (rule unpin_after_fetch[OF w(1)[folded X_def] held _ X a(5) pins cap, of True], simp, rule that)
    have "heap_insert_from (ret_op ()) (Suc n) p c t s = (Inr (Some (r\<lparr>rid_page_id := p\<rparr>)), s3)"
      using a(1) ins u(1) by (simp add: bind_op_def with_pinned_def ret_op_def)
    then show ?thesis
      by (rule hit[where d = d])
        (use a(4,7,10) b u w keep1 in \<open>simp_all add: heap_frame_def pool_used_def\<close>)
  next
    fix d
    assume b: "insert_or_compact (\<lambda>d. sp_insert_tuple d t None) sp_is_compacted sp_compact (pool_page s1 p) = Inr (None, d)"
      "page_ok d" "pg_tuple d = pg_tuple (pool_page s1 p)" "pg_next d = pg_next (pool_page s1 p)"
      "pg_count d = pg_count (pool_page s1 p)"
    have vd: "page_view d = page_view (pool_page s1 p)" using b ok1 by (simp add: page_view_def)
    note m = insert_page_miss(1)[OF a(2,3) b(1,2) vd, of "ret_op ()" c] insert_page_miss(2-)[OF a(2,3) b(1,2) vd]
    define s2 where "s2 = with_data s1 f d"
    have held: "pool_held s2 p f" using m(3) a(3) by (simp add: s2_def)
    have pins: "pool_pins s2 = pool_pins s1" and cap: "pool_capacity s2 = pool_capacity s"
      using m(6,8) a(8) by (simp_all add: s2_def)
    have keep2: "page_view (pool_page s2 x) = page_view (pool_page s x)" for x
      using m(5) vd keep1 by (simp add: s2_def)
    have st2: "pool_st page_view {} s2" using m(2) by (simp add: s2_def)
    consider (has) "pg_next (pool_page s p) \<noteq> INVALID_PAGE_ID" | (stop) "pg_next (pool_page s p) = INVALID_PAGE_ID" "c"
      | (new) "pg_next (pool_page s p) = INVALID_PAGE_ID" "\<not> c" by blast
    then show ?thesis
    proof cases
      case has
      obtain s3 where u: "pinned_destroy (Some f) False s2 = (Inr (), s3)" "pool_st page_view {} s3"
        "pool_page s3 = pool_page s2" "pool_used s3 = pool_used s2"
        "pool_disk s3 = pool_disk s2" "pool_pins s3 = pool_pins s" "\<And>k. pool_room k s3 = pool_room k s"
        by (rule unpin_after_fetch[OF st2 held _ _ a(5) pins cap, of False], simp, simp, rule that)
      have "heap_insert_from (ret_op ()) (Suc n) p c t s = heap_insert_from (ret_op ()) n (pg_next (pool_page s p)) c t s3"
        using a(1,4) m(1) u(1) has b(4) by (simp add: bind_op_def with_pinned_def ret_op_def s2_def)
      then show ?thesis
        by (rule go) (use has u m(7) keep2 a(7,10) in \<open>simp_all add: heap_frame_def pool_used_def s2_def\<close>)
    next
      case stop
      then show ?thesis using full b(1) a(4) by auto
    next
      case new
      have ok2: "page_ok (pool_page s2 p)" "pg_next (pool_page s2 p) = INVALID_PAGE_ID"
        using b(2,4) a(4) new(1) m(5) by (simp_all add: s2_def)
      have p2: "p \<in> pool_used s2" using p a(7) m(7) by (simp add: pool_used_def s2_def)
      have alloc2: "disk_alloc (pool_disk s2)" using alloc new a(10) m(7) by (simp add: s2_def)
      have room2: "pool_room (Suc 0) s2" using a(9) pins cap a(8) by (simp add: pool_room_def)
      obtain q e s3 where l: "heap_link_new_page (ret_op ()) f s2 = (Inr (Insert_Continue q True, True), s3)"
        "q \<notin> pool_used s2" "q \<noteq> INVALID_PAGE_ID" "pool_st page_view {p} s3" "pool_held s3 p f"
        "pool_used s3 = insert q (pool_used s2)" "pool_page s3 p = e" "pool_page s3 q = fresh_page"
        "page_ok e" "pg_next e = q" "pg_tuple e = pg_tuple (pool_page s2 p)"
        "pool_pins s3 = pool_pins s2" "pool_capacity s3 = pool_capacity s2"
        "\<And>x. x \<noteq> p \<Longrightarrow> x \<noteq> q \<Longrightarrow> page_view (pool_page s3 x) = page_view (pool_page s2 x)"
        by (rule link_new_page[OF st2 held ok2 p2 alloc2 room2], rule that)
      have pins3: "pool_pins s3 = pool_pins s1" and cap3: "pool_capacity s3 = pool_capacity s"
        using l(12,13) pins cap by simp_all
      obtain s4 where u: "pinned_destroy (Some f) True s3 = (Inr (), s4)" "pool_st page_view {} s4"
        "pool_page s4 = pool_page s3" "pool_used s4 = pool_used s3"
        "pool_disk s4 = pool_disk s3" "pool_pins s4 = pool_pins s" "\<And>k. pool_room k s4 = pool_room k s"
        by (rule unpin_after_fetch[OF l(4,5) _ _ a(5) pins3 cap3, of True], simp, simp, rule that)
      have us: "pool_used s2 = pool_used s" using a(7) m(7) by (simp add: pool_used_def s2_def)
      have "heap_insert_from (ret_op ()) (Suc n) p c t s = heap_insert_from (ret_op ()) n q True t s4"
        using a(1,4) m(1) u(1) new b(4) l(1) by (simp add: bind_op_def with_pinned_def ret_op_def s2_def)
      moreover have "heap_frame {p, q} s s4"
        using u(3,6,7) l(14) keep2 by (simp add: heap_frame_def)
      moreover have "pg_tuple e = pg_tuple (pool_page s p)"
        using l(11) keep2[of p] by (simp add: page_view_def)
      ultimately show ?thesis
        using link[of q s4 e] new l us u by simp
    qed
  qed
qed

lemma fresh_page_hit:
  assumes "length t \<le> MAX_TUPLE_SIZE"
  shows "insert_or_compact (\<lambda>d. sp_insert_tuple d t None) sp_is_compacted sp_compact fresh_page \<noteq> Inr (None, d)"
proof -
  have "pg_fits fresh_page (length t)"
    using assms by (simp add: fresh_page_room MAX_TUPLE_SIZE_def kPAGE_SIZE_def sizeof_PageHeader_def sizeof_Slot_def)
  from insert_tuple_room(1)[OF fresh_page_ok(1) this, of None] show ?thesis
    by (simp add: insert_or_compact_def)
qed

lemma max_tuple_small: "length t \<le> MAX_TUPLE_SIZE \<Longrightarrow> length t < 65536"
  by (simp add: MAX_TUPLE_SIZE_def kPAGE_SIZE_def sizeof_PageHeader_def sizeof_Slot_def)

lemma heap_map_Cons:
  "p \<notin> set qs \<Longrightarrow> heap_map pc (p # qs) r =
    (if rid_page_id r = p then pg_tuple (pc p) (unat (rid_slot_num r)) else heap_map pc qs r)"
  by (simp add: heap_map_def)

lemma slot_eq:
  fixes r q :: rid
  shows "rid_page_id r = rid_page_id q \<Longrightarrow> unat (rid_slot_num r) = unat (rid_slot_num q) \<longleftrightarrow> r = q"
  by (cases r; cases q) (auto simp: word_unat_eq_iff)

text \<open>What an insertion into the suffix \<open>qs\<close> of a chain gives: \<open>ns\<close> is the new page, if any\<close>

definition inserted :: "pool \<Rightarrow> pool \<Rightarrow> page_id \<Rightarrow> page_id list \<Rightarrow> page_id list \<Rightarrow> byte list \<Rightarrow> rid \<Rightarrow> bool" where
  "inserted s s' p qs ns t r \<longleftrightarrow>
     pool_st page_view {} s' \<and> heap_chain (pool_page s') p (qs @ ns) \<and> distinct (qs @ ns) \<and> length ns \<le> 1 \<and>
     set ns \<inter> pool_used s = {} \<and> pool_used s' = pool_used s \<union> set ns \<and>
     rid_page_id r \<in> set (qs @ ns) \<and> heap_map (pool_page s) qs r = None \<and>
     heap_map (pool_page s') (qs @ ns) = (heap_map (pool_page s) qs)(r \<mapsto> t) \<and>
     heap_frame (set (qs @ ns)) s s' \<and> (ns = [] \<longrightarrow> disk_space (pool_disk s') = disk_space (pool_disk s))"

lemma inserted_here:
  assumes "heap_chain (pool_page s) p (p # qs)" "distinct (p # qs)" "set (p # qs) \<subseteq> pool_used s"
    and "rid_page_id r = p" "pg_tuple (pool_page s p) (unat (rid_slot_num r)) = None" "pool_page s' p = d" "page_ok d"
    and "pg_tuple d = (pg_tuple (pool_page s p))(unat (rid_slot_num r) \<mapsto> t)" "pg_next d = pg_next (pool_page s p)"
    and "pool_st page_view {} s'" "pool_used s' = pool_used s" "heap_frame {p} s s'"
    and "disk_space (pool_disk s') = disk_space (pool_disk s)"
  shows "inserted s s' p (p # qs) [] t r"
proof -
  have v: "page_view (pool_page s' x) = (if x = p then page_view d else page_view (pool_page s x))" for x
    using assms(6,12) by (simp add: heap_frame_def)
  have pin: "p \<in> set (p # qs)" by simp
  note h = heap_set_page[OF assms(1) pin assms(7,9) v]
  have "heap_map (pool_page s') (p # qs) x = ((heap_map (pool_page s) (p # qs))(r \<mapsto> t)) x" for x
    using h(2)[of x] assms(4,8) slot_eq[of x r] by (auto simp: heap_map_def)
  moreover have "heap_map (pool_page s) (p # qs) r = None"
    using assms(4,5) by (simp add: heap_map_def)
  ultimately show ?thesis
    using assms h(1) heap_frame_mono[OF assms(12), of "set (p # qs)"]
    by (simp add: inserted_def fun_eq_iff)
qed

lemma inserted_later:
  assumes "inserted s1 s' q qs ns t r" and "heap_chain (pool_page s) p (p # qs)" "distinct (p # qs)"
    and "set (p # qs) \<subseteq> pool_used s" "pg_next (pool_page s p) = q" "pool_used s1 = pool_used s" "heap_frame {} s s1"
    and "disk_space (pool_disk s1) = disk_space (pool_disk s)"
  shows "inserted s s' p (p # qs) ns t r"
proof -
  have i: "pool_st page_view {} s'" "heap_chain (pool_page s') q (qs @ ns)" "distinct (qs @ ns)" "length ns \<le> 1"
    "set ns \<inter> pool_used s1 = {}" "pool_used s' = pool_used s1 \<union> set ns" "rid_page_id r \<in> set (qs @ ns)"
    "heap_map (pool_page s1) qs r = None" "heap_map (pool_page s') (qs @ ns) = (heap_map (pool_page s1) qs)(r \<mapsto> t)"
    "heap_frame (set (qs @ ns)) s1 s'" "ns = [] \<longrightarrow> disk_space (pool_disk s') = disk_space (pool_disk s1)"
    using assms(1) by (simp_all add: inserted_def)
  have pn: "p \<notin> set ns" "p \<notin> set (qs @ ns)" using assms(3,4,6) i(5) by auto
  have v1: "page_view (pool_page s1 x) = page_view (pool_page s x)" for x
    using assms(7) by (simp add: heap_frame_def)
  have vp: "page_view (pool_page s' p) = page_view (pool_page s p)"
    using i(10) pn v1 by (simp add: heap_frame_def)
  have m1: "heap_map (pool_page s1) qs = heap_map (pool_page s) qs" by (rule heap_view_cong(2)) (rule v1)
  have rp: "rid_page_id r \<noteq> p" using i(7) pn by auto
  have "heap_map (pool_page s') (p # qs @ ns) x = ((heap_map (pool_page s) (p # qs))(r \<mapsto> t)) x" for x
    using heap_map_Cons[OF pn(2), of "pool_page s'" x] heap_map_Cons[of p qs "pool_page s" x] assms(3) i(9) m1 vp rp
    by (auto simp: page_view_def)
  moreover have "heap_map (pool_page s) (p # qs) r = None"
    using heap_map_Cons[of p qs "pool_page s" r] assms(3) rp i(8) m1 by simp
  moreover have "heap_chain (pool_page s') p (p # qs @ ns)"
    using assms(2,5) vp i(2) by (auto simp: page_view_def)
  moreover have "heap_frame (set (p # qs @ ns)) s s'"
    using heap_frame_trans[OF assms(7) i(10)] by (rule heap_frame_mono) auto
  ultimately show ?thesis
    using i pn assms(3,6,8) by (auto simp: inserted_def fun_eq_iff)
qed

lemma inserted_linked:
  assumes "inserted s1 s' q [q] [] t r" "heap_chain (pool_page s) p [p]" "p \<in> pool_used s"
    and "q \<notin> pool_used s" "q \<noteq> INVALID_PAGE_ID" "pool_used s1 = insert q (pool_used s)" "pool_page s1 p = d" "page_ok d"
    and "pg_next d = q" "pg_tuple d = pg_tuple (pool_page s p)" "pool_page s1 q = fresh_page" "heap_frame {p, q} s s1"
  shows "inserted s s' p [p] [q] t r"
proof -
  have i: "pool_st page_view {} s'" "heap_chain (pool_page s') q [q]" "pool_used s' = pool_used s1" "rid_page_id r = q"
    "heap_map (pool_page s') [q] = (heap_map (pool_page s1) [q])(r \<mapsto> t)" "heap_frame {q} s1 s'"
    using assms(1) by (simp_all add: inserted_def)
  have pq: "p \<noteq> q" using assms(3,4) by blast
  have vp: "page_view (pool_page s' p) = page_view d" using i(6) pq assms(7) by (simp add: heap_frame_def)
  have ch: "heap_chain (pool_page s') p [p, q]"
    using vp assms(2,8,9) i(2) by (auto simp: page_view_def)
  have "heap_map (pool_page s') [p, q] x = ((heap_map (pool_page s) [p])(r \<mapsto> t)) x" for x
    using fun_cong[OF i(5), of x] vp assms(10,11) i(4) pq
    by (auto simp: heap_map_def page_view_def fresh_page_ok split: if_splits)
  moreover have "heap_map (pool_page s) [p] r = None" using i(4) pq by (simp add: heap_map_def)
  moreover have "heap_frame {p, q} s s'"
    using heap_frame_trans[OF assms(12) i(6)] by (rule heap_frame_mono) auto
  ultimately show ?thesis
    using i ch pq assms(4,6) by (simp add: inserted_def fun_eq_iff)
qed

lemma insert_loop:
  assumes "pool_st page_view {} s" "heap_chain (pool_page s) p qs" "qs \<noteq> []" "distinct qs" "set qs \<subseteq> pool_used s"
    and "length t \<le> MAX_TUPLE_SIZE" "pool_room 2 s" "disk_alloc (pool_disk s) \<or> c" "c \<Longrightarrow> qs = [p] \<and> pool_page s p = fresh_page"
    and "length qs + (if c then 0 else 1) \<le> n"
  shows "\<exists>r s' ns. heap_insert_from (ret_op ()) n p c t s = (Inr (Some r), s') \<and> inserted s s' p qs ns t r \<and>
    (c \<longrightarrow> ns = [])"
  using assms
proof (induction n arbitrary: s p qs c)
  case 0
  then show ?case by auto
next
  case (Suc n)
  note a = Suc.prems
  obtain qs' where qs: "qs = p # qs'" using a(2,3) by (cases qs) auto
  have chain: "heap_chain (pool_page s) p (p # qs')" using a(2) qs by simp
  then have tail: "heap_chain (pool_page s) (pg_next (pool_page s p)) qs'" and ok: "page_ok (pool_page s p)" by auto
  have dist: "distinct (p # qs')" "set (p # qs') \<subseteq> pool_used s" using a(4,5) qs by simp_all
  have pu: "p \<in> pool_used s" using dist by simp
  note len = max_tuple_small[OF a(6)]
  show ?case
  proof (rule insert_iter[OF a(1) pu ok len a(7), where c = c and n = n])
    show "disk_alloc (pool_disk s) \<or> c" by (rule a(8))
  next
    fix r d s'
    assume b: "heap_insert_from (ret_op ()) (Suc n) p c t s = (Inr (Some r), s')" "rid_page_id r = p"
      "pg_tuple (pool_page s p) (unat (rid_slot_num r)) = None" "pool_page s' p = d" "page_ok d"
      "pg_tuple d = (pg_tuple (pool_page s p))(unat (rid_slot_num r) \<mapsto> t)" "pg_next d = pg_next (pool_page s p)"
      "pool_st page_view {} s'" "pool_used s' = pool_used s" "heap_frame {p} s s'"
      "disk_space (pool_disk s') = disk_space (pool_disk s)"
    from inserted_here[OF chain dist b(2-)] b(1) qs show ?thesis by blast
  next
    fix s1
    assume b: "heap_insert_from (ret_op ()) (Suc n) p c t s = heap_insert_from (ret_op ()) n (pg_next (pool_page s p)) c t s1"
      "pg_next (pool_page s p) \<noteq> INVALID_PAGE_ID" "pool_st page_view {} s1" "pool_used s1 = pool_used s" "heap_frame {} s s1"
      "disk_space (pool_disk s1) = disk_space (pool_disk s)"
    have ne: "qs' \<noteq> []" using tail b(2) by auto
    have nc: "\<not> c" using a(9) ne qs by auto
    have v: "page_view (pool_page s1 x) = page_view (pool_page s x)" for x using b(5) by (simp add: heap_frame_def)
    have ch1: "heap_chain (pool_page s1) (pg_next (pool_page s p)) qs'"
      using tail heap_view_cong(1)[of qs' "pool_page s1" "pool_page s", OF v] by simp
    have room1: "pool_room 2 s1" using b(5) a(7) by (simp add: heap_frame_def)
    obtain r s' ns where i: "heap_insert_from (ret_op ()) n (pg_next (pool_page s p)) c t s1 = (Inr (Some r), s')"
      "inserted s1 s' (pg_next (pool_page s p)) qs' ns t r"
      using Suc.IH[OF b(3) ch1 ne _ _ a(6) room1, of c] dist b(4,6) a(8,10) nc qs by auto
    from inserted_later[OF i(2) chain dist refl b(4,5,6)] b(1) i(1) nc qs show ?thesis by auto
  next
    fix q d s1
    assume b: "heap_insert_from (ret_op ()) (Suc n) p c t s = heap_insert_from (ret_op ()) n q True t s1" "\<not> c"
      "pg_next (pool_page s p) = INVALID_PAGE_ID" "q \<notin> pool_used s" "q \<noteq> INVALID_PAGE_ID" "pool_st page_view {} s1"
      "pool_used s1 = insert q (pool_used s)" "pool_page s1 p = d" "page_ok d" "pg_next d = q"
      "pg_tuple d = pg_tuple (pool_page s p)" "pool_page s1 q = fresh_page" "heap_frame {p, q} s s1"
    have qs1: "qs' = []" using tail b(3) by (cases qs') auto
    have ch1: "heap_chain (pool_page s1) q [q]" using b(5,12) by (simp add: fresh_page_ok)
    have room1: "pool_room 2 s1" using b(13) a(7) by (simp add: heap_frame_def)
    have n1: "length [q] + (if True then 0 else 1) \<le> n" using a(10) b(2) qs qs1 by simp
    obtain r s' where i: "heap_insert_from (ret_op ()) n q True t s1 = (Inr (Some r), s')"
      "inserted s1 s' q [q] [] t r"
      using Suc.IH[OF b(6) ch1 _ _ _ a(6) room1 _ _ n1] b(7,12) by auto
    have ch: "heap_chain (pool_page s) p [p]" using chain qs1 by simp
    from inserted_linked[OF i(2) ch pu b(4,5,7-13)] b(1,2) i(1) qs qs1 show ?thesis by auto
  next
    assume b: "c" "\<exists>d. insert_or_compact (\<lambda>d. sp_insert_tuple d t None) sp_is_compacted sp_compact (pool_page s p) = Inr (None, d)"
    then show ?thesis using a(9) fresh_page_hit[OF a(6)] by auto
  qed
qed

text \<open>Distinct page identifiers bound the length of a chain\<close>

lemma chain_length: "distinct (ps :: page_id list) \<Longrightarrow> INVALID_PAGE_ID \<notin> set ps \<Longrightarrow> length ps + 1 \<le> kCHAIN_FUEL"
proof -
  assume a: "distinct ps" "INVALID_PAGE_ID \<notin> set ps"
  have "Suc (card (set ps)) = card (insert INVALID_PAGE_ID (set ps))" using a(2) by simp
  also have "\<dots> \<le> card (UNIV :: page_id set)" by (rule card_mono) auto
  also have "\<dots> = 2 ^ 32" by (simp add: card_word)
  finally show ?thesis using a(1) by (simp add: distinct_card kCHAIN_FUEL_def)
qed

lemma heap_chain_valid: "heap_chain pc p ps \<Longrightarrow> INVALID_PAGE_ID \<notin> set ps"
  by (induction ps arbitrary: p) auto

lemma heap_insert_spec:
  assumes "heap_inv s p ps" "length t \<le> MAX_TUPLE_SIZE" "pool_room 2 s" "disk_alloc (pool_disk s)"
  obtains r s' ns where "heap_insert_tuple (ret_op ()) p t s = (Inr (Some r), s')" "heap_inv s' p (ps @ ns)"
    "inserted s s' p ps ns t r"
proof -
  note h = heap_invD[OF assms(1)]
  have "length ps + 1 \<le> kCHAIN_FUEL" by (rule chain_length[OF h(4) heap_chain_valid[OF h(2)]])
  then obtain r s' ns where i: "heap_insert_from (ret_op ()) kCHAIN_FUEL p False t s = (Inr (Some r), s')" "inserted s s' p ps ns t r"
    using insert_loop[OF h(1-5) assms(2,3), of False kCHAIN_FUEL] assms(4) by auto
  have "heap_insert_tuple (ret_op ()) p t s = (Inr (Some r), s')"
    using i(1) assms(2) by (simp add: heap_insert_tuple_def)
  moreover have "heap_inv s' p (ps @ ns)" using i(2) h by (auto simp: heap_inv_def inserted_def)
  ultimately show ?thesis using that i(2) by blast
qed

section \<open>Updating\<close>

lemma delete_then_compact:
  assumes "page_ok d" "k < pg_count d"
  obtains b d2 where "sp_is_compacted (pg_delete d k) = Inr b"
    "(if b then d2 = pg_delete d k else sp_compact (pg_delete d k) = Inr d2)"
    "page_ok d2" "pg_tuple d2 = (pg_tuple d)(k := None)" "pg_next d2 = pg_next d" "pg_count d2 = pg_count d"
    "pg_off d2 k = 0"
proof -
  define d1 where "d1 = pg_delete d k"
  note del = delete_ok[OF assms] delete_fields[OF page_okD(1)[OF assms(1)] assms(2)]
  obtain b where b: "sp_is_compacted d1 = Inr b" using is_compacted_total del(1) unfolding d1_def by blast
  obtain c where c: "sp_compact d1 = Inr c" "page_ok c" "pg_tuple c = pg_tuple d1" "pg_next c = pg_next d1"
    "pg_count c = pg_count d1" "pg_fso c = 8192 - pg_used d1 (pg_count d1)"
    "\<And>i. i < pg_count d1 \<Longrightarrow> pg_off c i = 0 \<longleftrightarrow> pg_off d1 i = 0"
    by (rule compact_spec[OF del(1)[folded d1_def]], rule that)
  have z: "pg_off d1 k = 0" using del(7)[of k] assms(2) by (simp add: d1_def)
  show ?thesis
  proof (cases b)
    case True
    then show ?thesis using that[of True d1] b del z by (simp add: d1_def)
  next
    case False
    then show ?thesis using that[of False c] b c del z c(7)[of k] assms(2) by (simp add: d1_def)
  qed
qed

lemma update_page_run:
  assumes "pool_st page_view X s" "pool_held s p f" "page_ok (pool_page s p)" "length t < 65536"
    and "rid_page_id r = p"
  defines "d \<equiv> pool_page s p" and "k \<equiv> unat (rid_slot_num r)"
  obtains (absent) "heap_update_page f r t s = (Inr (Update_Done None, False), s)" "pg_tuple d k = None"
  | (updated) e where "heap_update_page f r t s = (Inr (Update_Done (Some r), True), with_data s f e)"
      "pg_tuple d k \<noteq> None" "page_ok e" "pg_tuple e = (pg_tuple d)(k \<mapsto> t)" "pg_next e = pg_next d"
  | (elsewhere) e where "heap_update_page f r t s = (Inr (Update_Elsewhere, True), with_data s f e)"
      "pg_tuple d k \<noteq> None" "page_ok e" "pg_tuple e = (pg_tuple d)(k := None)" "pg_next e = pg_next d"
      "\<not> pg_fits e (length t)"
proof -
  note h = held_frame[OF assms(1,2)]
  note run = with_data_run(1-3)[OF h(1)]
  have s: "s = with_data s f d" using h(3) by (simp add: d_def)
  have ok: "page_ok d" using assms(3) by (simp add: d_def)
  have has: "sp_has_slot d (rid_slot_num r) = Inr (pg_tuple d k \<noteq> None)"
    using has_slot_eq[OF ok] by (simp add: k_def)
  have has_run: "page_read f (\<lambda>d. sp_has_slot d (rid_slot_num r)) s = (Inr (pg_tuple d k \<noteq> None), s)"
    using with_data_run(2)[OF h(1), of "\<lambda>d. sp_has_slot d (rid_slot_num r)" d] has s by simp
  show ?thesis
  proof (cases "pg_tuple d k")
    case None
    then show ?thesis using absent has_run by (simp add: heap_update_page_def bind_op_def ret_op_def)
  next
    case (Some u)
    then have live: "pg_live d k" and u: "u = seg d (pg_off d k) (pg_len d k)"
      by (auto simp: pg_tuple_def split: if_splits)
    have kc: "k < pg_count d" using live by (simp add: pg_live_def)
    note tu = try_update_in_place_eq[OF ok assms(4), of r, folded k_def]
    show ?thesis
    proof (cases "length t \<le> pg_len d k")
      case True
      have "page_update f (\<lambda>d. sp_try_update_in_place d r t) s = (Inr True, with_data s f (pg_update d k t))"
        by (rule held_update[OF assms(1,2)]) (use tu True live in \<open>simp add: d_def\<close>)
      then show ?thesis
        using updated[of "pg_update d k t"] has_run Some update_ok[OF ok live True]
          update_fields(3)[OF page_okD(1)[OF ok] page_okD(2)[OF ok] live True]
        by (simp add: heap_update_page_def bind_op_def ret_op_def)
    next
      case False
      have up: "page_update f (\<lambda>d. sp_try_update_in_place d r t) s = (Inr False, s)"
        using held_update[OF assms(1,2), of "\<lambda>d. sp_try_update_in_place d r t" False d] tu False s
        by (simp add: d_def)
      have del: "page_update f (\<lambda>d. sp_delete_tuple d (rid_slot_num r)) s = (Inr True, with_data s f (pg_delete d k))"
        by (rule held_update[OF assms(1,2)]) (use delete_tuple_eq[OF ok] Some in \<open>simp add: d_def k_def\<close>)
      obtain b e where b: "sp_is_compacted (pg_delete d k) = Inr b"
        "(if b then e = pg_delete d k else sp_compact (pg_delete d k) = Inr e)"
        "page_ok e" "pg_tuple e = (pg_tuple d)(k := None)" "pg_next e = pg_next d" "pg_count e = pg_count d"
        "pg_off e k = 0"
        by (rule delete_then_compact[OF ok kc], rule that)
      have pick: "pg_pick e (Some (rid_slot_num r)) = k"
        using pg_pick_pref[of "rid_slot_num r" e] kc b(6,7) by (simp add: k_def)
      define ins where "ins = (\<lambda>d. sp_insert_tuple d t (Some (rid_slot_num r)))"
      have re: "heap_reinsert f r t (with_data s f (pg_delete d k)) = page_update f ins (with_data s f e)"
        using b(1,2) by (cases b) (simp_all add: heap_reinsert_def bind_op_def ret_op_def run ins_def)
      have all: "heap_update_page f r t s = bind_op (page_update f ins) (\<lambda>rid_opt.
            case rid_opt of
              Some x \<Rightarrow> bind_op (pinned_page_id (Some f)) (\<lambda>p. ret_op (Update_Done (Some (x\<lparr>rid_page_id := p\<rparr>)), True))
            | None \<Rightarrow> ret_op (Update_Elsewhere, True)) (with_data s f e)"
        using has_run Some up del re by (simp add: heap_update_page_def bind_op_def)
      show ?thesis
      proof (cases "pg_fits e (length t)")
        case True
        note room = insert_tuple_room[OF b(3) True, of "Some (rid_slot_num r)", unfolded pick]
        have "heap_update_page f r t s = (Inr (Update_Done (Some r), True),
            with_data s f (pg_insert e t (Some (rid_slot_num r))))"
          unfolding all using room(1) assms(5) h(2)
          by (simp add: bind_op_def run ret_op_def ins_def) (simp add: k_def)
        moreover have "pg_tuple (pg_insert e t (Some (rid_slot_num r))) = (pg_tuple d)(k \<mapsto> t)"
          using room(3) b(4) by simp
        ultimately show ?thesis
          using updated Some room(2,5) b(5) by simp
      next
        case False
        have "heap_update_page f r t s = (Inr (Update_Elsewhere, True), with_data s f e)"
          unfolding all using insert_tuple_no_room[OF b(3) assms(4) False, of "Some (rid_slot_num r)"]
          by (simp add: bind_op_def run ret_op_def ins_def)
        then show ?thesis using elsewhere False Some b by simp
      qed
    qed
  qed
qed

lemma set_page_map:
  assumes "heap_chain (pool_page s) p ps" "rid_page_id r \<in> set ps" "page_ok e" "pg_next e = pg_next (pool_page s (rid_page_id r))"
    and "pg_tuple e = (pg_tuple (pool_page s (rid_page_id r)))(unat (rid_slot_num r) := y)"
    and "\<And>x. page_view (pool_page s' x) = (if x = rid_page_id r then page_view e else page_view (pool_page s x))"
  shows "heap_chain (pool_page s') p ps" "heap_map (pool_page s') ps = (heap_map (pool_page s) ps)(r := y)"
proof -
  note h = heap_set_page[OF assms(1-4,6)]
  show "heap_chain (pool_page s') p ps" by (rule h(1))
  show "heap_map (pool_page s') ps = (heap_map (pool_page s) ps)(r := y)"
    using h(2) assms(2,5) slot_eq[of _ r] by (auto simp: heap_map_def fun_eq_iff)
qed

text \<open>An update: absent, done in the page of the tuple, or the tuple deleted and inserted elsewhere\<close>

lemma heap_update_steps:
  assumes "heap_inv s p ps" "rid_page_id r \<in> set ps" "length t < 65536" "pool_room (Suc k) s"
  obtains (absent) s' where "heap_update_tuple others p r t s = (Inr None, s')" "heap_map (pool_page s) ps r = None"
      "heap_inv s' p ps" "heap_frame {} s s'" "pool_used s' = pool_used s"
      "disk_space (pool_disk s') = disk_space (pool_disk s)" "heap_map (pool_page s') ps = heap_map (pool_page s) ps"
  | (updated) s' where "heap_update_tuple others p r t s = (Inr (Some r), s')" "heap_map (pool_page s) ps r \<noteq> None"
      "heap_inv s' p ps" "heap_frame (set ps) s s'" "pool_used s' = pool_used s"
      "disk_space (pool_disk s') = disk_space (pool_disk s)"
      "heap_map (pool_page s') ps = (heap_map (pool_page s) ps)(r \<mapsto> t)"
  | (elsewhere) s' where "heap_update_tuple others p r t s = heap_insert_tuple others p t s'"
      "heap_map (pool_page s) ps r \<noteq> None" "heap_inv s' p ps" "heap_frame (set ps) s s'" "pool_used s' = pool_used s"
      "disk_space (pool_disk s') = disk_space (pool_disk s)"
      "heap_map (pool_page s') ps = (heap_map (pool_page s) ps)(r := None)"
proof -
  let ?q = "rid_page_id r"
  note h = heap_invD[OF assms(1)]
  have qu: "?q \<in> pool_used s" using h(5) assms(2) by blast
  obtain f s1 where a: "bpm_fetch_page ?q s = (Inr (Some f), s1)" "pool_st page_view {} s1" "pool_held s1 ?q f"
    "pool_page s1 ?q = pool_page s ?q" "pool_pins s1 = (pool_pins s)(?q := Suc (pool_pins s ?q))"
    "pool_keeps page_view {} s s1" "pool_used s1 = pool_used s" "pool_capacity s1 = pool_capacity s" "pool_room k s1"
    "disk_space (pool_disk s1) = disk_space (pool_disk s)"
    by (rule pool_fetch_ok[OF h(1) qu assms(4)], rule that)
  have ok: "page_ok (pool_page s1 ?q)" using a(4) h(6)[OF assms(2)] by simp
  have v1: "page_view (pool_page s1 x) = page_view (pool_page s x)" for x using a(6) by (simp add: pool_keeps_def)
  have mem: "heap_map (pool_page s) ps r = pg_tuple (pool_page s1 ?q) (unat (rid_slot_num r))"
    using assms(2) a(4) by (simp add: heap_map_def)
  have finish: thesis
    if run: "heap_update_page f r t s1 = (Inr (st, True), with_data s1 f e)"
      and e: "page_ok e" "pg_next e = pg_next (pool_page s1 ?q)"
        "pg_tuple e = (pg_tuple (pool_page s1 ?q))(unat (rid_slot_num r) := y)"
      and k: "\<And>s'. heap_update_tuple others p r t s =
          (case st of Update_Done x \<Rightarrow> (Inr x, s') | Update_Elsewhere \<Rightarrow> heap_insert_tuple others p t s') \<Longrightarrow>
        heap_inv s' p ps \<Longrightarrow> heap_frame (set ps) s s' \<Longrightarrow> pool_used s' = pool_used s \<Longrightarrow>
        disk_space (pool_disk s') = disk_space (pool_disk s) \<Longrightarrow>
        heap_map (pool_page s') ps = (heap_map (pool_page s) ps)(r := y) \<Longrightarrow> thesis"
    for st e y
  proof -
    note w = with_data_st[OF a(2,3) page_ok_length[OF e(1)]]
    define X where "X = (if page_view e = page_view (pool_page s1 ?q) then {} else insert ?q {})"
    have X: "X \<subseteq> {?q}" by (simp add: X_def)
    have held: "pool_held (with_data s1 f e) ?q f" using w(7) a(3) by simp
    have pins: "pool_pins (with_data s1 f e) = pool_pins s1" and cap: "pool_capacity (with_data s1 f e) = pool_capacity s"
      using w(4,6) a(8) by simp_all
    obtain s3 where u: "pinned_destroy (Some f) True (with_data s1 f e) = (Inr (), s3)" "pool_st page_view {} s3"
      "pool_page s3 = pool_page (with_data s1 f e)" "pool_used s3 = pool_used (with_data s1 f e)"
      "pool_disk s3 = pool_disk (with_data s1 f e)" "pool_pins s3 = pool_pins s" "\<And>k. pool_room k s3 = pool_room k s"
      by (rule unpin_after_fetch[OF w(1)[folded X_def] held _ X a(5) pins cap, of True], simp, rule that)
    have v3: "page_view (pool_page s3 x) = (if x = ?q then page_view e else page_view (pool_page s x))" for x
      using u(3) w(3) v1 by simp
    have e': "pg_next e = pg_next (pool_page s ?q)" "pg_tuple e = (pg_tuple (pool_page s ?q))(unat (rid_slot_num r) := y)"
      using e a(4) by simp_all
    note m = set_page_map[OF h(2) assms(2) e(1) e'(1,2) v3]
    have us: "pool_used s3 = pool_used s" using u(4) w(5) a(7) by (simp add: pool_used_def)
    have "heap_frame (set ps) s s3"
      using u(6,7) v3 assms(2) by (auto simp: heap_frame_def)
    moreover have "heap_update_tuple others p r t s =
        (case st of Update_Done x \<Rightarrow> (Inr x, s3) | Update_Elsewhere \<Rightarrow> heap_insert_tuple others p t s3)"
      using a(1) run u(1) by (simp add: heap_update_tuple_def bind_op_def with_pinned_def ret_op_def split: update_step.split)
    moreover have "heap_inv s3 p ps" using u(2) us m(1) h by (simp add: heap_inv_def)
    ultimately show ?thesis using k us m(2) u(5) w(5) a(10) by simp
  qed
  show ?thesis
  proof (rule update_page_run[OF a(2,3) ok assms(3) refl])
    assume b: "heap_update_page f r t s1 = (Inr (Update_Done None, False), s1)"
      "pg_tuple (pool_page s1 ?q) (unat (rid_slot_num r)) = None"
    obtain s3 where u: "pinned_destroy (Some f) False s1 = (Inr (), s3)" "pool_st page_view {} s3"
      "pool_page s3 = pool_page s1" "pool_used s3 = pool_used s1"
      "pool_disk s3 = pool_disk s1" "pool_pins s3 = pool_pins s" "\<And>k. pool_room k s3 = pool_room k s"
      by (rule unpin_after_fetch[OF a(2,3) _ _ a(5) refl a(8), of False], simp, simp, rule that)
    have v3: "page_view (pool_page s3 x) = page_view (pool_page s x)" for x using u(3) v1 by simp
    note c = heap_view_cong[of ps "pool_page s3" "pool_page s", OF v3]
    have "heap_update_tuple others p r t s = (Inr None, s3)"
      using a(1) b(1) u(1) by (simp add: heap_update_tuple_def bind_op_def with_pinned_def ret_op_def)
    then show ?thesis
      by (rule absent) (use u v3 c h b(2) mem a(7,10) in \<open>simp_all add: heap_inv_def heap_frame_def\<close>)
  next
    fix e
    assume b: "heap_update_page f r t s1 = (Inr (Update_Done (Some r), True), with_data s1 f e)"
      "pg_tuple (pool_page s1 ?q) (unat (rid_slot_num r)) \<noteq> None" "page_ok e"
      "pg_tuple e = (pg_tuple (pool_page s1 ?q))(unat (rid_slot_num r) \<mapsto> t)" "pg_next e = pg_next (pool_page s1 ?q)"
    show ?thesis
      by (rule finish[OF b(1,3,5,4)]) (rule updated; use b(2) mem in simp)
  next
    fix e
    assume b: "heap_update_page f r t s1 = (Inr (Update_Elsewhere, True), with_data s1 f e)"
      "pg_tuple (pool_page s1 ?q) (unat (rid_slot_num r)) \<noteq> None" "page_ok e"
      "pg_tuple e = (pg_tuple (pool_page s1 ?q))(unat (rid_slot_num r) := None)" "pg_next e = pg_next (pool_page s1 ?q)"
    show ?thesis
      by (rule finish[OF b(1,3,5,4)]) (rule elsewhere; use b(2) mem in simp)
  qed
qed

lemma heap_update_spec:
  assumes "heap_inv s p ps" "rid_page_id r \<in> set ps" "length t \<le> MAX_TUPLE_SIZE" "pool_room 2 s" "disk_alloc (pool_disk s)"
    "heap_map (pool_page s) ps r \<noteq> None"
  obtains r' s' ns where "heap_update_tuple (ret_op ()) p r t s = (Inr (Some r'), s')" "heap_inv s' p (ps @ ns)"
    "r' = r \<or> heap_map (pool_page s) ps r' = None"
    "heap_map (pool_page s') (ps @ ns) = (heap_map (pool_page s) ps)(r := None, r' \<mapsto> t)"
    "heap_frame (set (ps @ ns)) s s'" "pool_used s' = pool_used s \<union> set ns"
    "ns = [] \<longrightarrow> disk_space (pool_disk s') = disk_space (pool_disk s)"
proof -
  have room: "pool_room (Suc (Suc 0)) s" using assms(4) by (simp add: numeral_2_eq_2)
  show ?thesis
  proof (rule heap_update_steps[OF assms(1,2) max_tuple_small[OF assms(3)] room, of "ret_op ()"])
    assume "heap_map (pool_page s) ps r = None"
    then show ?thesis using assms(6) by simp
  next
    fix s'
    assume a: "heap_update_tuple (ret_op ()) p r t s = (Inr (Some r), s')" "heap_inv s' p ps" "heap_frame (set ps) s s'"
      "pool_used s' = pool_used s" "disk_space (pool_disk s') = disk_space (pool_disk s)"
      "heap_map (pool_page s') ps = (heap_map (pool_page s) ps)(r \<mapsto> t)"
    then show ?thesis using that[of r s' "[]"] by simp
  next
    fix s1
    assume a: "heap_update_tuple (ret_op ()) p r t s = heap_insert_tuple (ret_op ()) p t s1" "heap_inv s1 p ps"
      "heap_frame (set ps) s s1" "pool_used s1 = pool_used s" "disk_space (pool_disk s1) = disk_space (pool_disk s)"
      "heap_map (pool_page s1) ps = (heap_map (pool_page s) ps)(r := None)"
    have room1: "pool_room 2 s1" using a(3) assms(4) by (simp add: heap_frame_def)
    have alloc1: "disk_alloc (pool_disk s1)" using a(5) assms(5) by simp
    obtain r' s' ns where i: "heap_insert_tuple (ret_op ()) p t s1 = (Inr (Some r'), s')" "heap_inv s' p (ps @ ns)"
      "inserted s1 s' p ps ns t r'"
      by (rule heap_insert_spec[OF a(2) assms(3) room1 alloc1], rule that)
    have j: "heap_map (pool_page s1) ps r' = None"
      "heap_map (pool_page s') (ps @ ns) = (heap_map (pool_page s1) ps)(r' \<mapsto> t)" "heap_frame (set (ps @ ns)) s1 s'"
      "pool_used s' = pool_used s1 \<union> set ns" "ns = [] \<longrightarrow> disk_space (pool_disk s') = disk_space (pool_disk s1)"
      using i(3) by (simp_all add: inserted_def)
    have "heap_frame (set (ps @ ns)) s s'"
      using heap_frame_trans[OF a(3) j(3)] by (rule heap_frame_mono) auto
    moreover have "r' = r \<or> heap_map (pool_page s) ps r' = None" using j(1) a(6) by (auto split: if_splits)
    ultimately show ?thesis using that[of r' s' ns] a i j by simp
  qed
qed

section \<open>The pages of the chain\<close>

lemma all_pages_loop:
  assumes "pool_st page_view {} s" "heap_chain (pool_page s) p qs" "qs \<noteq> []" "distinct qs" "set qs \<subseteq> pool_used s"
    "pool_room (Suc k) s" "length qs \<le> n"
  shows "\<exists>s'. heap_all_pages_from n p acc s = (Inr (acc @ qs, SUCCESS), s') \<and> pool_st page_view {} s' \<and>
    heap_frame {} s s' \<and> pool_used s' = pool_used s \<and> disk_space (pool_disk s') = disk_space (pool_disk s)"
  using assms
proof (induction n arbitrary: s p qs acc)
  case 0
  then show ?case by simp
next
  case (Suc n)
  note a = Suc.prems
  obtain qs' where qs: "qs = p # qs'" using a(2,3) by (cases qs) auto
  have tail: "heap_chain (pool_page s) (pg_next (pool_page s p)) qs'" and ok: "page_ok (pool_page s p)" using a(2) qs by auto
  have inv: "heap_inv s p qs" using a by (simp add: heap_inv_def)
  have g: "sp_next_page (pool_page s p) = Inr (pg_next (pool_page s p))" by (rule next_page_eq[OF ok])
  have pin: "p \<in> set qs" using qs by simp
  obtain s1 where b: "bind_op (bpm_fetch_page p) (\<lambda>page. case page of None \<Rightarrow> ret_op INVALID_PAGE_ID | Some f \<Rightarrow>
      with_pinned f (bind_op (page_read f sp_next_page) (\<lambda>x. ret_op (x, False)))) s = (Inr (pg_next (pool_page s p)), s1)"
    "heap_inv s1 p qs" "heap_frame {} s s1" "pool_used s1 = pool_used s"
    "disk_space (pool_disk s1) = disk_space (pool_disk s)" "heap_map (pool_page s1) qs = heap_map (pool_page s) qs"
    by (rule heap_look[where g = sp_next_page and kk = "\<lambda>x. x" and n = INVALID_PAGE_ID, OF inv pin a(6) g], rule that)
  have step: "heap_all_pages_from (Suc n) p acc s =
      (if pg_next (pool_page s p) = INVALID_PAGE_ID then (Inr (acc @ [p], SUCCESS), s1)
       else heap_all_pages_from n (pg_next (pool_page s p)) (acc @ [p]) s1)"
  proof -
    have pu: "p \<in> pool_used s" using a(5) qs by auto
    obtain f t where f: "bpm_fetch_page p s = (Inr (Some f), t)" by (rule pool_fetch_ok[OF a(1) pu a(6)])
    show ?thesis using b(1) by (simp add: f bind_op_def ret_op_def split: prod.splits sum.splits)
  qed
  show ?case
  proof (cases "qs' = []")
    case True
    then have "pg_next (pool_page s p) = INVALID_PAGE_ID" using tail by simp
    then show ?thesis using step b heap_invD(1)[OF b(2)] qs True by simp
  next
    case False
    then have nx: "pg_next (pool_page s p) \<noteq> INVALID_PAGE_ID" using tail by (cases qs') auto
    have v: "page_view (pool_page s1 x) = page_view (pool_page s x)" for x using b(3) by (simp add: heap_frame_def)
    have ch1: "heap_chain (pool_page s1) (pg_next (pool_page s p)) qs'"
      using tail heap_view_cong(1)[of qs' "pool_page s1" "pool_page s", OF v] by simp
    have room1: "pool_room (Suc k) s1" using b(3) a(6) by (simp add: heap_frame_def)
    obtain s' where i: "heap_all_pages_from n (pg_next (pool_page s p)) (acc @ [p]) s1 = (Inr ((acc @ [p]) @ qs', SUCCESS), s')"
      "pool_st page_view {} s'" "heap_frame {} s1 s'" "pool_used s' = pool_used s1" "disk_space (pool_disk s') = disk_space (pool_disk s1)"
      using Suc.IH[OF heap_invD(1)[OF b(2)] ch1 False _ _ room1, of "acc @ [p]"] a(4,5,7) qs b(4) by auto
    have "heap_frame {} s s'" using heap_frame_trans[OF b(3) i(3)] by simp
    then show ?thesis using step nx i b(4,5) qs by simp
  qed
qed

lemma heap_all_pages_spec:
  assumes "heap_inv s p ps" "pool_room (Suc k) s"
  obtains s' where "heap_all_pages p s = (Inr (ps, SUCCESS), s')" "heap_inv s' p ps" "heap_frame {} s s'"
    "pool_used s' = pool_used s" "heap_map (pool_page s') ps = heap_map (pool_page s) ps"
    "disk_space (pool_disk s') = disk_space (pool_disk s)"
proof -
  note h = heap_invD[OF assms(1)]
  have "length ps \<le> kCHAIN_FUEL" using chain_length[OF h(4) heap_chain_valid[OF h(2)]] by simp
  from all_pages_loop[OF h(1-5) assms(2) this, of "[]"] obtain s' where
    a: "heap_all_pages_from kCHAIN_FUEL p [] s = (Inr (ps, SUCCESS), s')" "pool_st page_view {} s'"
    "heap_frame {} s s'" "pool_used s' = pool_used s" "disk_space (pool_disk s') = disk_space (pool_disk s)" by auto
  have v: "page_view (pool_page s' x) = page_view (pool_page s x)" for x using a(3) by (simp add: heap_frame_def)
  note c = heap_view_cong[of ps "pool_page s'" "pool_page s", OF v]
  show ?thesis
    by (rule that[of s']) (use a c h in \<open>simp_all add: heap_all_pages_def heap_inv_def\<close>)
qed

section \<open>The cursor\<close>

definition page_rest :: "page_id \<Rightarrow> byte list \<Rightarrow> nat \<Rightarrow> (rid \<times> byte list) list" where
  \<comment> \<open>the tuples of a page from slot \<open>k\<close> on\<close>
  "page_rest q d k =
     map (\<lambda>j. (\<lparr>rid_page_id = q, rid_slot_num = of_nat j\<rparr>, the (pg_tuple d j)))
       (filter (\<lambda>j. pg_tuple d j \<noteq> None) [k..<pg_count d])"

definition heap_list :: "(page_id \<Rightarrow> byte list) \<Rightarrow> page_id list \<Rightarrow> (rid \<times> byte list) list" where
  "heap_list pc ps = concat (map (\<lambda>q. page_rest q (pc q) 0) ps)"

lemma page_rest_find:
  "page_rest q d k = (case find (\<lambda>j. pg_tuple d j \<noteq> None) [k..<pg_count d] of
     None \<Rightarrow> []
   | Some j \<Rightarrow> (\<lparr>rid_page_id = q, rid_slot_num = of_nat j\<rparr>, the (pg_tuple d j)) # page_rest q d (Suc j))"
proof (induction "pg_count d - k" arbitrary: k)
  case 0
  then show ?case by (simp add: page_rest_def)
next
  case (Suc n)
  then have k: "[k..<pg_count d] = k # [Suc k..<pg_count d]" by (simp add: upt_conv_Cons)
  have "n = pg_count d - Suc k" using Suc.hyps(2) by simp
  from Suc.hyps(1)[OF this] show ?case by (auto simp: page_rest_def k)
qed

lemma count_small: "page_ok d \<Longrightarrow> pg_count d < 65535"
  using header_okD(4)[OF page_okD(1), of d] by simp

lemma seek_eq:
  assumes "pool_st v X s" "pool_held s q f" "page_ok (pool_page s q)" "unat slot < 65535"
  shows "heap_scan_seek f slot s =
    (Inr (case find (\<lambda>j. pg_tuple (pool_page s q) j \<noteq> None) [unat slot..<pg_count (pool_page s q)] of
       Some j \<Rightarrow> (of_nat j, True) | None \<Rightarrow> (slot, False)), s)"
proof -
  let ?d = "pool_page s q"
  let ?k = "unat slot"
  note rd = pool_held_read(2)[OF assms(1,2)]
  have has: "page_read f (\<lambda>d. sp_has_slot d x) s = (Inr (pg_tuple ?d (unat x) \<noteq> None), s)" for x
    using rd[of "\<lambda>d. sp_has_slot d x"] has_slot_eq[OF assms(3)] by simp
  have occ: "page_read f (\<lambda>d. sp_next_occupied_slot d slot) s =
      (Inr (map_option of_nat (find (\<lambda>j. pg_tuple ?d j \<noteq> None) [Suc ?k..<pg_count ?d])), s)"
    using rd[of "\<lambda>d. sp_next_occupied_slot d slot"] next_occupied_slot_eq[OF assms(3,4)] by simp
  have lt: "?k < pg_count ?d" if "pg_tuple ?d ?k \<noteq> None"
    using that by (auto simp: pg_tuple_def pg_live_def split: if_splits)
  show ?thesis
  proof (cases "pg_tuple ?d ?k")
    case (Some t)
    then have "[?k..<pg_count ?d] = ?k # [Suc ?k..<pg_count ?d]" using lt by (simp add: upt_conv_Cons)
    then show ?thesis using Some has by (simp add: heap_scan_seek_def bind_op_def ret_op_def)
  next
    case None
    have up: "find (\<lambda>j. pg_tuple ?d j \<noteq> None) [?k..<pg_count ?d] = find (\<lambda>j. pg_tuple ?d j \<noteq> None) [Suc ?k..<pg_count ?d]"
      using None by (cases "?k < pg_count ?d") (simp_all add: upt_conv_Cons)
    show ?thesis
    proof (cases "find (\<lambda>j. pg_tuple ?d j \<noteq> None) [Suc ?k..<pg_count ?d]")
      case None
      then show ?thesis unfolding up using \<open>pg_tuple ?d ?k = None\<close> has occ
        by (simp add: heap_scan_seek_def bind_op_def ret_op_def)
    next
      case (Some j)
      then have "j < pg_count ?d" "pg_tuple ?d j \<noteq> None" by (auto simp: find_Some_iff)
      moreover have "unat (of_nat j :: u16) = j"
        using \<open>j < pg_count ?d\<close> pg_count_lt[of ?d] by (intro unat_of_nat16) simp
      ultimately show ?thesis unfolding up using \<open>pg_tuple ?d ?k = None\<close> has occ Some
        by (simp add: heap_scan_seek_def bind_op_def ret_op_def)
    qed
  qed
qed

lemma room_le:
  assumes "pool_room k s" "\<And>p. pool_pins s' p \<le> pool_pins s p" "pool_capacity s' = pool_capacity s"
  shows "pool_room k s'"
proof -
  have "card {p. 0 < pool_pins s' p} \<le> card {p. 0 < pool_pins s p}"
    by (rule card_mono) (auto intro: order.strict_trans2[OF _ assms(2)])
  moreover have "pool_pins s' p + k < 2 ^ 32 - 1" for p
  proof -
    have "pool_pins s p + k < 2 ^ 32 - 1" using assms(1) unfolding pool_room_def by blast
    then show ?thesis using assms(2)[of p] by linarith
  qed
  moreover have "card {p. 0 < pool_pins s p} + k \<le> pool_capacity s" using assms(1) unfolding pool_room_def by blast
  ultimately show ?thesis using assms(3) unfolding pool_room_def by auto
qed

text \<open>A cursor of a scan begun in state \<open>s0\<close>: at slot \<open>slot\<close> of page \<open>q\<close>, with the chain \<open>qs\<close> behind it\<close>

definition scan_at :: "pool \<Rightarrow> pool \<Rightarrow> heap_scan \<Rightarrow> page_id \<Rightarrow> page_id list \<Rightarrow> bool" where
  "scan_at s0 s sc q qs \<longleftrightarrow>
     pool_st page_view {} s \<and> heap_chain (pool_page s) q (q # qs) \<and> set (q # qs) \<subseteq> pool_used s \<and>
     rid_page_id (current_rid sc) = q \<and> unat (rid_slot_num (current_rid sc)) < 65535 \<and>
     (\<exists>f. current_page sc = Some f \<and> pool_held s q f) \<and>
     pool_pins s = (pool_pins s0)(q := Suc (pool_pins s0 q)) \<and> pool_capacity s = pool_capacity s0 \<and> pool_room 1 s0 \<and>
     pool_used s = pool_used s0 \<and> (\<forall>x. page_view (pool_page s x) = page_view (pool_page s0 x))"

definition scan_rest :: "pool \<Rightarrow> heap_scan \<Rightarrow> page_id \<Rightarrow> page_id list \<Rightarrow> (rid \<times> byte list) list" where
  "scan_rest s0 sc q qs =
     page_rest q (pool_page s0 q) (unat (rid_slot_num (current_rid sc))) @ heap_list (pool_page s0) qs"

lemma page_rest_cong: "page_view d = page_view e \<Longrightarrow> page_rest q d k = page_rest q e k"
  by (simp add: page_rest_def page_view_def)

lemma scan_atD:
  assumes "scan_at s0 s sc q qs"
  shows "pool_st page_view {} s" "heap_chain (pool_page s) q (q # qs)" "set (q # qs) \<subseteq> pool_used s"
    "rid_page_id (current_rid sc) = q" "unat (rid_slot_num (current_rid sc)) < 65535"
    "pool_pins s = (pool_pins s0)(q := Suc (pool_pins s0 q))" "pool_capacity s = pool_capacity s0" "pool_room 1 s0"
    "pool_used s = pool_used s0" "page_view (pool_page s x) = page_view (pool_page s0 x)"
    "\<exists>f. current_page sc = Some f \<and> pool_held s q f"
  using assms by (auto simp: scan_at_def)

lemma scan_begin_spec:
  assumes "heap_inv s0 p ps" "pool_room (Suc (Suc 0)) s0"
  obtains sc s qs where "heap_scan_begin p s0 = (Inr sc, s)" "scan_at s0 s sc p qs" "ps = p # qs"
    "scan_rest s0 sc p qs = heap_list (pool_page s0) ps"
proof -
  note h = heap_invD[OF assms(1)]
  obtain qs where ps: "ps = p # qs" using h(2,3) by (cases ps) auto
  have pu: "p \<in> pool_used s0" using h(5) ps by auto
  have room1: "pool_room 1 s0" by (rule room_mono[OF assms(2)]) simp
  obtain f s where a: "bpm_fetch_page p s0 = (Inr (Some f), s)" "pool_st page_view {} s" "pool_held s p f"
    "pool_page s p = pool_page s0 p" "pool_pins s = (pool_pins s0)(p := Suc (pool_pins s0 p))"
    "pool_keeps page_view {} s0 s" "pool_used s = pool_used s0" "pool_capacity s = pool_capacity s0" "pool_room (Suc 0) s"
    "disk_space (pool_disk s) = disk_space (pool_disk s0)"
    by (rule pool_fetch_ok[OF h(1) pu assms(2)], rule that)
  have v: "page_view (pool_page s x) = page_view (pool_page s0 x)" for x using a(6) by (simp add: pool_keeps_def)
  define sc where "sc = \<lparr>current_rid = \<lparr>rid_page_id = p, rid_slot_num = 0\<rparr>, current_page = Some f\<rparr>"
  have "heap_scan_begin p s0 = (Inr sc, s)" using a(1) by (simp add: heap_scan_begin_def bind_op_def ret_op_def sc_def)
  moreover have "heap_chain (pool_page s) p (p # qs)"
    using h(2) ps heap_view_cong(1)[of "p # qs" "pool_page s" "pool_page s0" p, OF v] by simp
  then have "scan_at s0 s sc p qs"
    using a v h(5) ps room1 unfolding scan_at_def sc_def by simp
  moreover have "scan_rest s0 sc p qs = heap_list (pool_page s0) ps"
    by (simp add: scan_rest_def sc_def heap_list_def ps)
  ultimately show ?thesis using that ps by blast
qed

lemma scan_end_spec:
  assumes "scan_at s0 s sc q qs"
  obtains s' where "heap_scan_end sc s = (Inr (), s')" "pool_st page_view {} s'" "heap_frame {} s0 s'" "pool_used s' = pool_used s0"
proof -
  note a = scan_atD[OF assms]
  obtain f where f: "current_page sc = Some f" "pool_held s q f" using a(11) by blast
  obtain s' where u: "pinned_destroy (Some f) False s = (Inr (), s')" "pool_st page_view {} s'"
    "pool_page s' = pool_page s" "pool_used s' = pool_used s" "pool_disk s' = pool_disk s"
    "pool_pins s' = pool_pins s0" "\<And>k. pool_room k s' = pool_room k s0"
    by (rule unpin_after_fetch[OF a(1) f(2) _ _ a(6) refl a(7), of False], simp, simp, rule that)
  show ?thesis
    by (rule that[of s']) (use u a(9,10) f in \<open>simp_all add: heap_scan_end_def heap_frame_def\<close>)
qed

lemma scan_next_page_spec:
  assumes "scan_at s0 s sc q qs"
  obtains (last) "heap_scan_next_page sc s = (Inr (False, sc), s)" "qs = []"
  | (moved) q' qs' sc' s' where "heap_scan_next_page sc s = (Inr (True, sc'), s')" "qs = q' # qs'"
      "scan_at s0 s' sc' q' qs'" "rid_slot_num (current_rid sc') = 0"
proof -
  note a = scan_atD[OF assms]
  obtain f where f: "current_page sc = Some f" "pool_held s q f" using a(11) by blast
  have ok: "page_ok (pool_page s q)" and ch: "heap_chain (pool_page s) (pg_next (pool_page s q)) qs" using a(2) by auto
  note rd = pool_held_read(2)[OF a(1) f(2)]
  have hn: "page_read f sp_has_next_page s = (Inr (pg_next (pool_page s q) \<noteq> INVALID_PAGE_ID), s)"
    using rd[of sp_has_next_page] has_next_page_eq[OF ok] by simp
  have np: "page_read f sp_next_page s = (Inr (pg_next (pool_page s q)), s)"
    using rd[of sp_next_page] next_page_eq[OF ok] by simp
  show ?thesis
  proof (cases qs)
    case Nil
    then have "pg_next (pool_page s q) = INVALID_PAGE_ID" using ch by simp
    then show ?thesis using last hn f Nil by (simp add: heap_scan_next_page_def bind_op_def ret_op_def)
  next
    case (Cons q' qs')
    then have q': "pg_next (pool_page s q) = q'" "q' \<noteq> INVALID_PAGE_ID" using ch by auto
    obtain t where u: "pinned_destroy (Some f) False s = (Inr (), t)" "pool_st page_view {} t"
      "pool_page t = pool_page s" "pool_used t = pool_used s" "pool_disk t = pool_disk s"
      "pool_pins t = pool_pins s0" "\<And>k. pool_room k t = pool_room k s0"
      by (rule unpin_after_fetch[OF a(1) f(2) _ _ a(6) refl a(7), of False], simp, simp, rule that)
    have pu: "q' \<in> pool_used t" using a(3) Cons u(4) by auto
    have room: "pool_room (Suc 0) t" using u(7) a(8) by simp
    obtain g s' where b: "bpm_fetch_page q' t = (Inr (Some g), s')" "pool_st page_view {} s'" "pool_held s' q' g"
      "pool_page s' q' = pool_page t q'" "pool_pins s' = (pool_pins t)(q' := Suc (pool_pins t q'))"
      "pool_keeps page_view {} t s'" "pool_used s' = pool_used t" "pool_capacity s' = pool_capacity t" "pool_room 0 s'"
      "disk_space (pool_disk s') = disk_space (pool_disk t)"
      by (rule pool_fetch_ok[OF u(2) pu room], rule that)
    have capt: "pool_capacity t = pool_capacity s"
      using u(1) keeps_capD[OF keeps_cap_unpin] cached_frame(6)[OF pool_stD(3)[OF a(1)]] f(2)
      by (auto simp: pinned_destroy_def bind_op_def pool_held_def split: prod.splits sum.splits)
    have v: "page_view (pool_page s' x) = page_view (pool_page s x)" for x
      using b(6) u(3) by (simp add: pool_keeps_def)
    define sc' where "sc' = \<lparr>current_rid = \<lparr>rid_page_id = q', rid_slot_num = 0\<rparr>, current_page = Some g\<rparr>"
    have "heap_scan_next_page sc s = (Inr (True, sc'), s')"
      using f hn np q' u(1) b(1) pool_held_read(3)[OF b(2,3)]
      by (simp add: heap_scan_next_page_def bind_op_def ret_op_def sc'_def)
    moreover have "heap_chain (pool_page s') q' (q' # qs')"
      using ch Cons q'(1) heap_view_cong(1)[of qs "pool_page s'" "pool_page s" q', OF v] by simp
    then have "scan_at s0 s' sc' q' qs'"
      using b u a Cons v capt unfolding scan_at_def sc'_def by auto
    ultimately show ?thesis using moved Cons by (simp add: sc'_def)
  qed
qed

lemma page_rest_nonempty:
  "find (\<lambda>j. pg_tuple d j \<noteq> None) [k..<pg_count d] = Some j \<Longrightarrow> k \<le> j \<and> j < pg_count d \<and> pg_tuple d j \<noteq> None"
  by (auto simp: find_Some_iff)

lemma scan_next_spec:
  assumes "scan_at s0 s sc q qs" "length qs < n"
  shows "\<exists>sc' s' q' qs'. heap_scan_next_from n sc s =
      (Inr (case scan_rest s0 sc q qs of [] \<Rightarrow> None | x # xs \<Rightarrow> Some x, sc'), s') \<and>
    scan_at s0 s' sc' q' qs' \<and> scan_rest s0 sc' q' qs' = tl (scan_rest s0 sc q qs) \<and> length qs' \<le> length qs"
  using assms
proof (induction n arbitrary: s sc q qs)
  case 0
  then show ?case by simp
next
  case (Suc n)
  note a = scan_atD[OF Suc.prems(1)]
  obtain f where f: "current_page sc = Some f" "pool_held s q f" using a(11) by blast
  have ok: "page_ok (pool_page s q)" using a(2) by simp
  define slot where "slot = rid_slot_num (current_rid sc)"
  define d where "d = pool_page s q"
  have rest: "page_rest q (pool_page s0 q) k = page_rest q d k" for k
    using page_rest_cong[OF a(10)[of q]] by (simp add: d_def)
  note seek = seek_eq[OF a(1) f(2) ok a(5), folded slot_def d_def]
  have find: "page_rest q d (unat slot) = (case find (\<lambda>j. pg_tuple d j \<noteq> None) [unat slot..<pg_count d] of
      None \<Rightarrow> [] | Some j \<Rightarrow> (\<lparr>rid_page_id = q, rid_slot_num = of_nat j\<rparr>, the (pg_tuple d j)) # page_rest q d (Suc j))"
    by (rule page_rest_find)
  have cr: "(current_rid sc)\<lparr>rid_slot_num := x\<rparr> = \<lparr>rid_page_id = q, rid_slot_num = x\<rparr>" for x
    using a(4) by (cases "current_rid sc") simp
  show ?case
  proof (cases "find (\<lambda>j. pg_tuple d j \<noteq> None) [unat slot..<pg_count d]")
    case (Some j)
    from page_rest_nonempty[OF Some] have j: "j < pg_count d" "pg_tuple d j \<noteq> None" by auto
    have jc: "j < 65535" using j(1) count_small[OF ok] by (simp add: d_def)
    have uj: "unat (of_nat j :: u16) = j" using jc by (intro unat_of_nat16) simp
    have uj1: "unat (of_nat j + 1 :: u16) = Suc j" using unat_Suc16[of "of_nat j"] uj jc by simp
    have jlt: "Suc j < 65535" using j(1) header_okD(4)[OF page_okD(1)[OF ok]] by (simp add: d_def)
    define sc' where "sc' = sc\<lparr>current_rid := \<lparr>rid_page_id = q, rid_slot_num = of_nat j + 1\<rparr>\<rparr>"
    have tup: "page_read f (\<lambda>d. sp_get_tuple d (of_nat j)) s = (Inr (the (pg_tuple d j)), s)"
      using pool_held_read(2)[OF a(1) f(2), of "\<lambda>d. sp_get_tuple d (of_nat j)"] get_tuple_eq[OF ok, of "of_nat j"] j uj
      by (auto simp: d_def)
    have run: "heap_scan_next_from (Suc n) sc s =
        (Inr (Some (\<lparr>rid_page_id = q, rid_slot_num = of_nat j\<rparr>, the (pg_tuple d j)), sc'), s)"
      using seek Some f(1) tup
      by (simp add: bind_op_def ret_op_def Let_def cr sc'_def flip: slot_def)
    have r: "scan_rest s0 sc q qs = (\<lparr>rid_page_id = q, rid_slot_num = of_nat j\<rparr>, the (pg_tuple d j)) # scan_rest s0 sc' q qs"
      using find Some uj1 by (simp add: scan_rest_def rest sc'_def flip: slot_def)
    have "scan_at s0 s sc' q qs"
      using Suc.prems(1) uj1 jlt unfolding scan_at_def sc'_def by auto
    then show ?thesis using run r by (intro exI[of _ sc'] exI[of _ s] exI[of _ q] exI[of _ qs]) simp
  next
    case None
    have r0: "scan_rest s0 sc q qs = heap_list (pool_page s0) qs"
      using find None by (simp add: scan_rest_def rest flip: slot_def)
    have sc_same: "sc\<lparr>current_rid := (current_rid sc)\<lparr>rid_slot_num := slot\<rparr>\<rparr> = sc"
      by (simp add: slot_def)
    have "heap_scan_next_from (Suc n) sc s =
        bind_op (heap_scan_next_page (sc\<lparr>current_rid := (current_rid sc)\<lparr>rid_slot_num := slot\<rparr>\<rparr>))
          (\<lambda>(moved, sc'). if moved then heap_scan_next_from n sc' else ret_op (None, sc')) s"
      using seek None f(1) by (simp add: bind_op_def Let_def flip: slot_def)
    then have run: "heap_scan_next_from (Suc n) sc s =
        bind_op (heap_scan_next_page sc) (\<lambda>(moved, sc'). if moved then heap_scan_next_from n sc' else ret_op (None, sc')) s"
      unfolding sc_same .
    show ?thesis
    proof (rule scan_next_page_spec[OF Suc.prems(1)])
      assume b: "heap_scan_next_page sc s = (Inr (False, sc), s)" "qs = []"
      then show ?thesis
        using run r0 Suc.prems(1)
        by (intro exI[of _ sc] exI[of _ s] exI[of _ q] exI[of _ qs]) (simp add: bind_op_def ret_op_def heap_list_def)
    next
      fix q' qs' sc' s'
      assume b: "heap_scan_next_page sc s = (Inr (True, sc'), s')" "qs = q' # qs'"
        "scan_at s0 s' sc' q' qs'" "rid_slot_num (current_rid sc') = 0"
      have r1: "scan_rest s0 sc q qs = scan_rest s0 sc' q' qs'"
        using r0 b(2,4) by (simp add: scan_rest_def heap_list_def)
      have "length qs' < n" using Suc.prems(2) b(2) by simp
      from Suc.IH[OF b(3) this] obtain sc2 s2 q2 qs2 where i:
        "heap_scan_next_from n sc' s' = (Inr (case scan_rest s0 sc' q' qs' of [] \<Rightarrow> None | x # xs \<Rightarrow> Some x, sc2), s2)"
        "scan_at s0 s2 sc2 q2 qs2" "scan_rest s0 sc2 q2 qs2 = tl (scan_rest s0 sc' q' qs')" "length qs2 \<le> length qs'"
        by blast
      show ?thesis
        using run b(1,2) i r1 by (intro exI[of _ sc2] exI[of _ s2] exI[of _ q2] exI[of _ qs2]) (simp add: bind_op_def)
    qed
  qed
qed

fun heap_scan_collect :: "nat \<Rightarrow> heap_scan \<Rightarrow> (pool, (rid \<times> byte list) list \<times> heap_scan) op" where
  \<comment> \<open>calling \<open>next\<close> until it returns \<open>std::nullopt\<close>, at most \<open>n\<close> times\<close>
  "heap_scan_collect 0 sc = throw_op Diverges"
| "heap_scan_collect (Suc n) sc =
     bind_op (heap_scan_next sc) (\<lambda>(x, sc').
       case x of
         None \<Rightarrow> ret_op ([], sc')
       | Some y \<Rightarrow> bind_op (heap_scan_collect n sc') (\<lambda>(ys, sc''). ret_op (y # ys, sc'')))"

lemma scan_collect_spec:
  assumes "scan_at s0 s sc q qs" "length qs < kCHAIN_FUEL" "length (scan_rest s0 sc q qs) < n"
  shows "\<exists>sc' s' q' qs'. heap_scan_collect n sc s = (Inr (scan_rest s0 sc q qs, sc'), s') \<and> scan_at s0 s' sc' q' qs'"
  using assms
proof (induction n arbitrary: s sc q qs)
  case 0
  then show ?case by simp
next
  case (Suc n)
  from scan_next_spec[OF Suc.prems(1,2)] obtain sc' s' q' qs' where i:
    "heap_scan_next sc s = (Inr (case scan_rest s0 sc q qs of [] \<Rightarrow> None | x # xs \<Rightarrow> Some x, sc'), s')"
    "scan_at s0 s' sc' q' qs'" "scan_rest s0 sc' q' qs' = tl (scan_rest s0 sc q qs)" "length qs' \<le> length qs"
    unfolding heap_scan_next_def by blast
  show ?case
  proof (cases "scan_rest s0 sc q qs")
    case Nil
    then show ?thesis using i by (auto simp: bind_op_def ret_op_def)
  next
    case (Cons x xs)
    then have r: "scan_rest s0 sc' q' qs' = xs" "length (scan_rest s0 sc' q' qs') < n" using i(3) Suc.prems(3) by simp_all
    have l: "length qs' < kCHAIN_FUEL" using i(4) Suc.prems(2) by simp
    from Suc.IH[OF i(2) l r(2)] obtain sc2 s2 q2 qs2 where
      "heap_scan_collect n sc' s' = (Inr (xs, sc2), s2)" "scan_at s0 s2 sc2 q2 qs2"
      unfolding r(1) by blast
    then show ?thesis using i(1) Cons by (auto simp: bind_op_def ret_op_def)
  qed
qed

section \<open>Restoring\<close>

definition pool_dirty :: "pool \<Rightarrow> page_id \<Rightarrow> bool" where
  "pool_dirty s p = (case page_table s p of Some f \<Rightarrow> p_is_dirty (frames s ! unat f) | None \<Rightarrow> False)"

lemma fetch_dirty:
  assumes "pool_ok s" "page_table s p = Some f" "bpm_fetch_page p s = (Inr (Some g), s')"
  shows "g = f" "p_is_dirty (frames s' ! unat f) = p_is_dirty (frames s ! unat f)"
  using assms(2,3) cached_frame(1,6)[OF assms(1,2)]
  by (auto simp: bpm_fetch_page_def bpm_find_cached_page_def bind_op_def modify_op_def ret_op_def put_frame_def
      page_inc_pin_count_def)

lemma with_data_dirty:
  assumes "pool_st v X s" "pool_held s p f" "length d = kPAGE_SIZE" "p_is_dirty (frames s ! unat f)"
  shows "pool_st v X (with_data s f d)"
proof -
  have f: "page_table s p = Some f" and pin: "0 < pool_pins s p" using assms(2) by (simp_all add: pool_held_def)
  have "pool_clean v X (with_data s f d)"
    unfolding with_data_def
    by (rule put_frame_clean[OF pool_stD(3)[OF assms(1)] f pool_stD(2)[OF assms(1)]])
      (use assms(4) pin f in \<open>auto simp: pool_pins_def unat_gt_0 word_gt_0\<close>)
  moreover have "pool_inv (with_data s f d)"
    using with_data_st(1)[OF assms(1-3)] by (simp add: pool_st_def split: if_splits)
  ultimately show ?thesis by (simp add: pool_st_def)
qed

lemma heap_restore_spec:
  assumes "heap_inv s p ps" "rid_page_id r \<in> set ps" "pool_room (Suc k) s" "pool_dirty s (rid_page_id r)"
    and "heap_map (pool_page s) ps r = None" "unat (rid_slot_num r) < pg_count (pool_page s (rid_page_id r))"
    and "int (length t) \<le> pg_room (pool_page s (rid_page_id r))"
  obtains s' where "heap_restore_tuple r t s = (Inr (), s')" "heap_inv s' p ps" "heap_frame {rid_page_id r} s s'"
    "pool_used s' = pool_used s" "heap_map (pool_page s') ps = (heap_map (pool_page s) ps)(r \<mapsto> t)"
proof -
  let ?q = "rid_page_id r"
  note h = heap_invD[OF assms(1)]
  have qu: "?q \<in> pool_used s" using h(5) assms(2) by blast
  obtain f s1 where a: "bpm_fetch_page ?q s = (Inr (Some f), s1)" "pool_st page_view {} s1" "pool_held s1 ?q f"
    "pool_page s1 ?q = pool_page s ?q" "pool_pins s1 = (pool_pins s)(?q := Suc (pool_pins s ?q))"
    "pool_keeps page_view {} s s1" "pool_used s1 = pool_used s" "pool_capacity s1 = pool_capacity s" "pool_room k s1"
    "disk_space (pool_disk s1) = disk_space (pool_disk s)"
    by (rule pool_fetch_ok[OF h(1) qu assms(3)], rule that)
  obtain g where g: "page_table s ?q = Some g" "p_is_dirty (frames s ! unat g)"
    using assms(4) by (auto simp: pool_dirty_def split: option.splits)
  have dirty: "p_is_dirty (frames s1 ! unat f)"
    using fetch_dirty[OF pool_stD(3)[OF h(1)] g(1) a(1)] g(2) by simp
  define d where "d = pool_page s ?q"
  have ok: "page_ok d" using h(6)[OF assms(2)] by (simp add: d_def)
  have off: "pg_off d (unat (rid_slot_num r)) = 0"
    using assms(2,5,6) by (auto simp: heap_map_def pg_tuple_def pg_live_def d_def split: if_splits)
  obtain e where e: "sp_restore_tuple d (rid_slot_num r) t = Inr e" "page_ok e"
    "pg_tuple e = (pg_tuple d)(unat (rid_slot_num r) \<mapsto> t)" "pg_next e = pg_next d"
    by (rule restore_tuple_room[OF ok assms(6)[folded d_def] off assms(7)[folded d_def]], rule that)
  have up: "page_update f (\<lambda>d. bind_res (sp_restore_tuple d (rid_slot_num r) t) (\<lambda>d'. Inr ((), d'))) s1 = (Inr (), with_data s1 f e)"
    by (rule held_update[OF a(2,3)]) (simp add: a(4) e(1) flip: d_def)
  note w = with_data_st[OF a(2,3) page_ok_length[OF e(2)]]
  note st2 = with_data_dirty[OF a(2,3) page_ok_length[OF e(2)] dirty]
  have held: "pool_held (with_data s1 f e) ?q f" using w(7) a(3) by simp
  have pins: "pool_pins (with_data s1 f e) = pool_pins s1" and cap: "pool_capacity (with_data s1 f e) = pool_capacity s"
    using w(4,6) a(8) by simp_all
  obtain s3 where u: "pinned_destroy (Some f) False (with_data s1 f e) = (Inr (), s3)" "pool_st page_view {} s3"
    "pool_page s3 = pool_page (with_data s1 f e)" "pool_used s3 = pool_used (with_data s1 f e)"
    "pool_disk s3 = pool_disk (with_data s1 f e)" "pool_pins s3 = pool_pins s" "\<And>k. pool_room k s3 = pool_room k s"
    by (rule unpin_after_fetch[OF st2 held _ _ a(5) pins cap, of False], simp, simp, rule that)
  have v3: "page_view (pool_page s3 x) = (if x = ?q then page_view e else page_view (pool_page s x))" for x
    using u(3) w(3) a(6) by (simp add: pool_keeps_def)
  note m = set_page_map[OF h(2) assms(2) e(2) e(4)[unfolded d_def] e(3)[unfolded d_def] v3]
  have us: "pool_used s3 = pool_used s" using u(4) w(5) a(7) by (simp add: pool_used_def)
  have "heap_restore_tuple r t s = (Inr (), s3)"
    using a(1) up u(1) by (simp add: heap_restore_tuple_def bind_op_def with_pinned_def ret_op_def)
  moreover have "heap_inv s3 p ps" using u(2) us m(1) h by (simp add: heap_inv_def)
  moreover have "heap_frame {?q} s s3" using u(6,7) v3 by (simp add: heap_frame_def)
  ultimately show ?thesis using that us m(2) by blast
qed

section \<open>Deleting makes room for restoring\<close>

lemma tuple_length:
  assumes "page_ok d" "pg_tuple d k = Some t"
  shows "length t = pg_len d k" "length t \<le> MAX_TUPLE_SIZE"
proof -
  have live: "pg_live d k" and t: "t = seg d (pg_off d k) (pg_len d k)"
    using assms(2) by (auto simp: pg_tuple_def split: if_splits)
  then have k: "k < pg_count d" "pg_off d k \<noteq> 0" by (simp_all add: pg_live_def)
  note r = slots_in_rangeD[OF page_okD(2)[OF assms(1)] k] header_okD[OF page_okD(1)[OF assms(1)]]
  show "length t = pg_len d k" using r t by simp
  then show "length t \<le> MAX_TUPLE_SIZE"
    using r k(1) by (simp add: MAX_TUPLE_SIZE_def kPAGE_SIZE_def sizeof_PageHeader_def sizeof_Slot_def)
qed

definition tuples_size :: "(nat \<Rightarrow> byte list option) \<Rightarrow> nat \<Rightarrow> nat" where
  "tuples_size m n = (\<Sum>j<n. case m j of None \<Rightarrow> 0 | Some t \<Rightarrow> length t)"

lemma pg_used_tuples: "page_ok d \<Longrightarrow> pg_used d (pg_count d) = tuples_size (pg_tuple d) (pg_count d)"
  unfolding pg_used_def tuples_size_def
proof (rule sum.cong[OF refl])
  fix j
  assume ok: "page_ok d" and j: "j \<in> {..<pg_count d}"
  show "(if pg_off d j = 0 then 0 else pg_len d j) = (case pg_tuple d j of None \<Rightarrow> 0 | Some t \<Rightarrow> length t)"
  proof (cases "pg_tuple d j")
    case None
    then show ?thesis using j by (auto simp: pg_tuple_def pg_live_def split: if_splits)
  next
    case (Some t)
    then show ?thesis using j tuple_length(1)[OF ok Some] by (auto simp: pg_tuple_def pg_live_def split: if_splits)
  qed
qed

lemma tuples_size_remove:
  "k < n \<Longrightarrow> m k = Some t \<Longrightarrow> tuples_size m n = tuples_size (m(k := None)) n + length t"
proof -
  assume a: "k < n" "m k = Some t"
  have "(\<Sum>j\<in>{..<n} - {k}. case (m(k := None)) j of None \<Rightarrow> 0 | Some t \<Rightarrow> length t) =
      (\<Sum>j\<in>{..<n} - {k}. case m j of None \<Rightarrow> 0 | Some t \<Rightarrow> length t)"
    by (rule sum.cong) auto
  then show ?thesis
    using a sum.remove[of "{..<n}" k "\<lambda>j. case m j of None \<Rightarrow> 0 | Some t \<Rightarrow> length t"]
      sum.remove[of "{..<n}" k "\<lambda>j. case (m(k := None)) j of None \<Rightarrow> 0 | Some t \<Rightarrow> length t"]
    unfolding tuples_size_def by simp
qed

lemma room_after_delete:
  assumes "page_ok d" "page_ok e" "pg_tuple d k = Some t" "pg_tuple e = (pg_tuple d)(k := None)" "pg_count e = pg_count d"
  shows "int (length t) \<le> pg_room e"
proof -
  have k: "k < pg_count d" using assms(3) by (auto simp: pg_tuple_def pg_live_def split: if_splits)
  have "tuples_size (pg_tuple d) (pg_count d) = tuples_size (pg_tuple e) (pg_count d) + length t"
    using tuples_size_remove[of k "pg_count d" "pg_tuple d" t, OF k assms(3)] assms(4) by simp
  then have "pg_used d (pg_count d) = pg_used e (pg_count e) + length t"
    using pg_used_tuples[OF assms(1)] pg_used_tuples[OF assms(2)] assms(5) by simp
  moreover have "0 \<le> pg_room d"
    using pg_free_le_room[OF assms(1)] pg_free_nonneg[OF page_okD(1)[OF assms(1)]] by linarith
  ultimately show ?thesis using assms(5) by (simp add: pg_room_def)
qed

lemma heap_map_page:
  assumes "heap_map pc' ps = (heap_map pc ps)(r := None)" "rid_page_id r \<in> set ps"
  shows "pg_tuple (pc' (rid_page_id r)) = (pg_tuple (pc (rid_page_id r)))(unat (rid_slot_num r) := None)"
proof (rule ext)
  fix k
  show "pg_tuple (pc' (rid_page_id r)) k = ((pg_tuple (pc (rid_page_id r)))(unat (rid_slot_num r) := None)) k"
  proof (cases "k < 65536")
    case True
    let ?x = "\<lparr>rid_page_id = rid_page_id r, rid_slot_num = of_nat k\<rparr>"
    have "?x = r \<longleftrightarrow> k = unat (rid_slot_num r)"
      using slot_eq[of ?x r] True by (simp add: unat_of_nat16)
    then show ?thesis
      using fun_cong[OF assms(1), of ?x] assms(2) True by (auto simp: heap_map_def unat_of_nat16)
  next
    case False
    then have "pg_tuple d k = None" for d using pg_count_lt[of d] by (simp add: pg_tuple_def pg_live_def)
    then show ?thesis by simp
  qed
qed

lemma delete_dirty:
  assumes "heap_inv s p ps" "rid_page_id r \<in> set ps" "pool_room (Suc k) s" "heap_delete_tuple r s = (Inr True, s')"
  shows "pool_dirty s' (rid_page_id r)"
proof -
  let ?q = "rid_page_id r"
  note h = heap_invD[OF assms(1)]
  have qu: "?q \<in> pool_used s" using h(5) assms(2) by blast
  obtain f s1 where a: "bpm_fetch_page ?q s = (Inr (Some f), s1)" "pool_st page_view {} s1" "pool_held s1 ?q f"
    "pool_page s1 ?q = pool_page s ?q"
    by (rule pool_fetch_ok[OF h(1) qu assms(3)])
  have ok: "page_ok (pool_page s1 ?q)" using a(4) h(6)[OF assms(2)] by simp
  obtain x e where e: "sp_delete_tuple (pool_page s1 ?q) (rid_slot_num r) = Inr (x, e)" "page_ok e"
    using delete_tuple_eq[OF ok, of "rid_slot_num r"] delete_ok(1)[OF ok, of "unat (rid_slot_num r)"] ok
    by (auto simp: pg_tuple_def pg_live_def split: if_splits)
  have up: "page_update f (\<lambda>d. sp_delete_tuple d (rid_slot_num r)) s1 = (Inr x, with_data s1 f e)"
    by (rule held_update[OF a(2,3)]) (simp add: e(1))
  note w = with_data_st[OF a(2,3) page_ok_length[OF e(2)]]
  have held: "pool_held (with_data s1 f e) ?q f" using w(7) a(3) by simp
  have tab: "page_table (with_data s1 f e) ?q = Some f" using held by (simp add: pool_held_def)
  note c = cached_frame[OF pool_stD(3)[OF w(1)] tab]
  have run: "heap_delete_tuple r s = bind_op (pinned_destroy (Some f) x) (\<lambda>_. ret_op x) (with_data s1 f e)"
    using a(1) up by (simp add: heap_delete_tuple_def bind_op_def with_pinned_def ret_op_def)
  have "x" using assms(4) unfolding run by (auto simp: bind_op_def ret_op_def split: prod.splits sum.splits)
  then show ?thesis
    using assms(4) c(1,3,6) tab unfolding run
    by (auto simp: bind_op_def ret_op_def pinned_destroy_def bpm_unpin_page_def modify_op_def put_frame_def
        page_dec_pin_count_def page_set_dirty_def pool_dirty_def)
qed

end
