(* ===== verification/Heap_Spec.thy ===== *)
theory Heap_Spec
  imports Heap_Laws Buffer_Spec
begin

text \<open>
  Properties of the table heap: on a well-formed chain of pages, with room in the pool for two more
  pinned pages, an operation returns, changes the map from record identifiers to tuples as its name
  says, and touches no page outside the heap. The rollback of a deletion is exact; an update with
  an oversized tuple loses the old one.
\<close>

section \<open>A small heap\<close>

definition file_written :: "pool \<Rightarrow> bool" where
  \<comment> \<open>nothing is dirty, and the file is a database file\<close>
  "file_written s \<longleftrightarrow>
     bpm_flush_all s = (Inr (), s) \<and> hdr_magic (disk_hdr (pool_disk s)) = kDB_MAGIC \<and>
     hdr_version (disk_hdr (pool_disk s)) = kDB_FORMAT_VERSION \<and> kPAGE_SIZE \<le> length (contents (disk_file (pool_disk s)))"

lemma heap_of_page:
  assumes "page_ok e" "pg_next e = INVALID_PAGE_ID"
  obtains s where "heap_inv s 1 [1]" "pool_page s 1 = e" "pool_room 2 s" "disk_alloc (pool_disk s)" "pool_used s = {1, 2}"
    "file_written s" "pool_pins s = (\<lambda>_. 0)"
proof -
  have p: "(1 :: page_id) < disk_capacity small_disk" by (simp add: small_disk)
  obtain d where d: "dm_write_page 1 e small_disk = (Inr (), d)" "disk_page d = (disk_page small_disk)(1 := e)"
    "disk_capacity d = disk_capacity small_disk" "free_list d = free_list small_disk" "disk_hdr d = disk_hdr small_disk" "disk_ok d"
    "unat (1 :: page_id) * kPAGE_SIZE + kPAGE_SIZE \<le> length (contents (disk_file d))"
    by (rule write_page_eq[OF small_disk(1) p page_ok_length[OF assms(1)]], rule that)
  note c = in_use_cong[OF d(3,4)]
  have inv: "disk_inv d" and used: "disk_in_use d = {1, 2}" using c small_disk by simp_all
  define s where "s = bpm_initial d 2"
  note i = initial_pool[OF d(6) inv, of 2, folded s_def]
  have i4: "pool_clean page_view {} s" using initial_pool(4)[OF d(6) inv, of 2] by (simp add: s_def)
  have pd: "pool_disk s = d" "pool_capacity s = 2" by (simp_all add: s_def bpm_initial_def)
  have pg: "pool_page s 1 = e" using i(2) d(2) by simp
  have "heap_inv s 1 [1]"
    using i(1) i4 pg pd used assms by (simp add: heap_inv_def pool_st_def pool_used_def INVALID_PAGE_ID_def)
  moreover have "pool_room 2 s" using i(3) pd by (simp add: pool_room_def)
  moreover have "disk_alloc (pool_disk s)" using d(3) pd small_disk by (simp add: disk_alloc_def INVALID_PAGE_ID_def)
  moreover have "pool_used s = {1, 2}" using used pd by (simp add: pool_used_def)
  moreover have "file_written s"
    using d(5,7) pd
    by (simp add: file_written_def s_def bpm_flush_all_def bind_op_def get_op_def bpm_initial_def ret_op_def small_disk_def dm_initial_def)
  moreover have "pool_pins s = (\<lambda>_. 0)" using i(3) by simp
  ultimately show ?thesis using that pg by blast
qed

lemma small_heap:
  obtains s where "heap_inv s 1 [1]" "heap_map (pool_page s) [1] = Map.empty" "pool_room 2 s" "disk_alloc (pool_disk s)"
    "pool_used s = {1, 2}" "pool_pins s = (\<lambda>_. 0)"
proof (rule heap_of_page[OF fresh_page_ok(1,3)])
  fix s
  assume "heap_inv s 1 [1]" "pool_page s 1 = fresh_page" "pool_room 2 s" "disk_alloc (pool_disk s)" "pool_used s = {1, 2}"
    "pool_pins s = (\<lambda>_. 0)"
  note s = this
  have "heap_map (pool_page s) [1] = Map.empty" by (rule ext) (simp add: heap_map_def s(2) fresh_page_ok)
  then show ?thesis by (rule that[OF s(1) _ s(3-6)])
qed

lemma heap_with_tuple:
  assumes "pg_fits fresh_page (length t)" "t \<noteq> []"
  obtains s where "heap_inv s 1 [1]" "heap_map (pool_page s) [1] \<lparr>rid_page_id = 1, rid_slot_num = 0\<rparr> = Some t"
    "pool_room 2 s" "disk_alloc (pool_disk s)" "heap_list (pool_page s) [1] = [(\<lparr>rid_page_id = 1, rid_slot_num = 0\<rparr>, t)]"
    "pool_used s = {1, 2}" "file_written s"
proof -
  define e where "e = pg_insert fresh_page t None"
  note ins = insert_tuple_room[OF fresh_page_ok(1) assms(1), of None]
  have p: "pg_pick fresh_page None = 0" by (simp add: pg_pick_def fresh_page_ok)
  have e: "page_ok e" "pg_next e = INVALID_PAGE_ID" "pg_tuple e = [0 \<mapsto> t]" "pg_count e = 1"
    using ins p assms(2) by (simp_all add: e_def fresh_page_ok)
  obtain s where s: "heap_inv s 1 [1]" "pool_page s 1 = e" "pool_room 2 s" "disk_alloc (pool_disk s)" "pool_used s = {1, 2}"
    "file_written s"
    by (rule heap_of_page[OF e(1,2)])
  have "[0..<pg_count e] = [0]" by (simp add: e(4))
  then have "heap_list (pool_page s) [1] = [(\<lparr>rid_page_id = 1, rid_slot_num = 0\<rparr>, t)]"
    by (simp add: heap_list_def page_rest_def s(2) e(3))
  moreover have "heap_map (pool_page s) [1] \<lparr>rid_page_id = 1, rid_slot_num = 0\<rparr> = Some t"
    by (simp add: heap_map_def s(2) e(3))
  ultimately show ?thesis using that s(1,3-6) by blast
qed

lemma small_heap_tuple:
  obtains s where "heap_inv s 1 [1]" "heap_map (pool_page s) [1] \<lparr>rid_page_id = 1, rid_slot_num = 0\<rparr> = Some [1, 2]"
    "pool_room 2 s" "disk_alloc (pool_disk s)" "heap_list (pool_page s) [1] = [(\<lparr>rid_page_id = 1, rid_slot_num = 0\<rparr>, [1, 2])]"
    "pool_used s = {1, 2}"
  by (rule heap_with_tuple[of "[1, 2]"]) (use that in \<open>simp_all add: fresh_page_room\<close>)

section \<open>Properties\<close>

text \<open>
  C13: insertion. A tuple that fits a page is stored at a record identifier that was free and is
  the only change to the map of the heap; at most one page is added, from outside the pages in
  use, and reading it back gives the tuple.
\<close>

theorem heap_insert_get:
  assumes "heap_inv s p ps" "length t \<le> MAX_TUPLE_SIZE" "t \<noteq> []" "pool_room 2 s" "disk_alloc (pool_disk s)"
  shows "\<exists>r s' ns. heap_insert_tuple (ret_op ()) p t s = (Inr (Some r), s') \<and> heap_inv s' p (ps @ ns) \<and>
    length ns \<le> 1 \<and> set ns \<inter> pool_used s = {} \<and> pool_used s' = pool_used s \<union> set ns \<and>
    heap_map (pool_page s) ps r = None \<and> heap_map (pool_page s') (ps @ ns) = (heap_map (pool_page s) ps)(r \<mapsto> t) \<and>
    heap_frame (set (ps @ ns)) s s' \<and> fst (heap_get_tuple r s') = Inr (Some t)"
proof -
  obtain r s' ns where a: "heap_insert_tuple (ret_op ()) p t s = (Inr (Some r), s')" "heap_inv s' p (ps @ ns)"
    "inserted s s' p ps ns t r"
    by (rule heap_insert_spec[OF assms(1,2,4,5)], rule that)
  have b: "length ns \<le> 1" "set ns \<inter> pool_used s = {}" "pool_used s' = pool_used s \<union> set ns" "rid_page_id r \<in> set (ps @ ns)"
    "heap_map (pool_page s) ps r = None" "heap_map (pool_page s') (ps @ ns) = (heap_map (pool_page s) ps)(r \<mapsto> t)"
    "heap_frame (set (ps @ ns)) s s'"
    using a(3) by (simp_all add: inserted_def)
  have room: "pool_room (Suc 1) s'" using b(7) assms(4) by (simp add: heap_frame_def numeral_2_eq_2)
  obtain s2 where "heap_get_tuple r s' = (Inr (case heap_map (pool_page s') (ps @ ns) r of None \<Rightarrow> None
      | Some t \<Rightarrow> if t = [] then None else Some t), s2)"
    by (rule heap_get_spec[OF a(2) b(4) room])
  then have "fst (heap_get_tuple r s') = Inr (Some t)" using b(6) assms(3) by simp
  with a b show ?thesis by blast
qed

theorem heap_insert_get_witness:
  "\<exists>s r s'. heap_insert_tuple (ret_op ()) 1 [1, 2] s = (Inr (Some r), s') \<and> fst (heap_get_tuple r s') = Inr (Some [1, 2])"
proof -
  obtain s where s: "heap_inv s 1 [1]" "heap_map (pool_page s) [1] = Map.empty" "pool_room 2 s" "disk_alloc (pool_disk s)"
    by (rule small_heap)
  show ?thesis
    using heap_insert_get[OF s(1) _ _ s(3,4), of "[1, 2]"]
    by (auto simp: MAX_TUPLE_SIZE_def kPAGE_SIZE_def sizeof_PageHeader_def sizeof_Slot_def)
qed

text \<open>
  C14: update. Updating a stored tuple with one that fits a page always succeeds: in place, on the
  same page at the same identifier, or elsewhere at an identifier that was free; the old tuple is gone and no
  other tuple changes.
\<close>

theorem heap_update_replaces:
  assumes "heap_inv s p ps" "rid_page_id r \<in> set ps" "length t \<le> MAX_TUPLE_SIZE" "pool_room 2 s" "disk_alloc (pool_disk s)"
    "heap_map (pool_page s) ps r \<noteq> None"
  shows "\<exists>r' s' ns. heap_update_tuple (ret_op ()) p r t s = (Inr (Some r'), s') \<and> heap_inv s' p (ps @ ns) \<and>
    (r' = r \<or> heap_map (pool_page s) ps r' = None) \<and>
    heap_map (pool_page s') (ps @ ns) = (heap_map (pool_page s) ps)(r := None, r' \<mapsto> t) \<and>
    heap_frame (set (ps @ ns)) s s'"
  by (rule heap_update_spec[OF assms]) blast

theorem heap_update_replaces_witness:
  "\<exists>s r' s' ns. heap_update_tuple (ret_op ()) 1 \<lparr>rid_page_id = 1, rid_slot_num = 0\<rparr> [3, 4, 5] s = (Inr (Some r'), s') \<and>
     heap_map (pool_page s') ([1] @ ns) r' = Some [3, 4, 5]"
proof -
  obtain s where s: "heap_inv s 1 [1]" "heap_map (pool_page s) [1] \<lparr>rid_page_id = 1, rid_slot_num = 0\<rparr> = Some [1, 2]"
    "pool_room 2 s" "disk_alloc (pool_disk s)"
    by (rule small_heap_tuple)
  let ?r = "\<lparr>rid_page_id = 1, rid_slot_num = 0\<rparr> :: rid"
  have h: "rid_page_id ?r \<in> set [1]" "length [3 :: byte, 4, 5] \<le> MAX_TUPLE_SIZE"
    "heap_map (pool_page s) [1] ?r \<noteq> None"
    using s(2) by (simp_all add: MAX_TUPLE_SIZE_def kPAGE_SIZE_def sizeof_PageHeader_def sizeof_Slot_def)
  obtain r' s' ns where a: "heap_update_tuple (ret_op ()) 1 ?r [3, 4, 5] s = (Inr (Some r'), s')"
    "heap_map (pool_page s') ([1] @ ns) = (heap_map (pool_page s) [1])(?r := None, r' \<mapsto> [3, 4, 5])"
    using heap_update_replaces[OF s(1) h(1,2) s(3,4) h(3)] by blast
  have "heap_map (pool_page s') ([1] @ ns) r' = Some [3, 4, 5]" unfolding a(2) by simp
  with a(1) show ?thesis by blast
qed

text \<open>
  C38: an update that loses data. When the new tuple is longer than the old one and exceeds the
  capacity of a page, the old tuple is deleted before \<open>insert_tuple\<close> throws: the
  caller sees an exception and the tuple is gone.
\<close>

theorem heap_update_oversized_loses_tuple:
  assumes "heap_inv s p ps" "rid_page_id r \<in> set ps" "MAX_TUPLE_SIZE < length t" "length t < 65536" "pool_room 2 s"
    "heap_map (pool_page s) ps r = Some u"
  shows "\<exists>m s'. heap_update_tuple (ret_op ()) p r t s = (Inl (Runtime_Error m), s') \<and> heap_inv s' p ps \<and>
    heap_map (pool_page s') ps = (heap_map (pool_page s) ps)(r := None)"
proof -
  have room: "pool_room (Suc 1) s" using assms(5) by (simp add: numeral_2_eq_2)
  show ?thesis
  proof (rule heap_update_steps[OF assms(1,2,4) room, of "ret_op ()"])
    fix s'
    assume a: "heap_update_tuple (ret_op ()) p r t s = (Inr (Some r), s')" "heap_inv s' p ps"
      "heap_map (pool_page s') ps = (heap_map (pool_page s) ps)(r \<mapsto> t)"
    have "pg_tuple (pool_page s' (rid_page_id r)) (unat (rid_slot_num r)) = Some t"
      using fun_cong[OF a(3), of r] assms(2) by (simp add: heap_map_def)
    from tuple_length[OF heap_invD(6)[OF a(2) assms(2)] this] show ?thesis using assms(3) by simp
  next
    fix s'
    assume a: "heap_update_tuple (ret_op ()) p r t s = heap_insert_tuple (ret_op ()) p t s'" "heap_inv s' p ps"
      "heap_map (pool_page s') ps = (heap_map (pool_page s) ps)(r := None)"
    then show ?thesis using assms(3) by (simp add: heap_insert_tuple_def throw_op_def)
  qed (use assms(6) in simp)
qed

theorem heap_update_oversized_loses_tuple_witness:
  "\<exists>s m s'. heap_update_tuple (ret_op ()) 1 \<lparr>rid_page_id = 1, rid_slot_num = 0\<rparr> (replicate 9000 0) s = (Inl (Runtime_Error m), s') \<and>
     heap_map (pool_page s') [1] \<lparr>rid_page_id = 1, rid_slot_num = 0\<rparr> = None"
proof -
  obtain s where s: "heap_inv s 1 [1]" "heap_map (pool_page s) [1] \<lparr>rid_page_id = 1, rid_slot_num = 0\<rparr> = Some [1, 2]"
    "pool_room 2 s" "disk_alloc (pool_disk s)"
    by (rule small_heap_tuple)
  let ?r = "\<lparr>rid_page_id = 1, rid_slot_num = 0\<rparr> :: rid"
  have h: "rid_page_id ?r \<in> set [1]" "MAX_TUPLE_SIZE < length (replicate 9000 (0 :: byte))"
    "length (replicate 9000 (0 :: byte)) < 65536"
    by (simp_all add: MAX_TUPLE_SIZE_def kPAGE_SIZE_def sizeof_PageHeader_def sizeof_Slot_def)
  obtain m s' where a: "heap_update_tuple (ret_op ()) 1 ?r (replicate 9000 0) s = (Inl (Runtime_Error m), s')"
    "heap_map (pool_page s') [1] = (heap_map (pool_page s) [1])(?r := None)"
    using heap_update_oversized_loses_tuple[OF s(1) h s(3,2)] by blast
  have "heap_map (pool_page s') [1] ?r = None" unfolding a(2) by simp
  with a(1) show ?thesis by blast
qed

text \<open>
  C16: scanning. A scan begun on a heap returns every tuple exactly once, page by page and slot by
  slot, then \<open>std::nullopt\<close>; ending it gives back the pins and leaves all pages as they were.
\<close>

theorem heap_scan_all:
  assumes "heap_inv s p ps" "pool_room 2 s" "length (heap_list (pool_page s) ps) < n"
  shows "\<exists>sc sc' s'. bind_op (heap_scan_begin p) (\<lambda>sc. bind_op (heap_scan_collect n sc) (\<lambda>(ys, sc').
      bind_op (heap_scan_end sc') (\<lambda>_. ret_op ys))) s = (Inr (heap_list (pool_page s) ps), s') \<and>
    heap_inv s' p ps \<and> heap_frame {} s s' \<and> heap_map (pool_page s') ps = heap_map (pool_page s) ps"
proof -
  note h = heap_invD[OF assms(1)]
  have room: "pool_room (Suc (Suc 0)) s" using assms(2) by (simp add: numeral_2_eq_2)
  obtain sc s1 qs where a: "heap_scan_begin p s = (Inr sc, s1)" "scan_at s s1 sc p qs" "ps = p # qs"
    "scan_rest s sc p qs = heap_list (pool_page s) ps"
    by (rule scan_begin_spec[OF assms(1) room])
  have l: "length qs < kCHAIN_FUEL" using chain_length[OF h(4) heap_chain_valid[OF h(2)]] a(3) by simp
  have n: "length (scan_rest s sc p qs) < n" using assms(3) a(4) by simp
  from scan_collect_spec[OF a(2) l n] obtain sc2 s2 q2 qs2 where
    b: "heap_scan_collect n sc s1 = (Inr (heap_list (pool_page s) ps, sc2), s2)" "scan_at s s2 sc2 q2 qs2"
    unfolding a(4) by blast
  obtain s3 where c: "heap_scan_end sc2 s2 = (Inr (), s3)" "pool_st page_view {} s3" "heap_frame {} s s3" "pool_used s3 = pool_used s"
    by (rule scan_end_spec[OF b(2)])
  have v: "page_view (pool_page s3 x) = page_view (pool_page s x)" for x using c(3) by (simp add: heap_frame_def)
  note e = heap_view_cong[of ps "pool_page s3" "pool_page s", OF v]
  have "heap_inv s3 p ps" using c h e(1) by (simp add: heap_inv_def)
  with a(1) b(1) c e(2) show ?thesis by (simp add: bind_op_def ret_op_def)
qed

theorem heap_scan_all_witness:
  "\<exists>s s'. bind_op (heap_scan_begin 1) (\<lambda>sc. bind_op (heap_scan_collect 5 sc) (\<lambda>(ys, sc').
      bind_op (heap_scan_end sc') (\<lambda>_. ret_op ys))) s = (Inr [(\<lparr>rid_page_id = 1, rid_slot_num = 0\<rparr>, [1, 2])], s')"
proof -
  obtain s where s: "heap_inv s 1 [1]" "pool_room 2 s"
    "heap_list (pool_page s) [1] = [(\<lparr>rid_page_id = 1, rid_slot_num = 0\<rparr>, [1, 2])]"
    by (rule small_heap_tuple)
  show ?thesis using heap_scan_all[OF s(1,2), of 5] s(3) by auto
qed

text \<open>
  C15: rolling back a deletion. Deleting a stored tuple and restoring it at its identifier gives back
  the heap as it was: compaction always finds the room, no assertion fails and nothing else changes.
\<close>

theorem heap_delete_restore:
  assumes "heap_inv s p ps" "rid_page_id r \<in> set ps" "heap_map (pool_page s) ps r = Some t" "pool_room 2 s"
  shows "\<exists>s'. bind_op (heap_delete_tuple r) (\<lambda>_. heap_restore_tuple r t) s = (Inr (), s') \<and> heap_inv s' p ps \<and>
    heap_map (pool_page s') ps = heap_map (pool_page s) ps \<and> heap_frame {rid_page_id r} s s'"
proof -
  have room: "pool_room (Suc 1) s" using assms(4) by (simp add: numeral_2_eq_2)
  obtain s1 where a: "heap_delete_tuple r s = (Inr (heap_map (pool_page s) ps r \<noteq> None), s1)"
    "heap_inv s1 p ps" "heap_frame {rid_page_id r} s s1" "pool_used s1 = pool_used s"
    "disk_space (pool_disk s1) = disk_space (pool_disk s)"
    "heap_map (pool_page s1) ps = (heap_map (pool_page s) ps)(r := None)"
    "pg_count (pool_page s1 (rid_page_id r)) = pg_count (pool_page s (rid_page_id r))"
    by (rule heap_delete_spec[OF assms(1,2) room], rule that)
  have run: "heap_delete_tuple r s = (Inr True, s1)" using a(1) assms(3) by simp
  have tup: "pg_tuple (pool_page s (rid_page_id r)) (unat (rid_slot_num r)) = Some t"
    using assms(2,3) by (simp add: heap_map_def)
  have room1: "pool_room (Suc 1) s1" using a(3) room by (simp add: heap_frame_def)
  have none: "heap_map (pool_page s1) ps r = None" using a(6) by simp
  have cnt: "unat (rid_slot_num r) < pg_count (pool_page s1 (rid_page_id r))"
    using tup a(7) by (auto simp: pg_tuple_def pg_live_def split: if_splits)
  have "pg_tuple (pool_page s1 (rid_page_id r)) = (pg_tuple (pool_page s (rid_page_id r)))(unat (rid_slot_num r) := None)"
    by (rule heap_map_page[OF a(6) assms(2)])
  then have fit: "int (length t) \<le> pg_room (pool_page s1 (rid_page_id r))"
    using room_after_delete[OF heap_invD(6)[OF assms(1,2)] heap_invD(6)[OF a(2) assms(2)] tup _ a(7)] by simp
  obtain s2 where b: "heap_restore_tuple r t s1 = (Inr (), s2)" "heap_inv s2 p ps" "heap_frame {rid_page_id r} s1 s2"
    "heap_map (pool_page s2) ps = (heap_map (pool_page s1) ps)(r \<mapsto> t)"
    by (rule heap_restore_spec[OF a(2) assms(2) room1 delete_dirty[OF assms(1,2) room run] none cnt fit])
  have "heap_map (pool_page s2) ps = heap_map (pool_page s) ps" using b(4) a(6) assms(3) by auto
  moreover have "heap_frame {rid_page_id r} s s2" using heap_frame_trans[OF a(3) b(3)] by simp
  ultimately show ?thesis using run b(1,2) by (simp add: bind_op_def)
qed

theorem heap_delete_restore_witness:
  "\<exists>s s'. bind_op (heap_delete_tuple \<lparr>rid_page_id = 1, rid_slot_num = 0\<rparr>)
     (\<lambda>_. heap_restore_tuple \<lparr>rid_page_id = 1, rid_slot_num = 0\<rparr> [1, 2]) s = (Inr (), s') \<and>
     heap_map (pool_page s') [1] \<lparr>rid_page_id = 1, rid_slot_num = 0\<rparr> = Some [1, 2]"
proof -
  obtain s where s: "heap_inv s 1 [1]" "heap_map (pool_page s) [1] \<lparr>rid_page_id = 1, rid_slot_num = 0\<rparr> = Some [1, 2]"
    "pool_room 2 s" "disk_alloc (pool_disk s)"
    by (rule small_heap_tuple)
  let ?r = "\<lparr>rid_page_id = 1, rid_slot_num = 0\<rparr> :: rid"
  have h: "rid_page_id ?r \<in> set [1]" by simp
  obtain s' where a: "bind_op (heap_delete_tuple ?r) (\<lambda>_. heap_restore_tuple ?r [1, 2]) s = (Inr (), s')"
    "heap_map (pool_page s') [1] = heap_map (pool_page s) [1]"
    using heap_delete_restore[OF s(1) h s(2,3)] by blast
  then have "heap_map (pool_page s') [1] ?r = Some [1, 2]" using s(2) by simp
  with a(1) show ?thesis by blast
qed

lemma all_pages_fuel:
  "heap_all_pages_from n p acc s = (Inr x, t) \<Longrightarrow> heap_all_pages_from (n + k) p acc s = (Inr x, t)"
proof (induction n arbitrary: p acc s)
  case 0
  then show ?case by (simp add: throw_op_def)
next
  case (Suc n)
  then show ?case by (auto simp: bind_op_def split: prod.splits sum.splits option.splits if_splits)
qed

text \<open>
  C25: walking the pages. On a well-formed heap the walk along the next pointers ends after as many steps as the chain has
  pages, whatever more it would be allowed: it visits each page once, in the order of the chain, and leaves no page pinned.
\<close>

theorem all_pages_terminates:
  assumes "heap_inv s p ps" "pool_room 1 s"
  shows "\<exists>s'. (\<forall>n \<ge> length ps. heap_all_pages_from n p [] s = (Inr (ps, SUCCESS), s')) \<and> length ps < kCHAIN_FUEL \<and>
    heap_all_pages p s = (Inr (ps, SUCCESS), s') \<and> heap_inv s' p ps \<and> heap_frame {} s s'"
proof -
  note h = heap_invD[OF assms(1)]
  have room: "pool_room (Suc 0) s" using assms(2) by simp
  obtain s' where a: "heap_all_pages_from (length ps) p [] s = (Inr (ps, SUCCESS), s')"
    using all_pages_loop[OF h(1-5) room order_refl, of "[]"] by auto
  have len: "length ps < kCHAIN_FUEL" using chain_length[OF h(4) heap_chain_valid[OF h(2)]] by simp
  have all: "heap_all_pages_from n p [] s = (Inr (ps, SUCCESS), s')" if "length ps \<le> n" for n
    using all_pages_fuel[OF a, of "n - length ps"] that by simp
  obtain t where t: "heap_all_pages p s = (Inr (ps, SUCCESS), t)" "heap_inv t p ps" "heap_frame {} s t"
    by (rule heap_all_pages_spec[OF assms(1) room])
  have "t = s'" using t(1) all[of kCHAIN_FUEL] len by (simp add: heap_all_pages_def)
  then show ?thesis using all len t by blast
qed

theorem all_pages_terminates_witness:
  "\<exists>s s'. pool_used s = {1, 2} \<and> heap_all_pages_from 1 1 [] s = (Inr ([1], SUCCESS), s')"
proof -
  obtain s where s: "heap_inv s 1 [1]" "heap_map (pool_page s) [1] = Map.empty" "pool_room 2 s" "disk_alloc (pool_disk s)" "pool_used s = {1, 2}"
    by (rule small_heap)
  have "pool_room 1 s" using s(3) by (rule pool_room_le) simp
  from all_pages_terminates[OF s(1) this] show ?thesis using s(5) by fastforce
qed

end
