(* ===== verification/Schema.thy ===== *)
theory Schema
  imports Prelude "HOL-Library.Char_ord"
begin

text \<open>
  Columns and schemas (\<open>src/tuple/column.cpp\<close>, \<open>src/tuple/schema.cpp\<close> and their headers):
  the column types, the byte format in which the catalog keeps the schema of a table, look-up by
  position and by name, projection.

  \<open>TypeId\<close> is an enumeration over \<open>uint16_t\<close>, and \<open>bit_cast\<close> makes a value of it from any
  two bytes: \<open>T_Unknown w\<close> stands for the values that no enumerator names.
\<close>

section \<open>Columns\<close>

datatype type_id =
    T_INT32 | T_INT64 | T_UINT32 | T_UINT64
  | T_FLOAT | T_DOUBLE
  | T_BOOL
  | T_CHAR | T_VARCHAR | T_VARBINARY
  | T_Unknown u16

record column =
  col_name :: string
  col_type :: type_id
  col_length :: u16

fun type_id_code :: "type_id \<Rightarrow> u16" where
  "type_id_code T_INT32 = 0"
| "type_id_code T_INT64 = 1"
| "type_id_code T_UINT32 = 2"
| "type_id_code T_UINT64 = 3"
| "type_id_code T_FLOAT = 4"
| "type_id_code T_DOUBLE = 5"
| "type_id_code T_BOOL = 6"
| "type_id_code T_CHAR = 7"
| "type_id_code T_VARCHAR = 8"
| "type_id_code T_VARBINARY = 9"
| "type_id_code (T_Unknown w) = w"

definition type_id_of_code :: "u16 \<Rightarrow> type_id" where
  "type_id_of_code w =
     (if unat w < 10
      then [T_INT32, T_INT64, T_UINT32, T_UINT64, T_FLOAT, T_DOUBLE, T_BOOL, T_CHAR, T_VARCHAR, T_VARBINARY] ! unat w
      else T_Unknown w)"

definition string_bytes :: "string \<Rightarrow> byte list" where
  "string_bytes s = map of_char s"

definition bytes_string :: "byte list \<Rightarrow> string" where
  "bytes_string bs = map (\<lambda>b. char_of (unat b)) bs"

definition column_serialize :: "column \<Rightarrow> byte list" where
  "column_serialize c =
     le_bytes 2 (of_nat (length (col_name c)) :: u16) @ string_bytes (col_name c) @
     le_bytes 2 (type_id_code (col_type c)) @ le_bytes 2 (col_length c)"

definition column_deserialize :: "byte list \<Rightarrow> (column \<times> u16) res" where
  "column_deserialize raw =
     (if length raw < 2
      then Inl (Runtime_Error ''Column::deserialize: raw data too small for name length'')
      else let name_length = unat (le_word (seg raw 0 2) :: u16); offset = 2 in
        if length raw < offset + name_length + 4
        then Inl (Runtime_Error ''Column::deserialize: raw data too small for column body'')
        else
          bind_res (subspan raw offset name_length) (\<lambda>name_span.
          let offset = offset + name_length in
          bind_res (subspan raw offset 2) (\<lambda>type_arr.
          let offset = offset + 2 in
          bind_res (subspan raw offset 2) (\<lambda>length_arr.
          Inr (\<lparr>col_name = bytes_string name_span, col_type = type_id_of_code (le_word type_arr),
                col_length = le_word length_arr\<rparr>, of_nat (offset + 2))))))"

definition column_is_fixed_size :: "column \<Rightarrow> bool" where
  "column_is_fixed_size c \<longleftrightarrow>
     col_type c \<in> {T_INT64, T_UINT64, T_INT32, T_UINT32, T_DOUBLE, T_FLOAT, T_BOOL, T_CHAR}"

definition column_eq :: "column \<Rightarrow> column \<Rightarrow> bool" where
  "column_eq a b \<longleftrightarrow> col_type a = col_type b \<and> col_length a = col_length b \<and> col_name a = col_name b"

section \<open>Schemas\<close>

record schema =
  columns :: "column list"

definition schema_of :: "column list \<Rightarrow> schema res" where
  \<comment> \<open>the constructor from a list of columns\<close>
  "schema_of cs =
     (if length cs = 0
      then Inl (Runtime_Error ''Schema::Schema: tried to create schema with 0 columns'')
      else Inr \<lparr>columns = cs\<rparr>)"

definition schema_column :: "schema \<Rightarrow> nat \<Rightarrow> column res" where
  "schema_column s i = at_index (columns s) i"

definition schema_column_count :: "schema \<Rightarrow> nat" where
  "schema_column_count s = length (columns s)"

fun column_index_from :: "string \<Rightarrow> nat \<Rightarrow> column list \<Rightarrow> nat option" where
  "column_index_from name i [] = None"
| "column_index_from name i (c # cs) = (if col_name c = name then Some i else column_index_from name (Suc i) cs)"

definition schema_column_index :: "schema \<Rightarrow> string \<Rightarrow> nat option" where
  "schema_column_index s name = column_index_from name 0 (columns s)"

definition column_fixed_size :: "column \<Rightarrow> u16 res" where
  "column_fixed_size c =
     (case col_type c of
        T_INT64 \<Rightarrow> Inr 8 | T_UINT64 \<Rightarrow> Inr 8 | T_DOUBLE \<Rightarrow> Inr 8
      | T_INT32 \<Rightarrow> Inr 4 | T_UINT32 \<Rightarrow> Inr 4 | T_FLOAT \<Rightarrow> Inr 4
      | T_BOOL \<Rightarrow> Inr 1
      | T_CHAR \<Rightarrow> Inr (col_length c)
      | T_VARCHAR \<Rightarrow> Inr 0 | T_VARBINARY \<Rightarrow> Inr 0
      | T_Unknown w \<Rightarrow> Inl (Runtime_Error ''Schema::fixed_size_of: unknown typeId''))"

definition schema_fixed_size_of :: "schema \<Rightarrow> nat \<Rightarrow> u16 res" where
  "schema_fixed_size_of s i = bind_res (schema_column s i) column_fixed_size"

definition schema_compatible_with :: "schema \<Rightarrow> schema \<Rightarrow> bool" where
  "schema_compatible_with a b \<longleftrightarrow> list_all2 column_eq (columns a) (columns b)"

definition schema_serialize :: "schema \<Rightarrow> byte list" where
  \<comment> \<open>the loop counts in 16 bits up to the truncated number of columns\<close>
  "schema_serialize s =
     (let n = of_nat (schema_column_count s) :: u16 in
        le_bytes 2 n @ concat (map column_serialize (take (unat n) (columns s))))"

fun schema_deserialize_from :: "byte list \<Rightarrow> nat \<Rightarrow> u16 \<Rightarrow> column list res" where
  \<comment> \<open>the loop with \<open>n\<close> columns left; the offset wraps at 16 bits\<close>
  "schema_deserialize_from raw 0 offset = Inr []"
| "schema_deserialize_from raw (Suc n) offset =
     (if length raw < unat offset
      then Inl (Runtime_Error ''Schema::deserialize: raw data too small for specified column count'')
      else
        bind_res (column_deserialize (drop (unat offset) raw)) (\<lambda>(c, k).
        bind_res (schema_deserialize_from raw n (offset + k)) (\<lambda>cs. Inr (c # cs))))"

definition schema_deserialize :: "byte list \<Rightarrow> column list res" where
  "schema_deserialize raw =
     (if length raw < 2
      then Inl (Runtime_Error ''Schema::deserialize: raw data too small for column count'')
      else schema_deserialize_from raw (unat (le_word (seg raw 0 2) :: u16)) 2)"

definition schema_of_bytes :: "byte list \<Rightarrow> schema res" where
  \<comment> \<open>the constructor from raw bytes, which accepts zero columns\<close>
  "schema_of_bytes raw = bind_res (schema_deserialize raw) (\<lambda>cs. Inr \<lparr>columns = cs\<rparr>)"

definition schema_projected :: "schema \<Rightarrow> nat list \<Rightarrow> schema res" where
  "schema_projected s column_idxs = bind_res (map_res (schema_column s) column_idxs) schema_of"

fun decimal :: "nat \<Rightarrow> string" where
  \<comment> \<open>\<open>std::to_string\<close> of an unsigned integer\<close>
  "decimal n = (if n < 10 then [char_of (48 + n)] else decimal (n div 10) @ [char_of (48 + n mod 10)])"

definition type_id_text :: "column \<Rightarrow> string" where
  "type_id_text c =
     (case col_type c of
        T_INT32 \<Rightarrow> ''INT32'' | T_UINT32 \<Rightarrow> ''UINT32'' | T_INT64 \<Rightarrow> ''INT64'' | T_UINT64 \<Rightarrow> ''UINT64''
      | T_FLOAT \<Rightarrow> ''FLOAT'' | T_DOUBLE \<Rightarrow> ''DOUBLE'' | T_BOOL \<Rightarrow> ''BOOL''
      | T_VARCHAR \<Rightarrow> ''VARCHAR'' | T_VARBINARY \<Rightarrow> ''VARBINARY''
      | T_CHAR \<Rightarrow> ''CHAR('' @ decimal (unat (col_length c)) @ '')''
      | T_Unknown w \<Rightarrow> '''')"

fun joined :: "string list \<Rightarrow> string" where
  \<comment> \<open>a separator after every element but the last\<close>
  "joined [] = ''''"
| "joined [x] = x"
| "joined (x # y # xs) = x @ '' | '' @ joined (y # xs)"

definition schema_to_string :: "schema \<Rightarrow> string" where
  "schema_to_string s = joined (map type_id_text (columns s))"

section \<open>Strings and type codes\<close>

lemma char_of_of_char_byte [simp]: "char_of (unat (of_char c :: byte)) = c"
proof -
  have "unat (of_char c :: byte) = of_char c mod 256"
    unfolding of_nat_of_char[of c, where 'a = byte, symmetric] by (simp add: unsigned_of_nat take_bit_eq_mod)
  then show ?thesis by simp
qed

lemma of_char_char_of_byte [simp]: "of_char (char_of (unat b)) = (b :: byte)"
proof -
  have "of_char (char_of (unat b)) = (of_nat (of_char (char_of (unat b))) :: byte)" by (rule of_nat_of_char[symmetric])
  also have "\<dots> = of_nat (unat b mod 256)" by (simp only: of_char_of)
  finally show ?thesis using unsigned_less[of b, where 'a = nat] by simp
qed

lemma bytes_string_inverse [simp]: "bytes_string (string_bytes s) = s" "string_bytes (bytes_string bs) = bs"
  by (simp_all add: bytes_string_def string_bytes_def comp_def)

lemma length_string_bytes [simp]: "length (string_bytes s) = length s" "length (bytes_string bs) = length bs"
  by (simp_all add: bytes_string_def string_bytes_def)

fun type_id_ok :: "type_id \<Rightarrow> bool" where
  \<comment> \<open>the values of the enumeration, each once\<close>
  "type_id_ok (T_Unknown w) \<longleftrightarrow> 10 \<le> unat w"
| "type_id_ok t \<longleftrightarrow> True"

lemma type_id_of_code_inverse [simp]: "type_id_ok t \<Longrightarrow> type_id_of_code (type_id_code t) = t"
  by (cases t) (auto simp: type_id_of_code_def)

lemma small_code: "unat (w :: u16) < 10 \<Longrightarrow> w \<in> {0, 1, 2, 3, 4, 5, 6, 7, 8, 9}"
proof -
  assume a: "unat w < 10"
  have "w = of_nat (unat w)" by simp
  also have "of_nat (unat w) \<in> (of_nat ` {0, 1, 2, 3, 4, 5, 6, 7, 8, 9} :: u16 set)"
    by (rule imageI) (use a in auto)
  finally show ?thesis by simp
qed

lemma type_id_code_inverse [simp]: "type_id_code (type_id_of_code w) = w"
  using small_code[of w] by (cases "unat w < 10") (auto simp: type_id_of_code_def)

lemma type_id_of_code_ok [simp]: "type_id_ok (type_id_of_code w)"
proof (cases "unat w < 10")
  case True
  then have "unat w \<in> {0,1,2,3,4,5,6,7,8,9}" by auto
  then show ?thesis using True by (auto simp: type_id_of_code_def)
qed (simp add: type_id_of_code_def)

section \<open>A codec that leaves the rest of its input\<close>

text \<open>
  What the schema needs of the format of its columns: decoding consumes exactly the bytes that were encoded, whatever
  follows, and reports how many. The loop that decodes one element after the other then gives
  back the list.
\<close>

locale prefix_codec =
  fixes enc :: "'a \<Rightarrow> byte list" and dec :: "byte list \<Rightarrow> ('a \<times> u16) res" and ok :: "'a \<Rightarrow> bool"
    and seq :: "byte list \<Rightarrow> nat \<Rightarrow> u16 \<Rightarrow> 'a list res" and err :: error
  assumes dec_enc: "ok x \<Longrightarrow> dec (enc x @ rest) = Inr (x, of_nat (length (enc x)))"
    and seq_0: "seq raw 0 k = Inr []"
    and seq_Suc: "seq raw (Suc n) k =
      (if length raw < unat k then Inl err
       else bind_res (dec (drop (unat k) raw)) (\<lambda>(x, m). bind_res (seq raw n (k + m)) (\<lambda>xs. Inr (x # xs))))"
begin

lemma seq_enc:
  "\<forall>x\<in>set xs. ok x \<Longrightarrow> length pre + length (concat (map enc xs)) < 65536 \<Longrightarrow>
    seq (pre @ concat (map enc xs) @ rest) (length xs) (of_nat (length pre)) = Inr xs"
proof (induction xs arbitrary: pre)
  case Nil
  then show ?case by (simp add: seq_0)
next
  case (Cons x xs)
  have k: "unat (of_nat (length pre) :: u16) = length pre" using Cons.prems(2) by (intro unat_of_nat16) simp
  have "seq ((pre @ enc x) @ concat (map enc xs) @ rest) (length xs) (of_nat (length (pre @ enc x))) = Inr xs"
    by (rule Cons.IH) (use Cons.prems in auto)
  moreover have "dec (enc x @ concat (map enc xs) @ rest) = Inr (x, of_nat (length (enc x)))"
    by (rule dec_enc) (use Cons.prems(1) in simp)
  ultimately show ?case by (simp add: seq_Suc k)
qed

lemma enc_inj:
  assumes "ok x" "ok y" "enc x @ r = enc y @ r'"
  shows "x = y"
  using dec_enc[OF assms(1), of r] dec_enc[OF assms(2), of r'] assms(3) by simp

end

definition column_ok :: "column \<Rightarrow> bool" where
  \<comment> \<open>the name fits the 16-bit length\<close>
  "column_ok c \<longleftrightarrow> length (col_name c) < 65536 \<and> type_id_ok (col_type c)"

lemma column_codec:
  assumes "column_ok c"
  shows "column_deserialize (column_serialize c @ rest) = Inr (c, of_nat (length (column_serialize c)))"
proof -
  let ?n = "length (col_name c)"
  let ?raw = "column_serialize c @ rest"
  have n: "unat (of_nat ?n :: u16) = ?n" using assms by (simp add: column_ok_def unat_of_nat16)
  have raw: "?raw = le_bytes 2 (of_nat ?n :: u16) @ string_bytes (col_name c) @
      le_bytes 2 (type_id_code (col_type c)) @ le_bytes 2 (col_length c) @ rest"
    by (simp add: column_serialize_def)
  have l: "length (column_serialize c) = ?n + 6" by (simp add: column_serialize_def)
  have s: "seg ?raw 0 2 = le_bytes 2 (of_nat ?n :: u16)" "seg ?raw 2 ?n = string_bytes (col_name c)"
    "seg ?raw (?n + 2) 2 = le_bytes 2 (type_id_code (col_type c))" "seg ?raw (Suc (Suc (Suc (Suc ?n)))) 2 = le_bytes 2 (col_length c)"
    unfolding raw by (simp_all add: seg_def)
  have t: "type_id_ok (col_type c)" using assms by (simp add: column_ok_def)
  show ?thesis
    using l s n t unfolding column_deserialize_def
    by (simp add: Let_def subspan_def add.commute)
qed

interpretation col: prefix_codec column_serialize column_deserialize column_ok schema_deserialize_from
  "Runtime_Error ''Schema::deserialize: raw data too small for specified column count''"
  by unfold_locales (auto simp: column_codec)

lemma schema_codec:
  assumes "\<forall>c\<in>set (columns s). column_ok c" "length (schema_serialize s) < 65536" "length (columns s) < 65536"
  shows "schema_of_bytes (schema_serialize s @ rest) = Inr s"
proof -
  let ?n = "length (columns s)"
  have n: "unat (of_nat ?n :: u16) = ?n" using assms(3) by (simp add: unat_of_nat16)
  have ser: "schema_serialize s = le_bytes 2 (of_nat ?n :: u16) @ concat (map column_serialize (columns s))"
    using n by (simp add: schema_serialize_def schema_column_count_def Let_def)
  have "schema_deserialize_from (le_bytes 2 (of_nat ?n :: u16) @ concat (map column_serialize (columns s)) @ rest) ?n
      (of_nat (length (le_bytes 2 (of_nat ?n :: u16)))) = Inr (columns s)"
    by (rule col.seq_enc) (use assms ser in auto)
  moreover have "seg (schema_serialize s @ rest) 0 2 = le_bytes 2 (of_nat ?n :: u16)"
    unfolding ser by (simp add: seg_def)
  ultimately show ?thesis
    using n ser by (simp add: schema_of_bytes_def schema_deserialize_def)
qed

section \<open>Properties\<close>

lemma column_deserialize_safe: "column_deserialize raw \<noteq> Inl Undefined_Behaviour"
  by (auto simp: column_deserialize_def Let_def subspan_def)

lemma column_deserialize_progress: "column_deserialize raw = Inr (c, k) \<Longrightarrow> 6 \<le> length raw \<and> column_ok c"
  using unsigned_less[of "le_word (seg raw 0 2) :: u16", where 'a = nat]
  by (auto simp: column_deserialize_def Let_def subspan_def column_ok_def split: if_splits)

lemma schema_deserialize_from_safe: "schema_deserialize_from raw n k \<noteq> Inl Undefined_Behaviour"
proof (induction n arbitrary: k)
  case (Suc n)
  then show ?case
    using column_deserialize_safe[of "drop (unat k) raw"] by (auto simp: bind_res_eq_Inl split: prod.splits)
qed simp

lemma schema_deserialize_from_ok:
  "schema_deserialize_from raw n k = Inr cs \<Longrightarrow> length cs = n \<and> (\<forall>c\<in>set cs. column_ok c)"
proof (induction n arbitrary: k cs)
  case (Suc n)
  from Suc.prems obtain c m cs' where a: "column_deserialize (drop (unat k) raw) = Inr (c, m)"
    "schema_deserialize_from raw n (k + m) = Inr cs'" "cs = c # cs'"
    by (auto simp: bind_res_eq_Inr split: if_splits prod.splits)
  with Suc.IH[OF a(2)] column_deserialize_progress[OF a(1)] show ?case by simp
qed simp

text \<open>
  C22: the stored schema. A schema whose column names fit 16-bit lengths and whose bytes are fewer
  than 65536 (a catalog row is far smaller) is read back from its bytes as it was, whatever
  follows them.
\<close>

theorem schema_round_trip:
  assumes "\<forall>c\<in>set (columns s). column_ok c" "length (schema_serialize s) < 65536" "length (columns s) < 65536"
  shows "schema_of_bytes (schema_serialize s @ rest) = Inr s"
  by (rule schema_codec[OF assms])

definition sample_schema :: schema where
  "sample_schema = \<lparr>columns =
     [\<lparr>col_name = ''id'', col_type = T_INT64, col_length = 0\<rparr>, \<lparr>col_name = ''name'', col_type = T_VARCHAR, col_length = 32\<rparr>,
      \<lparr>col_name = ''code'', col_type = T_CHAR, col_length = 4\<rparr>, \<lparr>col_name = ''ok'', col_type = T_BOOL, col_length = 0\<rparr>]\<rparr>"

theorem schema_round_trip_witness:
  "schema_of_bytes (schema_serialize sample_schema @ [7, 7]) = Inr sample_schema"
  by (rule schema_round_trip)
    (simp_all add: sample_schema_def column_ok_def schema_serialize_def schema_column_count_def Let_def column_serialize_def)

text \<open>
  C32: reading a schema from arbitrary bytes. The reader never leaves the span it is given: it
  throws, or it returns as many columns as the bytes announce, each of which can be
  written and read again.
\<close>

theorem schema_of_bytes_safe:
  "(\<exists>m. schema_of_bytes raw = Inl (Runtime_Error m)) \<or>
   (\<exists>s. schema_of_bytes raw = Inr s \<and> length (columns s) = unat (le_word (seg raw 0 2) :: u16) \<and>
     (\<forall>c\<in>set (columns s). column_ok c))"
proof (cases "schema_deserialize raw")
  case (Inl e)
  have c: "column_deserialize r = Inl e' \<Longrightarrow> \<exists>m. e' = Runtime_Error m" for r e'
    using column_deserialize_safe[of r] by (auto simp: column_deserialize_def Let_def subspan_def split: if_splits)
  have "schema_deserialize_from raw n k = Inl e' \<Longrightarrow> \<exists>m. e' = Runtime_Error m" for n k e'
    by (induction n arbitrary: k) (auto simp: bind_res_eq_Inl split: if_splits prod.splits dest: c)
  with Inl have "\<exists>m. e = Runtime_Error m" by (auto simp: schema_deserialize_def split: if_splits)
  with Inl show ?thesis by (auto simp: schema_of_bytes_def)
next
  case (Inr cs)
  then have "length cs = unat (le_word (seg raw 0 2) :: u16) \<and> (\<forall>c\<in>set cs. column_ok c)"
    by (intro schema_deserialize_from_ok[of raw _ 2]) (simp add: schema_deserialize_def split: if_splits)
  with Inr show ?thesis by (simp add: schema_of_bytes_def)
qed

theorem schema_of_bytes_safe_witness:
  "\<exists>s. schema_of_bytes [1, 0, 1, 0, 97, 1, 0, 0, 0] = Inr s \<and> length (columns s) = 1 \<and> (\<forall>c\<in>set (columns s). column_ok c)"
proof -
  have "schema_of_bytes [1, 0, 1, 0, 97, 1, 0, 0, 0] \<noteq> Inl (Runtime_Error m)" for m
    by (simp add: schema_of_bytes_def schema_deserialize_def column_deserialize_def seg_def subspan_def Let_def)
  with schema_of_bytes_safe[of "[1, 0, 1, 0, 97, 1, 0, 0, 0]"] show ?thesis by (auto simp: seg_def)
qed

end
