(* ===== verification/Floating.thy ===== *)
theory Floating
  imports Prelude
begin

text \<open>
  IEEE 754 numbers as the sources use them: a \<open>double\<close> or \<open>float\<close> is its bit pattern, and this
  theory gives the number the pattern stands for, its order and the conversions
  \<open>static_cast<double>\<close> from \<open>float\<close> and \<open>std::uint64_t\<close>.

  Every finite \<open>double\<close> is an integer multiple of \<open>2 ^ -1074\<close>: \<open>Num i\<close> is the number
  \<open>i * 2 ^ -1074\<close>. The infinities are \<open>Num (\<plusminus> 2 ^ 2098)\<close>, beyond every finite number, so that \<open><\<close>
  on the integers is \<open><\<close> on the numbers; \<open>NaN\<close> is unordered.
\<close>

datatype dbl = NaN | Num int

instantiation dbl :: ord
begin

fun less_dbl :: "dbl \<Rightarrow> dbl \<Rightarrow> bool" where
  "less_dbl (Num a) (Num b) \<longleftrightarrow> a < b"
| "less_dbl _ _ \<longleftrightarrow> False"

fun less_eq_dbl :: "dbl \<Rightarrow> dbl \<Rightarrow> bool" where
  "less_eq_dbl (Num a) (Num b) \<longleftrightarrow> a \<le> b"
| "less_eq_dbl _ _ \<longleftrightarrow> False"

instance ..

end

fun dbl_eq :: "dbl \<Rightarrow> dbl \<Rightarrow> bool" where
  \<comment> \<open>\<open>==\<close> on \<open>double\<close>\<close>
  "dbl_eq (Num a) (Num b) \<longleftrightarrow> a = b"
| "dbl_eq _ _ \<longleftrightarrow> False"

definition signed_num :: "bool \<Rightarrow> nat \<Rightarrow> dbl" where
  "signed_num negative m = Num (if negative then - int m else int m)"

definition double_number :: "u64 \<Rightarrow> dbl" where
  "double_number w =
     (let negative = bit w 63; e = unat (take_bit 11 (drop_bit 52 w)); f = unat (take_bit 52 w) in
        if e = 2047 then (if f = 0 then signed_num negative (2 ^ 2098) else NaN)
        else if e = 0 then signed_num negative f
        else signed_num negative ((2 ^ 52 + f) * 2 ^ (e - 1)))"

definition float_number :: "u32 \<Rightarrow> dbl" where
  \<comment> \<open>\<open>static_cast<double>\<close> of a \<open>float\<close>, which is exact: units of \<open>2 ^ -149\<close>\<close>
  "float_number w =
     (let negative = bit w 31; e = unat (take_bit 8 (drop_bit 23 w)); f = unat (take_bit 23 w) in
        if e = 255 then (if f = 0 then signed_num negative (2 ^ 2098) else NaN)
        else if e = 0 then signed_num negative (f * 2 ^ 925)
        else signed_num negative ((2 ^ 23 + f) * 2 ^ (e - 1) * 2 ^ 925))"

fun bit_width :: "nat \<Rightarrow> nat" where
  "bit_width n = (if n = 0 then 0 else Suc (bit_width (n div 2)))"

declare bit_width.simps [simp del]

definition round_53 :: "nat \<Rightarrow> nat" where
  \<comment> \<open>rounding to 53 significant bits, to nearest, ties to even\<close>
  "round_53 n =
     (let d = bit_width n - 53; q = n div 2 ^ d; r = n mod 2 ^ d in
        (if 2 ^ d < 2 * r \<or> 2 * r = 2 ^ d \<and> odd q then Suc q else q) * 2 ^ d)"

definition uint64_number :: "u64 \<Rightarrow> dbl" where
  \<comment> \<open>\<open>static_cast<double>\<close> of an \<open>std::uint64_t\<close>\<close>
  "uint64_number w = Num (int (round_53 (unat w)) * 2 ^ 1074)"

section \<open>Facts\<close>

lemma bit_width_0 [simp]: "bit_width 0 = 0"
  by (subst bit_width.simps) simp

lemma bit_width_pos: "0 < n \<Longrightarrow> bit_width n = Suc (bit_width (n div 2))"
  by (subst bit_width.simps) simp

lemma bit_width_le_iff: "bit_width n \<le> k \<longleftrightarrow> n < 2 ^ k"
proof (induction n arbitrary: k rule: bit_width.induct)
  case (1 n)
  show ?case
  proof (cases "n = 0")
    case False
    then have IH: "bit_width (n div 2) \<le> j \<longleftrightarrow> n div 2 < 2 ^ j" for j using 1 by simp
    show ?thesis
    proof (cases k)
      case 0
      then show ?thesis using False by (simp add: bit_width_pos)
    next
      case (Suc j)
      have "n < 2 * 2 ^ j \<longleftrightarrow> n div 2 < 2 ^ j" by linarith
      then show ?thesis using False Suc IH[of j] by (simp add: bit_width_pos)
    qed
  qed simp
qed

lemma round_53_exact: "n < 2 ^ 53 \<Longrightarrow> round_53 n = n"
proof -
  assume "n < 2 ^ 53"
  then have "bit_width n - 53 = 0" using bit_width_le_iff[of n 53] by simp
  then show ?thesis by (simp add: round_53_def)
qed

lemma dbl_less_Num [simp]: "Num a < Num b \<longleftrightarrow> a < b" "Num a \<le> Num b \<longleftrightarrow> a \<le> b"
  "\<not> NaN < x" "\<not> x < NaN" "\<not> NaN \<le> x" "\<not> x \<le> NaN"
  by (cases x; simp)+

lemma uint64_number_Num: "uint64_number w \<noteq> NaN"
  by (simp add: uint64_number_def)

lemma double_exponent: "unat (take_bit 11 (drop_bit 52 (w :: u64))) < 2048"
  using take_bit_nat_less_exp[of 11 "unat (drop_bit 52 w)"] by (simp add: unsigned_take_bit_eq)

lemma double_fraction: "unat (take_bit 52 (w :: u64)) < 2 ^ 52"
  using take_bit_nat_less_exp[of 52 "unat w"] by (simp add: unsigned_take_bit_eq)

lemma signed_num_abs: "signed_num negative m = Num i \<Longrightarrow> \<bar>i\<bar> = int m"
  by (auto simp: signed_num_def split: if_splits)

lemma finite_double_bound:
  assumes "double_number w = Num i" "unat (take_bit 11 (drop_bit 52 w)) \<noteq> 2047"
  shows "\<bar>i\<bar> < int (2 ^ 2098)"
proof -
  let ?e = "unat (take_bit 11 (drop_bit 52 w))" and ?f = "unat (take_bit 52 w)"
  have f: "2 ^ 52 + ?f < 2 ^ 53" using double_fraction[of w] by simp
  have "?e - 1 \<le> 2045" using assms(2) double_exponent[of w] by simp
  then have "(2 :: nat) ^ (?e - 1) \<le> 2 ^ 2045" by (rule power_increasing) simp
  with f have b: "(2 ^ 52 + ?f) * 2 ^ (?e - 1) < 2 ^ 53 * (2 :: nat) ^ 2045"
    by (intro mult_less_le_imp_less) simp_all
  have p: "2 ^ 53 * (2 :: nat) ^ 2045 = 2 ^ 2098" by (subst power_add[symmetric]) (rule arg_cong, simp)
  have c: "?f < 2 ^ 2098" by (rule less_le_trans[OF double_fraction power_increasing]) simp_all
  have "\<exists>m. signed_num (bit w 63) m = Num i \<and> m < 2 ^ 2098"
    using assms c b[unfolded p] unfolding double_number_def Let_def by (simp only: if_False split: if_splits) blast+
  then show ?thesis using signed_num_abs by (metis of_nat_less_iff)
qed

end
