(* ===== verification/Value.thy ===== *)
theory Value
  imports Schema Floating
begin

text \<open>
  Values (\<open>src/tuple/value.cpp\<close>, \<open>include/duck/tuple/value.hpp\<close>): the tagged value with its
  null flag, the checked accessors, and the bytes of a value in a tuple.

  A signed integer is carried as its word, a \<open>float\<close> or \<open>double\<close> as its IEEE 754 bit pattern:
  that is what \<open>bit_cast\<close> and \<open>memcpy\<close> move.
\<close>

section \<open>Values\<close>

datatype value_type =
    VT_INT64 | VT_UINT64 | VT_INT32 | VT_UINT32 | VT_DOUBLE | VT_FLOAT | VT_BOOL | VT_STRING | VT_BYTES

datatype value_variant =
    V_uint64 u64 | V_int64 u64 | V_uint32 u32 | V_int32 u32
  | V_double u64 | V_float u32 | V_bool bool | V_string string | V_bytes "byte list"

record val =
  v_type :: value_type
  v_is_null :: bool
  v_data :: value_variant

fun type_id_to_value_type :: "type_id \<Rightarrow> value_type res" where
  "type_id_to_value_type T_BOOL = Inr VT_BOOL"
| "type_id_to_value_type T_DOUBLE = Inr VT_DOUBLE"
| "type_id_to_value_type T_FLOAT = Inr VT_FLOAT"
| "type_id_to_value_type T_INT64 = Inr VT_INT64"
| "type_id_to_value_type T_UINT64 = Inr VT_UINT64"
| "type_id_to_value_type T_INT32 = Inr VT_INT32"
| "type_id_to_value_type T_UINT32 = Inr VT_UINT32"
| "type_id_to_value_type T_CHAR = Inr VT_STRING"
| "type_id_to_value_type T_VARCHAR = Inr VT_STRING"
| "type_id_to_value_type T_VARBINARY = Inr VT_BYTES"
| "type_id_to_value_type (T_Unknown w) = Inl (Runtime_Error ''type_id_to_value_type: invalid type id'')"

definition value_null :: "value_type \<Rightarrow> val" where
  "value_null t = \<lparr>v_type = t, v_is_null = True, v_data = V_uint64 0\<rparr>"

fun variant_type :: "value_variant \<Rightarrow> value_type" where
  \<comment> \<open>the overload of \<open>Value::of\<close> that the alternative selects\<close>
  "variant_type (V_int64 x) = VT_INT64"
| "variant_type (V_uint64 x) = VT_UINT64"
| "variant_type (V_int32 x) = VT_INT32"
| "variant_type (V_uint32 x) = VT_UINT32"
| "variant_type (V_double x) = VT_DOUBLE"
| "variant_type (V_float x) = VT_FLOAT"
| "variant_type (V_bool x) = VT_BOOL"
| "variant_type (V_string x) = VT_STRING"
| "variant_type (V_bytes x) = VT_BYTES"

definition value_of :: "value_variant \<Rightarrow> val" where
  "value_of d = \<lparr>v_type = variant_type d, v_is_null = False, v_data = d\<rparr>"

section \<open>Accessors\<close>

definition get_int64 :: "value_variant \<Rightarrow> u64 res" where
  \<comment> \<open>\<open>std::get\<close>\<close>
  "get_int64 d = (case d of V_int64 x \<Rightarrow> Inr x | _ \<Rightarrow> Inl Bad_Variant_Access)"

definition get_uint64 :: "value_variant \<Rightarrow> u64 res" where
  "get_uint64 d = (case d of V_uint64 x \<Rightarrow> Inr x | _ \<Rightarrow> Inl Bad_Variant_Access)"

definition get_int32 :: "value_variant \<Rightarrow> u32 res" where
  "get_int32 d = (case d of V_int32 x \<Rightarrow> Inr x | _ \<Rightarrow> Inl Bad_Variant_Access)"

definition get_uint32 :: "value_variant \<Rightarrow> u32 res" where
  "get_uint32 d = (case d of V_uint32 x \<Rightarrow> Inr x | _ \<Rightarrow> Inl Bad_Variant_Access)"

definition get_double :: "value_variant \<Rightarrow> u64 res" where
  "get_double d = (case d of V_double x \<Rightarrow> Inr x | _ \<Rightarrow> Inl Bad_Variant_Access)"

definition get_float :: "value_variant \<Rightarrow> u32 res" where
  "get_float d = (case d of V_float x \<Rightarrow> Inr x | _ \<Rightarrow> Inl Bad_Variant_Access)"

definition get_bool :: "value_variant \<Rightarrow> bool res" where
  "get_bool d = (case d of V_bool x \<Rightarrow> Inr x | _ \<Rightarrow> Inl Bad_Variant_Access)"

definition get_string :: "value_variant \<Rightarrow> string res" where
  "get_string d = (case d of V_string x \<Rightarrow> Inr x | _ \<Rightarrow> Inl Bad_Variant_Access)"

definition get_bytes :: "value_variant \<Rightarrow> byte list res" where
  "get_bytes d = (case d of V_bytes x \<Rightarrow> Inr x | _ \<Rightarrow> Inl Bad_Variant_Access)"

lemmas get_defs = get_int64_def get_uint64_def get_int32_def get_uint32_def get_double_def get_float_def
  get_bool_def get_string_def get_bytes_def

definition as_int64 :: "val \<Rightarrow> u64 res" where
  "as_int64 v = (if v_is_null v then Inl (Runtime_Error ''Value::as_int64: tried to read null value'')
                 else get_int64 (v_data v))"

definition as_uint64 :: "val \<Rightarrow> u64 res" where
  "as_uint64 v = (if v_is_null v then Inl (Runtime_Error ''Value::as_uint64: tried to read null value'')
                  else get_uint64 (v_data v))"

definition as_int32 :: "val \<Rightarrow> u32 res" where
  "as_int32 v = (if v_is_null v then Inl (Runtime_Error ''Value::as_int32: tried to read null value'')
                 else get_int32 (v_data v))"

definition as_uint32 :: "val \<Rightarrow> u32 res" where
  "as_uint32 v = (if v_is_null v then Inl (Runtime_Error ''Value::as_uint32: tried to read null value'')
                  else get_uint32 (v_data v))"

definition as_integral :: "val \<Rightarrow> u64 res" where
  \<comment> \<open>an \<open>INT32\<close> is sign-extended, a \<open>UINT32\<close> zero-extended\<close>
  "as_integral v =
     (case v_type v of
        VT_INT32 \<Rightarrow> bind_res (as_int32 v) (\<lambda>x. Inr (scast x))
      | VT_UINT32 \<Rightarrow> bind_res (as_uint32 v) (\<lambda>x. Inr (ucast x))
      | VT_INT64 \<Rightarrow> as_int64 v
      | _ \<Rightarrow> Inl (Runtime_Error ''Value::as_integral: is not a non-uint64 integral''))"

definition as_double :: "val \<Rightarrow> u64 res" where
  "as_double v = (if v_is_null v then Inl (Runtime_Error ''Value::as_double: tried to read null value'')
                  else get_double (v_data v))"

definition as_float :: "val \<Rightarrow> u32 res" where
  "as_float v = (if v_is_null v then Inl (Runtime_Error ''Value::as_float: tried to read null value'')
                 else get_float (v_data v))"

definition as_bool :: "val \<Rightarrow> bool res" where
  "as_bool v = (if v_is_null v then Inl (Runtime_Error ''Value::as_bool: tried to read null value'')
                else get_bool (v_data v))"

definition as_string :: "val \<Rightarrow> string res" where
  "as_string v = (if v_is_null v then Inl (Runtime_Error ''Value::as_string: tried to read null value'')
                  else get_string (v_data v))"

definition as_bytes :: "val \<Rightarrow> byte list res" where
  "as_bytes v = (if v_is_null v then Inl (Runtime_Error ''Value::as_bytes: tried to read null value'')
                 else get_bytes (v_data v))"

lemmas as_defs = as_int64_def as_uint64_def as_int32_def as_uint32_def as_double_def as_float_def
  as_bool_def as_string_def as_bytes_def

definition is_integral :: "val \<Rightarrow> bool" where
  "is_integral v \<longleftrightarrow> v_type v \<in> {VT_INT32, VT_INT64, VT_UINT32, VT_UINT64}"

definition is_floating :: "val \<Rightarrow> bool" where
  "is_floating v \<longleftrightarrow> v_type v \<in> {VT_FLOAT, VT_DOUBLE}"

definition is_numeric :: "val \<Rightarrow> bool" where
  "is_numeric v \<longleftrightarrow> is_integral v \<or> is_floating v"

section \<open>Bytes of a value\<close>

definition value_serialized_size :: "val \<Rightarrow> nat res" where
  "value_serialized_size v =
     (case v_type v of
        VT_INT64 \<Rightarrow> Inr 8 | VT_UINT64 \<Rightarrow> Inr 8 | VT_DOUBLE \<Rightarrow> Inr 8
      | VT_INT32 \<Rightarrow> Inr 4 | VT_UINT32 \<Rightarrow> Inr 4 | VT_FLOAT \<Rightarrow> Inr 4
      | VT_BOOL \<Rightarrow> Inr 1
      | VT_STRING \<Rightarrow> bind_res (get_string (v_data v)) (\<lambda>s. Inr (length s))
      | VT_BYTES \<Rightarrow> bind_res (get_bytes (v_data v)) (\<lambda>b. Inr (length b)))"

definition value_serialize_to :: "val \<Rightarrow> byte list \<Rightarrow> byte list res" where
  "value_serialize_to v out =
     bind_res
       (case v_type v of
          VT_INT64 \<Rightarrow> bind_res (get_int64 (v_data v)) (\<lambda>x. Inr (le_bytes 8 x))
        | VT_UINT64 \<Rightarrow> bind_res (get_uint64 (v_data v)) (\<lambda>x. Inr (le_bytes 8 x))
        | VT_DOUBLE \<Rightarrow> bind_res (get_double (v_data v)) (\<lambda>x. Inr (le_bytes 8 x))
        | VT_INT32 \<Rightarrow> bind_res (get_int32 (v_data v)) (\<lambda>x. Inr (le_bytes 4 x))
        | VT_UINT32 \<Rightarrow> bind_res (get_uint32 (v_data v)) (\<lambda>x. Inr (le_bytes 4 x))
        | VT_FLOAT \<Rightarrow> bind_res (get_float (v_data v)) (\<lambda>x. Inr (le_bytes 4 x))
        | VT_BOOL \<Rightarrow> bind_res (get_bool (v_data v)) (\<lambda>x. Inr [if x then 1 else 0])
        | VT_STRING \<Rightarrow> bind_res (get_string (v_data v)) (\<lambda>s. Inr (string_bytes s))
        | VT_BYTES \<Rightarrow> get_bytes (v_data v))
       (\<lambda>bytes. Inr (out @ bytes))"

section \<open>Comparing and printing\<close>

fun variant_eq :: "value_variant \<Rightarrow> value_variant \<Rightarrow> bool" where
  \<comment> \<open>\<open>==\<close> on variants: the same alternative with equal contents, and \<open>NaN\<close> equals nothing\<close>
  "variant_eq (V_double a) (V_double b) = dbl_eq (double_number a) (double_number b)"
| "variant_eq (V_float a) (V_float b) = dbl_eq (float_number a) (float_number b)"
| "variant_eq a b = (a = b)"

definition value_eq :: "val \<Rightarrow> val \<Rightarrow> bool" where
  "value_eq a b \<longleftrightarrow>
     (if v_is_null a \<noteq> v_is_null b then False
      else if v_is_null a then v_type a = v_type b
      else v_type a = v_type b \<and> variant_eq (v_data a) (v_data b))"

definition decimal_int :: "int \<Rightarrow> string" where
  \<comment> \<open>\<open>std::to_string\<close> of a signed integer\<close>
  "decimal_int i = (if i < 0 then ''-'' @ decimal (nat (- i)) else decimal (nat i))"

definition fixed_6 :: "bool \<Rightarrow> dbl \<Rightarrow> string" where
  \<comment> \<open>\<open>std::to_string\<close> of a floating-point number: six digits after the point, correctly rounded\<close>
  "fixed_6 negative x =
     (if negative then ''-'' else '''') @
     (case x of
        NaN \<Rightarrow> ''nan''
      | Num i \<Rightarrow>
          if \<bar>i\<bar> = 2 ^ 2098 then ''inf''
          else
            let n = nat \<bar>i\<bar> * 10 ^ 6; q = n div 2 ^ 1074; r = n mod 2 ^ 1074;
                k = (if 2 ^ 1074 < 2 * r \<or> 2 * r = 2 ^ 1074 \<and> odd q then Suc q else q);
                digits = decimal (k mod 10 ^ 6)
            in decimal (k div 10 ^ 6) @ ''.'' @ replicate (6 - length digits) (CHR ''0'') @ digits)"

definition value_to_string :: "val \<Rightarrow> string res" where
  "value_to_string v =
     (if v_is_null v then Inr ''null''
      else case v_type v of
        VT_INT64 \<Rightarrow> bind_res (as_int64 v) (\<lambda>x. Inr (decimal_int (sint x)))
      | VT_UINT64 \<Rightarrow> bind_res (as_uint64 v) (\<lambda>x. Inr (decimal (unat x)))
      | VT_INT32 \<Rightarrow> bind_res (as_int32 v) (\<lambda>x. Inr (decimal_int (sint x)))
      | VT_UINT32 \<Rightarrow> bind_res (as_uint32 v) (\<lambda>x. Inr (decimal (unat x)))
      | VT_DOUBLE \<Rightarrow> bind_res (as_double v) (\<lambda>x. Inr (fixed_6 (bit x 63) (double_number x)))
      | VT_FLOAT \<Rightarrow> bind_res (as_float v) (\<lambda>x. Inr (fixed_6 (bit x 31) (float_number x)))
      | VT_BOOL \<Rightarrow> bind_res (as_bool v) (\<lambda>x. Inr (if x then ''true'' else ''false''))
      | VT_STRING \<Rightarrow> as_string v
      | VT_BYTES \<Rightarrow> bind_res (as_bytes v) (\<lambda>x. Inr (''BYTES('' @ decimal (length x) @ '')'')))"

section \<open>Well-formed values\<close>

definition value_wf :: "val \<Rightarrow> bool" where
  \<comment> \<open>what \<open>Value::of\<close> and \<open>Value::null\<close> build\<close>
  "value_wf v \<longleftrightarrow> v_is_null v \<or> variant_type (v_data v) = v_type v"

lemma value_wf_of [simp]: "value_wf (value_of d)" "value_wf (value_null t)"
  by (simp_all add: value_wf_def value_of_def value_null_def)

lemma value_of_sel [simp]:
  "v_type (value_of d) = variant_type d" "\<not> v_is_null (value_of d)" "v_data (value_of d) = d"
  by (simp_all add: value_of_def)

lemma value_null_sel [simp]: "v_type (value_null t) = t" "v_is_null (value_null t)"
  by (simp_all add: value_null_def)

lemma value_wf_cases:
  assumes "value_wf v"
  obtains (Null) "v_is_null v" | (Data) d where "v = value_of d"
  using assms by (cases v) (auto simp: value_wf_def value_of_def)

end
