(* ===== verification/Tuple.thy ===== *)
theory Tuple
  imports Value
begin

text \<open>
  Tuples (\<open>src/tuple/tuple.cpp\<close>, \<open>include/duck/tuple/tuple.hpp\<close>): a row of values with its schema,
  the null bitmap and the byte format of a stored tuple.

  The loops over the columns go through the columns and the values side by side; both constructors
  make the two lists equally long.
\<close>

section \<open>The null bitmap\<close>

definition nb_size :: "nat \<Rightarrow> nat" where
  "nb_size column_count = (column_count + 7) div 8"

definition nb_get_bitset :: "byte list \<Rightarrow> nat \<Rightarrow> byte res" where
  "nb_get_bitset bitmap column =
     (if column div 8 < length bitmap then Inr (bitmap ! (column div 8)) else Inl Undefined_Behaviour)"

definition nb_is_null :: "byte list \<Rightarrow> nat \<Rightarrow> bool res" where
  "nb_is_null bitmap column = bind_res (nb_get_bitset bitmap column) (\<lambda>bits. Inr (bit bits (column mod 8)))"

definition nb_set_null :: "byte list \<Rightarrow> nat \<Rightarrow> byte list res" where
  "nb_set_null bitmap column =
     (if column div 8 < length bitmap
      then Inr (bitmap[column div 8 := bitmap ! (column div 8) OR push_bit (column mod 8) 1])
      else Inl Undefined_Behaviour)"

section \<open>Tuples\<close>

record tuple =
  t_schema :: schema
  t_values :: "val list"

fun tuple_check_types :: "column list \<Rightarrow> val list \<Rightarrow> unit res" where
  "tuple_check_types [] vs = Inr ()"
| "tuple_check_types (c # cs) [] = Inr ()"
| "tuple_check_types (c # cs) (v # vs) =
     bind_res (type_id_to_value_type (col_type c)) (\<lambda>ty.
       if v_type v \<noteq> ty then Inl (Runtime_Error ''Tuple::Tuple: value type is not supported by column type'')
       else tuple_check_types cs vs)"

definition tuple_of :: "val list \<Rightarrow> schema \<Rightarrow> tuple res" where
  \<comment> \<open>the constructor from values\<close>
  "tuple_of vs s =
     (if length vs \<noteq> schema_column_count s
      then Inl (Runtime_Error ''Tuple::Tuple: value vector size doesn't match schema column count'')
      else bind_res (tuple_check_types (columns s) vs) (\<lambda>_. Inr \<lparr>t_schema = s, t_values = vs\<rparr>))"

definition tuple_get :: "tuple \<Rightarrow> nat \<Rightarrow> val res" where
  "tuple_get t i = at_index (t_values t) i"

definition tuple_get_by_name :: "tuple \<Rightarrow> string \<Rightarrow> val res" where
  "tuple_get_by_name t name =
     (case schema_column_index (t_schema t) name of
        None \<Rightarrow> Inl (Runtime_Error ''Tuple::get: no such column'')
      | Some i \<Rightarrow> at_index (t_values t) i)"

definition tuple_to_string :: "tuple \<Rightarrow> string res" where
  "tuple_to_string t =
     bind_res (map_res (\<lambda>i. bind_res (tuple_get t i) value_to_string) [0..<schema_column_count (t_schema t)])
       (\<lambda>texts. Inr (joined texts))"

section \<open>Writing\<close>

fun tuple_set_nulls :: "val list \<Rightarrow> nat \<Rightarrow> byte list \<Rightarrow> byte list res" where
  "tuple_set_nulls [] i out = Inr out"
| "tuple_set_nulls (v # vs) i out =
     bind_res (if v_is_null v then nb_set_null out i else Inr out) (\<lambda>out'. tuple_set_nulls vs (Suc i) out')"

definition tuple_check_text :: "column \<Rightarrow> nat \<Rightarrow> unit res" where
  \<comment> \<open>inside the branch for \<open>CHAR\<close> and \<open>VARCHAR\<close>: the checks for \<open>VARBINARY\<close> are never reached\<close>
  "tuple_check_text c value_size =
     (if col_type c = T_CHAR \<and> unat (col_length c) < value_size
      then Inl (Runtime_Error ''Tuple::serialize: CHAR value exceeds defined size'')
      else if col_type c = T_VARCHAR \<and> 0 < col_length c \<and> unat (col_length c) < value_size
      then Inl (Runtime_Error ''Tuple::serialize: VARCHAR value exceeds defined maximum size'')
      else if col_type c = T_VARCHAR \<and> 0xFFFF < value_size
      then Inl (Runtime_Error ''Tuple::serialize: VARCHAR value exceeds 65535-byte protocol limit'')
      else if col_type c = T_VARBINARY \<and> 0 < col_length c \<and> unat (col_length c) < value_size
      then Inl (Runtime_Error ''Tuple::serialize: VARBINARY value exceeds defined maximum size'')
      else if col_type c = T_VARBINARY \<and> 0xFFFF < value_size
      then Inl (Runtime_Error ''Tuple::serialize: VARBINARY value exceeds 65535-byte protocol limit'')
      else Inr ())"

definition tuple_append :: "column \<Rightarrow> val \<Rightarrow> byte list \<Rightarrow> byte list res" where
  \<comment> \<open>the body of the loop over the columns\<close>
  "tuple_append c v out =
     bind_res
       (if v_is_null v then Inr ()
        else if col_type c = T_CHAR \<or> col_type c = T_VARCHAR
        then bind_res (value_serialized_size v) (tuple_check_text c)
        else Inr ()) (\<lambda>_.
     if column_is_fixed_size c
     then
       bind_res (column_fixed_size c) (\<lambda>fixed.
       bind_res (if v_is_null v then Inr out else value_serialize_to v out) (\<lambda>out'.
       let written = length out' - length out in
       Inr (out' @ replicate (unat fixed - written) 0)))
     else
       bind_res (if v_is_null v then Inr 0 else bind_res (value_serialized_size v) (\<lambda>n. Inr (of_nat n))) (\<lambda>len :: u16.
       let out' = out @ le_bytes 2 len in
       if v_is_null v then Inr out' else value_serialize_to v out'))"

fun tuple_append_all :: "column list \<Rightarrow> val list \<Rightarrow> byte list \<Rightarrow> byte list res" where
  "tuple_append_all [] vs out = Inr out"
| "tuple_append_all (c # cs) [] out = Inl Undefined_Behaviour"
| "tuple_append_all (c # cs) (v # vs) out = bind_res (tuple_append c v out) (\<lambda>out'. tuple_append_all cs vs out')"

definition tuple_serialize :: "tuple \<Rightarrow> byte list res" where
  "tuple_serialize t =
     (let n = schema_column_count (t_schema t); out = replicate (nb_size n) 0 in
        bind_res (tuple_set_nulls (take n (t_values t)) 0 out) (\<lambda>out'.
        tuple_append_all (columns (t_schema t)) (t_values t) out'))"

section \<open>Reading\<close>

definition read_length :: "byte list \<Rightarrow> u16 \<Rightarrow> u16 res" where
  "read_length raw offset = bind_res (subspan raw (unat offset) 2) (\<lambda>bytes. Inr (le_word bytes))"

fun compute_offsets_from :: "byte list \<Rightarrow> column list \<Rightarrow> nat \<Rightarrow> u16 list res" where
  \<comment> \<open>the running offset has the width of \<open>size_t\<close>, the stored ones and the argument of
    \<open>read_length\<close> are cut to 16 bits\<close>
  "compute_offsets_from raw [] offset = Inr []"
| "compute_offsets_from raw (c # cs) offset =
     bind_res (column_fixed_size c) (\<lambda>fixed.
     bind_res
       (if 0 < fixed then Inr (offset + unat fixed)
        else bind_res (read_length raw (of_nat offset)) (\<lambda>n. Inr (offset + (unat n + 2)))) (\<lambda>offset'.
     bind_res (compute_offsets_from raw cs offset') (\<lambda>os. Inr (of_nat offset # os))))"

definition compute_offsets :: "byte list \<Rightarrow> schema \<Rightarrow> u16 list res" where
  "compute_offsets raw s = compute_offsets_from raw (columns s) (nb_size (schema_column_count s))"

definition strip_nul :: "string \<Rightarrow> string" where
  \<comment> \<open>\<open>find_last_not_of\<close> and \<open>resize\<close>\<close>
  "strip_nul s = rev (dropWhile (\<lambda>c. c = CHR 0x00) (rev s))"

definition value_of_bytes :: "type_id \<Rightarrow> byte list \<Rightarrow> val res" where
  \<comment> \<open>the switch of \<open>deserialize_value\<close>\<close>
  "value_of_bytes ty value_bytes =
     (case ty of
        T_INT64 \<Rightarrow> bind_res (subspan value_bytes 0 8) (\<lambda>bs. Inr (value_of (V_int64 (le_word bs))))
      | T_UINT64 \<Rightarrow> bind_res (subspan value_bytes 0 8) (\<lambda>bs. Inr (value_of (V_uint64 (le_word bs))))
      | T_DOUBLE \<Rightarrow> bind_res (subspan value_bytes 0 8) (\<lambda>bs. Inr (value_of (V_double (le_word bs))))
      | T_INT32 \<Rightarrow> bind_res (subspan value_bytes 0 4) (\<lambda>bs. Inr (value_of (V_int32 (le_word bs))))
      | T_UINT32 \<Rightarrow> bind_res (subspan value_bytes 0 4) (\<lambda>bs. Inr (value_of (V_uint32 (le_word bs))))
      | T_FLOAT \<Rightarrow> bind_res (subspan value_bytes 0 4) (\<lambda>bs. Inr (value_of (V_float (le_word bs))))
      | T_BOOL \<Rightarrow> bind_res (subspan value_bytes 0 1) (\<lambda>bs. Inr (value_of (V_bool (hd bs \<noteq> 0))))
      | T_CHAR \<Rightarrow> Inr (value_of (V_string (strip_nul (bytes_string value_bytes))))
      | T_VARCHAR \<Rightarrow> Inr (value_of (V_string (bytes_string value_bytes)))
      | T_VARBINARY \<Rightarrow> Inr (value_of (V_bytes value_bytes))
      | T_Unknown w \<Rightarrow> Inl (Runtime_Error ''Tuple::get: unknown TypeId''))"

definition tuple_deserialize_value :: "byte list \<Rightarrow> u16 list \<Rightarrow> nat \<Rightarrow> column \<Rightarrow> val res" where
  "tuple_deserialize_value raw offsets i c =
     bind_res (nb_is_null raw i) (\<lambda>is_null.
       if is_null then bind_res (type_id_to_value_type (col_type c)) (\<lambda>ty. Inr (value_null ty))
       else
         bind_res (if i < length offsets then Inr (offsets ! i) else Inl Undefined_Behaviour) (\<lambda>offset.
         bind_res (column_fixed_size c) (\<lambda>fixed.
         bind_res
           (if column_is_fixed_size c then Inr (offset, unat fixed)
            else bind_res (read_length raw offset) (\<lambda>n. Inr (offset + 2, unat n))) (\<lambda>(offset, size).
         bind_res (subspan raw (unat offset) size) (\<lambda>value_bytes.
         value_of_bytes (col_type c) value_bytes)))))"

fun tuple_deserialize_from :: "byte list \<Rightarrow> u16 list \<Rightarrow> nat \<Rightarrow> column list \<Rightarrow> val list res" where
  "tuple_deserialize_from raw offsets i [] = Inr []"
| "tuple_deserialize_from raw offsets i (c # cs) =
     bind_res (tuple_deserialize_value raw offsets i c) (\<lambda>v.
     bind_res (tuple_deserialize_from raw offsets (Suc i) cs) (\<lambda>vs. Inr (v # vs)))"

definition tuple_deserialize :: "byte list \<Rightarrow> schema \<Rightarrow> val list res" where
  "tuple_deserialize raw s =
     bind_res (compute_offsets raw s) (\<lambda>offsets. tuple_deserialize_from raw offsets 0 (columns s))"

definition tuple_of_bytes :: "byte list \<Rightarrow> schema \<Rightarrow> tuple res" where
  \<comment> \<open>the constructor from raw bytes\<close>
  "tuple_of_bytes raw s = bind_res (tuple_deserialize raw s) (\<lambda>vs. Inr \<lparr>t_schema = s, t_values = vs\<rparr>)"

end
