(* ===== verification/Tuple_Laws.thy ===== *)
theory Tuple_Laws
  imports Tuple
begin

text \<open>
  What a stored tuple gives back: the null bitmap, the bytes of one field, the offsets, and the
  round trip of a whole tuple.
\<close>

section \<open>The null bitmap\<close>

lemma set_nulls_spec:
  "i + length vs \<le> 8 * length out \<Longrightarrow>
   \<exists>out'. tuple_set_nulls vs i out = Inr out' \<and> length out' = length out \<and>
     (\<forall>j < 8 * length out. bit (out' ! (j div 8)) (j mod 8) \<longleftrightarrow>
        bit (out ! (j div 8)) (j mod 8) \<or> (i \<le> j \<and> j < i + length vs \<and> v_is_null (vs ! (j - i))))"
proof (induction vs arbitrary: i out)
  case Nil
  then show ?case by auto
next
  case (Cons v vs)
  define o1 where "o1 = (if v_is_null v then out[i div 8 := out ! (i div 8) OR push_bit (i mod 8) 1] else out)"
  have i: "i div 8 < length out" using Cons.prems by simp
  have step: "(if v_is_null v then nb_set_null out i else Inr out) = Inr o1"
    using i by (simp add: o1_def nb_set_null_def)
  have len: "length o1 = length out" by (simp add: o1_def)
  have bits: "bit (o1 ! (j div 8)) (j mod 8) \<longleftrightarrow> bit (out ! (j div 8)) (j mod 8) \<or> (j = i \<and> v_is_null v)"
    if "j < 8 * length out" for j
  proof -
    have "j div 8 = i div 8 \<Longrightarrow> i mod 8 = j mod 8 \<Longrightarrow> j = i" by (metis div_mult_mod_eq)
    moreover have "i mod 8 < 8" by simp
    ultimately show ?thesis
      using that i by (auto simp: o1_def nth_list_update bit_or_iff bit_exp_iff)
  qed
  have pre: "Suc i + length vs \<le> 8 * length o1" using Cons.prems len by simp
  from Cons.IH[OF this] obtain out' where a: "tuple_set_nulls vs (Suc i) o1 = Inr out'" "length out' = length out"
    "\<And>j. j < 8 * length out \<Longrightarrow> bit (out' ! (j div 8)) (j mod 8) \<longleftrightarrow>
        bit (o1 ! (j div 8)) (j mod 8) \<or> (Suc i \<le> j \<and> j < Suc i + length vs \<and> v_is_null (vs ! (j - Suc i)))"
    using len by auto
  have "bit (out' ! (j div 8)) (j mod 8) \<longleftrightarrow>
        bit (out ! (j div 8)) (j mod 8) \<or> (i \<le> j \<and> j < i + length (v # vs) \<and> v_is_null ((v # vs) ! (j - i)))"
    if j: "j < 8 * length out" for j
  proof -
    consider "j < i" | "j = i" | "i < j" by linarith
    then show ?thesis using a(3)[OF j] bits[OF j] by cases (auto simp: nth_Cons')
  qed
  then show ?case using step a(1,2) by auto
qed

lemma null_bitmap_read:
  assumes "length vs \<le> 8 * n"
  obtains b where "tuple_set_nulls vs 0 (replicate n 0) = Inr b" "length b = n"
    "\<And>i rest. i < length vs \<Longrightarrow> nb_is_null (b @ rest) i = Inr (v_is_null (vs ! i))"
proof -
  obtain b where b: "tuple_set_nulls vs 0 (replicate n 0) = Inr b" "length b = n"
    "\<forall>j < 8 * n. bit (b ! (j div 8)) (j mod 8) \<longleftrightarrow>
        bit (replicate n (0 :: byte) ! (j div 8)) (j mod 8) \<or> (j < length vs \<and> v_is_null (vs ! j))"
    using set_nulls_spec[of 0 vs "replicate n 0"] assms by auto
  have "nb_is_null (b @ rest) i = Inr (v_is_null (vs ! i))" if "i < length vs" for i rest
  proof -
    have "i div 8 < n" using that assms by simp
    then show ?thesis using that assms b(2,3) by (simp add: nb_is_null_def nb_get_bitset_def nth_append)
  qed
  with that b(1,2) show ?thesis by blast
qed

lemma nb_size_enough: "k \<le> 8 * nb_size k"
  by (simp add: nb_size_def)

section \<open>One field\<close>

definition value_canon :: "val \<Rightarrow> val" where
  \<comment> \<open>a null value carries no data that counts\<close>
  "value_canon v = (if v_is_null v then value_null (v_type v) else v)"

definition field_ok :: "column \<Rightarrow> val \<Rightarrow> bool" where
  \<comment> \<open>the value has the type of its column; a \<open>CHAR\<close> column has a length, and a \<open>CHAR\<close> value
    does not end with the padding byte\<close>
  "field_ok c v \<longleftrightarrow> type_id_to_value_type (col_type c) = Inr (v_type v) \<and>
     (col_type c = T_CHAR \<longrightarrow> 0 < col_length c \<and>
       (\<forall>s. v_data v = V_string s \<longrightarrow> \<not> v_is_null v \<longrightarrow> s = [] \<or> last s \<noteq> CHR 0x00))"

definition field_bytes :: "column \<Rightarrow> val \<Rightarrow> byte list res" where
  "field_bytes c v = tuple_append c v []"

lemma serialize_to_append: "value_serialize_to v out = bind_res (value_serialize_to v []) (\<lambda>e. Inr (out @ e))"
  by (cases "v_type v") (auto simp: value_serialize_to_def bind_res_assoc)

lemma append_field: "tuple_append c v out = bind_res (field_bytes c v) (\<lambda>e. Inr (out @ e))"
proof -
  have "bind_res (value_serialize_to v out) f = bind_res (value_serialize_to v []) (\<lambda>e. f (out @ e))" for f :: "byte list \<Rightarrow> byte list res"
    by (subst serialize_to_append) (simp add: bind_res_assoc)
  moreover have "value_serialize_to v (out @ x) = bind_res (value_serialize_to v x) (\<lambda>e. Inr (out @ e))" for x
    by (subst serialize_to_append, subst (2) serialize_to_append) (simp add: bind_res_assoc)
  ultimately show ?thesis
    by (auto simp: field_bytes_def tuple_append_def bind_res_assoc Let_def intro!: bind_res_cong)
qed

lemma strip_nul_pad: "s = [] \<or> last s \<noteq> CHR 0x00 \<Longrightarrow> strip_nul (s @ replicate k (CHR 0x00)) = s"
proof -
  assume a: "s = [] \<or> last s \<noteq> CHR 0x00"
  have "dropWhile (\<lambda>c. c = CHR 0x00) (rev s) = rev s" using a by (cases s rule: rev_cases) auto
  moreover have "dropWhile (\<lambda>c. c = CHR 0x00) (replicate k (CHR 0x00) @ xs) = dropWhile (\<lambda>c. c = CHR 0x00) xs" for xs
    by (induction k) auto
  ultimately show ?thesis by (simp add: strip_nul_def)
qed

lemma bytes_string_append: "bytes_string (a @ b) = bytes_string a @ bytes_string b"
  by (simp add: bytes_string_def)

lemma bytes_string_zeros: "bytes_string (replicate k 0) = replicate k (CHR 0x00)"
proof -
  have "char_of (0 :: nat) = CHR 0x00" by code_simp
  then show ?thesis by (simp add: bytes_string_def)
qed

lemma value_matches:
  "\<not> v_is_null v \<Longrightarrow> value_serialize_to v [] = Inr e \<Longrightarrow> value_of (v_data v) = v"
  by (cases v) (auto simp: value_serialize_to_def value_of_def get_defs res_simps split: value_type.splits value_variant.splits)

lemmas field_defs = field_bytes_def tuple_append_def column_is_fixed_size_def column_fixed_size_def field_ok_def Let_def

lemma field_fixed:
  assumes "field_bytes c v = Inr e" "field_ok c v" "column_is_fixed_size c"
  shows "\<exists>k. column_fixed_size c = Inr k \<and> 0 < k \<and> length e = unat k \<and>
    (\<not> v_is_null v \<longrightarrow> value_of_bytes (col_type c) e = Inr v)"
proof (cases "v_is_null v")
  case True
  with assms show ?thesis by (auto simp: field_defs word_less_nat_alt)
next
  case False
  then obtain d where ser: "value_serialize_to v [] = Inr d" using assms by (auto simp: field_defs res_simps)
  note v = value_matches[OF False ser]
  show ?thesis
  proof (cases "col_type c = T_CHAR")
    case True
    with assms False obtain s where s: "v_data v = V_string s" "length s \<le> unat (col_length c)"
      "e = string_bytes s @ replicate (unat (col_length c) - length s) 0" "0 < col_length c" "s = [] \<or> last s \<noteq> CHR 0x00"
      by (auto simp: field_defs res_simps value_serialize_to_def value_serialized_size_def tuple_check_text_def get_defs
          split: value_variant.splits if_splits)
    then show ?thesis
      using True v by (simp add: column_fixed_size_def value_of_bytes_def bytes_string_append bytes_string_zeros strip_nul_pad)
  next
    case nc: False
    show ?thesis
      using assms False nc v ser
      by (cases "col_type c")
        (auto simp: field_defs res_simps value_serialize_to_def value_of_bytes_def get_defs subspan_def seg_full
          split: value_variant.splits if_splits)
  qed
qed

lemma length_prefix: "n < 65536 \<Longrightarrow> \<exists>len :: u16. le_bytes 2 (of_nat n :: u16) = le_bytes 2 len \<and> unat len = n"
  by (intro exI[of _ "of_nat n"]) (simp add: unat_of_nat16)

lemma field_var:
  assumes "field_bytes c v = Inr e" "field_ok c v" "\<not> column_is_fixed_size c" "length e < 65536"
  shows "column_fixed_size c = Inr 0 \<and>
    (\<exists>len p. e = le_bytes 2 (len :: u16) @ p \<and> unat len = length p \<and>
      (\<not> v_is_null v \<longrightarrow> value_of_bytes (col_type c) p = Inr v))"
proof (cases "v_is_null v")
  case True
  have "le_bytes 2 (0 :: u16) = le_bytes 2 (0 :: u16) @ [] \<and> unat (0 :: u16) = length []" by simp
  with True assms show ?thesis by (cases "col_type c") (fastforce simp: field_defs)+
next
  case False
  have "(\<exists>d. value_serialize_to v [] = Inr d)"
    proof (cases "value_serialize_to v []")
    case (Inl x)
    then have "value_serialize_to v out = Inl x" for out by (subst serialize_to_append) simp
    with assms(1,3) False show ?thesis by (auto simp: field_bytes_def tuple_append_def res_simps Let_def)
  qed simp
  then obtain d where ser: "value_serialize_to v [] = Inr d" by blast
  note v = value_matches[OF False ser]
  show ?thesis
    using assms False v ser
    by (cases "col_type c")
      (auto simp: field_defs res_simps value_serialize_to_def value_serialized_size_def value_of_bytes_def get_defs
          length_prefix split: value_variant.splits if_splits)
qed

section \<open>All fields\<close>

lemma append_all_bytes:
  "tuple_append_all cs vs out = Inr bs \<Longrightarrow> length vs = length cs \<Longrightarrow>
   \<exists>es. length es = length cs \<and> bs = out @ concat es \<and> (\<forall>i < length cs. field_bytes (cs ! i) (vs ! i) = Inr (es ! i))"
proof (induction cs vs out rule: tuple_append_all.induct)
  case (3 c cs v vs out)
  from 3(2) obtain e where e: "field_bytes c v = Inr e" "tuple_append_all cs vs (out @ e) = Inr bs"
    by (auto simp: append_field[of c v out] res_simps)
  have "tuple_append c v out = Inr (out @ e)" using e(1) append_field[of c v out] by simp
  from 3(1)[OF this e(2)] 3(3) obtain es where es: "length es = length cs" "bs = (out @ e) @ concat es"
    "\<forall>i < length cs. field_bytes (cs ! i) (vs ! i) = Inr (es ! i)" by auto
  then show ?case using e(1) by (intro exI[of _ "e # es"]) (auto simp: nth_Cons split: nat.splits)
qed auto

definition field_offset :: "nat \<Rightarrow> byte list list \<Rightarrow> nat \<Rightarrow> nat" where
  "field_offset n es i = n + length (concat (take i es))"

lemma field_step:
  assumes "field_bytes c v = Inr e" "field_ok c v" "raw = pre @ e @ post" "length raw < 65536"
  shows "\<exists>fixed. column_fixed_size c = Inr fixed \<and>
    (if 0 < fixed then Inr (length pre + unat fixed)
     else bind_res (read_length raw (of_nat (length pre))) (\<lambda>n. Inr (length pre + (unat n + 2)))) =
      Inr (length (pre @ e))"
proof (cases "column_is_fixed_size c")
  case True
  from field_fixed[OF assms(1,2) this] obtain k where "column_fixed_size c = Inr k" "0 < k" "length e = unat k" by blast
  then show ?thesis by simp
next
  case False
  have "length e < 65536" using assms(3,4) by simp
  from field_var[OF assms(1,2) False this] obtain len p where a: "column_fixed_size c = Inr 0"
    "e = le_bytes 2 (len :: u16) @ p" "unat len = length p" by blast
  have "unat (of_nat (length pre) :: u16) = length pre" using assms(3,4) by (intro unat_of_nat16) simp
  then have "read_length raw (of_nat (length pre)) = Inr len"
    unfolding assms(3) a(2) read_length_def subspan_def seg_def by simp
  then show ?thesis unfolding a(1,2) by (simp add: a(3))
qed

lemma compute_offsets_spec:
  assumes "length vs = length cs" "length es = length cs" "\<forall>i < length cs. field_bytes (cs ! i) (vs ! i) = Inr (es ! i)"
    "\<forall>i < length cs. field_ok (cs ! i) (vs ! i)" "raw = pre @ concat es" "length raw < 65536"
  shows "compute_offsets_from raw cs (length pre) = Inr (map (\<lambda>i. of_nat (field_offset (length pre) es i)) [0..<length cs])"
  using assms
proof (induction cs arbitrary: vs es pre)
  case (Cons c cs)
  from Cons.prems(1,2) obtain v vs' e es' where l: "vs = v # vs'" "es = e # es'"
    by (metis length_Suc_conv)
  have f: "field_bytes c v = Inr e" "field_ok c v" using Cons.prems(3,4) l by auto
  from field_step[OF f, of raw pre "concat es'"] Cons.prems(5,6) l obtain fixed where
    st: "column_fixed_size c = Inr fixed"
      "(if 0 < fixed then Inr (length pre + unat fixed)
        else bind_res (read_length raw (of_nat (length pre))) (\<lambda>n. Inr (length pre + (unat n + 2)))) = Inr (length (pre @ e))"
    by auto
  have tl: "\<forall>i < length cs. field_bytes (cs ! i) (vs' ! i) = Inr (es' ! i)" "\<forall>i < length cs. field_ok (cs ! i) (vs' ! i)"
    using Cons.prems(3,4)[rule_format, of "Suc i" for i] l by simp_all
  have IH: "compute_offsets_from raw cs (length (pre @ e)) =
      Inr (map (\<lambda>i. of_nat (field_offset (length (pre @ e)) es' i)) [0..<length cs])"
    by (rule Cons.IH[OF _ _ tl]) (use Cons.prems(1,2,5,6) l in simp_all)
  have up: "[0..<length (c # cs)] = 0 # map Suc [0..<length cs]" using upt_conv_Cons[of 0 "length (c # cs)"] map_Suc_upt[of 0 "length cs"] by simp
  show ?case
    unfolding compute_offsets_from.simps st(1) bind_res.simps st(2) IH up
    by (simp add: field_offset_def l(2) comp_def add.assoc)
qed simp

lemma split_at:
  "i < length es \<Longrightarrow> pre @ concat es = (pre @ concat (take i es)) @ es ! i @ concat (drop (Suc i) es)"
  by (metis append.assoc concat.simps(2) concat_append id_take_nth_drop)

lemma deserialize_value_spec:
  assumes "length vs = length cs" "length es = length cs" "\<forall>i < length cs. field_bytes (cs ! i) (vs ! i) = Inr (es ! i)"
    "\<forall>i < length cs. field_ok (cs ! i) (vs ! i)" "raw = pre @ concat es" "length raw < 65536"
    "\<And>i. i < length vs \<Longrightarrow> nb_is_null raw i = Inr (v_is_null (vs ! i))" "i < length cs"
  defines "offsets \<equiv> map (\<lambda>i. of_nat (field_offset (length pre) es i)) [0..<length cs]"
  shows "tuple_deserialize_value raw offsets i (cs ! i) = Inr (value_canon (vs ! i))"
proof -
  let ?c = "cs ! i" and ?v = "vs ! i" and ?e = "es ! i" and ?pre = "pre @ concat (take i es)"
  have f: "field_bytes ?c ?v = Inr ?e" "field_ok ?c ?v" using assms(3,4,8) by auto
  have nb: "nb_is_null raw i = Inr (v_is_null ?v)" using assms(1,7,8) by simp
  have ty: "type_id_to_value_type (col_type ?c) = Inr (v_type ?v)" using f(2) by (simp add: field_ok_def)
  have raw: "raw = ?pre @ ?e @ concat (drop (Suc i) es)" using split_at[of i es pre] assms(2,5,8) by simp
  have off: "offsets ! i = of_nat (length ?pre)" "i < length offsets"
    using assms(8) by (simp_all add: offsets_def field_offset_def)
  have le: "length ?pre + length ?e \<le> length raw" by (subst raw) simp
  have un: "unat (of_nat (length ?pre) :: u16) = length ?pre" using le assms(6) by (intro unat_of_nat16) simp
  show ?thesis
  proof (cases "v_is_null ?v")
    case True
    then show ?thesis using nb ty by (simp add: tuple_deserialize_value_def value_canon_def)
  next
    case nn: False
    show ?thesis
    proof (cases "column_is_fixed_size ?c")
      case True
      from field_fixed[OF f True] nn obtain k where k: "column_fixed_size ?c = Inr k" "length ?e = unat k"
        "value_of_bytes (col_type ?c) ?e = Inr ?v" by auto
      have "subspan raw (length ?pre) (length ?e) = Inr ?e"
        using le by (subst raw) (simp add: subspan_def seg_def)
      then show ?thesis
        using nb nn off k un True by (simp add: tuple_deserialize_value_def value_canon_def)
    next
      case False
      have "length ?e < 65536" using le assms(6) by simp
      from field_var[OF f False this] nn obtain len p where k: "column_fixed_size ?c = Inr 0"
        "?e = le_bytes 2 (len :: u16) @ p" "unat len = length p" "value_of_bytes (col_type ?c) p = Inr ?v" by auto
      have rl: "read_length raw (of_nat (length ?pre)) = Inr len"
        using un by (subst raw) (simp add: read_length_def subspan_def seg_def k(2))
      have "unat (of_nat (length ?pre) + 2 :: u16) = length ?pre + 2"
      proof -
        have "of_nat (length ?pre) + 2 = (of_nat (length ?pre + 2) :: u16)" by simp
        then show ?thesis using le k(2) assms(6) by (simp only:) (rule unat_of_nat16, simp)
      qed
      moreover have "subspan raw (length ?pre + 2) (length p) = Inr p"
        using le k(2) by (subst raw) (simp add: subspan_def seg_def)
      ultimately show ?thesis
        using nb nn off k rl False by (simp add: tuple_deserialize_value_def value_canon_def)
    qed
  qed
qed

section \<open>Properties\<close>

lemma check_types_all:
  "tuple_check_types cs vs = Inr () \<Longrightarrow> length vs = length cs \<Longrightarrow>
    \<forall>i < length cs. type_id_to_value_type (col_type (cs ! i)) = Inr (v_type (vs ! i))"
proof (induction cs vs rule: tuple_check_types.induct)
  case (3 c cs v vs)
  then have "type_id_to_value_type (col_type c) = Inr (v_type v)"
    "\<forall>i < length cs. type_id_to_value_type (col_type (cs ! i)) = Inr (v_type (vs ! i))"
    by (auto simp: res_simps split: if_splits)
  then show ?case by (auto simp: less_Suc_eq_0_disj)
qed auto

lemma deserialize_from_spec:
  "(\<And>k. k < length cs \<Longrightarrow> tuple_deserialize_value raw offsets (i + k) (cs ! k) = Inr (ws ! k)) \<Longrightarrow> length ws = length cs \<Longrightarrow>
    tuple_deserialize_from raw offsets i cs = Inr ws"
proof (induction cs arbitrary: i ws)
  case (Cons c cs)
  then obtain w ws' where w: "ws = w # ws'" by (cases ws) auto
  have "tuple_deserialize_from raw offsets (Suc i) cs = Inr ws'"
    by (rule Cons.IH) (use Cons.prems(1)[of "Suc k" for k] Cons.prems(2) w in auto)
  then show ?case using Cons.prems(1)[of 0] w by simp
qed simp

definition char_ok :: "column \<Rightarrow> val \<Rightarrow> bool" where
  \<comment> \<open>a \<open>CHAR\<close> column has a length, and a \<open>CHAR\<close> value does not end with the padding byte\<close>
  "char_ok c v \<longleftrightarrow> (col_type c = T_CHAR \<longrightarrow> 0 < col_length c \<and>
     (\<forall>s. v_data v = V_string s \<longrightarrow> \<not> v_is_null v \<longrightarrow> s = [] \<or> last s \<noteq> CHR 0x00))"

lemma tuple_of_fields:
  assumes "tuple_of vs s = Inr t" "\<forall>i < length (columns s). char_ok (columns s ! i) (vs ! i)"
  shows "t = \<lparr>t_schema = s, t_values = vs\<rparr>" "length vs = length (columns s)"
    "\<forall>i < length (columns s). field_ok (columns s ! i) (vs ! i)"
proof -
  show l: "t = \<lparr>t_schema = s, t_values = vs\<rparr>" "length vs = length (columns s)"
    using assms(1) by (auto simp: tuple_of_def schema_column_count_def res_simps split: if_splits)
  have "tuple_check_types (columns s) vs = Inr ()"
    using assms(1) by (auto simp: tuple_of_def res_simps split: if_splits)
  from check_types_all[OF this l(2)] assms(2)
  show "\<forall>i < length (columns s). field_ok (columns s ! i) (vs ! i)"
    by (simp add: field_ok_def char_ok_def)
qed

lemma tuple_read_back:
  assumes "tuple_of vs s = Inr t" "tuple_serialize t = Inr raw" "length raw < 65536"
    "\<forall>i < length (columns s). char_ok (columns s ! i) (vs ! i)"
  shows "tuple_of_bytes raw s = Inr \<lparr>t_schema = s, t_values = map value_canon vs\<rparr>"
proof -
  note t = tuple_of_fields[OF assms(1,4)]
  let ?cs = "columns s" and ?n = "nb_size (length (columns s))"
  obtain b where b: "tuple_set_nulls vs 0 (replicate ?n 0) = Inr b" "length b = ?n"
    "\<And>i rest. i < length vs \<Longrightarrow> nb_is_null (b @ rest) i = Inr (v_is_null (vs ! i))"
    by (rule null_bitmap_read[of vs ?n]) (use nb_size_enough[of "length ?cs"] t(2) in auto)
  have "tuple_append_all ?cs vs b = Inr raw"
    using assms(2) b(1) t(1,2) by (simp add: tuple_serialize_def schema_column_count_def Let_def)
  from append_all_bytes[OF this t(2)] obtain es where es: "length es = length ?cs" "raw = b @ concat es"
    "\<forall>i < length ?cs. field_bytes (?cs ! i) (vs ! i) = Inr (es ! i)" by blast
  have nb: "\<And>i. i < length vs \<Longrightarrow> nb_is_null raw i = Inr (v_is_null (vs ! i))" using b(3) es(2) by simp
  note hyps = t(2) es(1,3) t(3) es(2) assms(3)
  let ?offsets = "map (\<lambda>i. of_nat (field_offset (length b) es i)) [0..<length ?cs]"
  have "compute_offsets raw s = Inr ?offsets"
    using compute_offsets_spec[OF hyps] b(2) by (simp add: compute_offsets_def schema_column_count_def)
  moreover have "tuple_deserialize_from raw ?offsets 0 ?cs = Inr (map value_canon vs)"
    by (rule deserialize_from_spec) (use deserialize_value_spec[OF hyps nb] t(2) in auto)
  ultimately show ?thesis by (simp add: tuple_of_bytes_def tuple_deserialize_def)
qed

lemma serialize_nonempty:
  assumes "tuple_serialize t = Inr raw" "length (t_values t) = length (columns (t_schema t))" "columns (t_schema t) \<noteq> []"
  shows "raw \<noteq> []"
proof -
  let ?n = "nb_size (length (columns (t_schema t)))"
  obtain b where b: "tuple_set_nulls (t_values t) 0 (replicate ?n 0) = Inr b" "length b = ?n"
    by (rule null_bitmap_read[of "t_values t" ?n]) (use nb_size_enough[of "length (columns (t_schema t))"] assms(2) in auto)
  have "tuple_append_all (columns (t_schema t)) (t_values t) b = Inr raw"
    using assms(1,2) b(1) by (simp add: tuple_serialize_def schema_column_count_def Let_def)
  from append_all_bytes[OF this assms(2)] obtain es where es: "raw = b @ concat es" by blast
  have "0 < length (columns (t_schema t))" using assms(3) by simp
  then have "0 < ?n" using nb_size_enough[of "length (columns (t_schema t))"] by (cases ?n) auto
  then show ?thesis using es b(2) by auto
qed

text \<open>
  C19: stored tuples. A tuple accepted by the constructor and written without an exception in fewer
  than 65536 bytes is read back with the same values (a null as a null of the same type), provided
  no \<open>CHAR\<close> column has length zero and no \<open>CHAR\<close> value ends with a zero byte.
\<close>

theorem tuple_round_trip:
  assumes "tuple_of vs s = Inr t" "tuple_serialize t = Inr raw" "length raw < 65536"
    "\<forall>i < length (columns s). char_ok (columns s ! i) (vs ! i)"
  shows "tuple_of_bytes raw s = Inr \<lparr>t_schema = s, t_values = map value_canon vs\<rparr>"
  by (rule tuple_read_back[OF assms])

definition sample_values :: "val list" where
  "sample_values =
     [value_of (V_int64 7), value_of (V_string ''duck''), value_null VT_STRING, value_of (V_bool True)]"

lemma le_bytes_2_8:
  "le_bytes 2 w = [ucast w, ucast (drop_bit 8 w)]"
  "le_bytes 8 w = [ucast w, ucast (drop_bit 8 w), ucast (drop_bit 16 w), ucast (drop_bit 24 w), ucast (drop_bit 32 w),
     ucast (drop_bit 40 w), ucast (drop_bit 48 w), ucast (drop_bit 56 w)]"
  by (simp_all add: numeral_eq_Suc)

lemma sample_id: "field_bytes \<lparr>col_name = x, col_type = T_INT64, col_length = 0\<rparr> (value_of (V_int64 7)) = Inr [7,0,0,0,0,0,0,0]"
  by (simp add: field_defs value_of_def value_serialize_to_def get_defs le_bytes_2_8)

lemma sample_name: "field_bytes \<lparr>col_name = x, col_type = T_VARCHAR, col_length = 32\<rparr> (value_of (V_string ''duck'')) = Inr ([4,0] @ string_bytes ''duck'')"
  by (simp add: field_defs value_of_def value_serialize_to_def value_serialized_size_def tuple_check_text_def get_defs le_bytes_2_8)

lemma sample_code: "field_bytes \<lparr>col_name = x, col_type = T_CHAR, col_length = 4\<rparr> (value_null VT_STRING) = Inr [0,0,0,0]"
  by (simp add: field_defs value_null_def) (simp add: numeral_eq_Suc)

lemma sample_ok: "field_bytes \<lparr>col_name = x, col_type = T_BOOL, col_length = 0\<rparr> (value_of (V_bool True)) = Inr [1]"
  by (simp add: field_defs value_of_def value_serialize_to_def get_defs le_bytes_2_8)

lemma sample_bytes:
  "tuple_serialize \<lparr>t_schema = sample_schema, t_values = sample_values\<rparr> =
     Inr ([4, 7, 0, 0, 0, 0, 0, 0, 0, 4, 0] @ string_bytes ''duck'' @ [0, 0, 0, 0, 1])"
  by (simp add: tuple_serialize_def sample_schema_def sample_values_def schema_column_count_def nb_size_def
    append_field sample_id sample_name sample_code sample_ok Let_def nb_set_null_def)

theorem tuple_round_trip_witness:
  "tuple_of_bytes ([4, 7, 0, 0, 0, 0, 0, 0, 0, 4, 0] @ string_bytes ''duck'' @ [0, 0, 0, 0, 1]) sample_schema =
     Inr \<lparr>t_schema = sample_schema, t_values = sample_values\<rparr>"
proof -
  have a: "tuple_of sample_values sample_schema = Inr \<lparr>t_schema = sample_schema, t_values = sample_values\<rparr>"
    by (simp add: tuple_of_def sample_schema_def sample_values_def schema_column_count_def value_of_def value_null_def)
  have b: "\<forall>i < length (columns sample_schema). char_ok (columns sample_schema ! i) (sample_values ! i)"
    by (auto simp: char_ok_def sample_schema_def sample_values_def value_null_def less_Suc_eq_0_disj)
  have c: "map value_canon sample_values = sample_values"
    by (simp add: sample_values_def value_canon_def value_of_def value_null_def)
  have "length ([4, 7, 0, 0, 0, 0, 0, 0, 0, 4, 0] @ string_bytes ''duck'' @ [0, 0, 0, 0, 1 :: byte]) < 65536" by simp
  from tuple_round_trip[OF a sample_bytes this b] show ?thesis by (simp only: c)
qed

section \<open>When writing fails\<close>

definition text_length :: "val \<Rightarrow> nat" where
  "text_length v = (case v_data v of V_string s \<Rightarrow> length s | _ \<Rightarrow> 0)"

definition text_fits :: "column \<Rightarrow> val \<Rightarrow> bool" where
  "text_fits c v \<longleftrightarrow> v_is_null v \<or>
     (col_type c = T_CHAR \<longrightarrow> text_length v \<le> unat (col_length c)) \<and>
     (col_type c = T_VARCHAR \<longrightarrow> text_length v \<le> 65535 \<and> (col_length c = 0 \<or> text_length v \<le> unat (col_length c)))"

lemma field_fits:
  assumes "type_id_to_value_type (col_type c) = Inr (v_type v)" "value_wf v"
  shows "text_fits c v \<Longrightarrow> \<exists>e. field_bytes c v = Inr e"
    "\<not> text_fits c v \<Longrightarrow> \<exists>m. field_bytes c v = Inl (Runtime_Error m)"
proof -
  have "(text_fits c v \<longrightarrow> (\<exists>e. field_bytes c v = Inr e)) \<and>
      (\<not> text_fits c v \<longrightarrow> (\<exists>m. field_bytes c v = Inl (Runtime_Error m)))"
  proof (cases "v_is_null v")
    case True
    then show ?thesis using assms(1)
      by (cases "col_type c") (auto simp: field_defs text_fits_def)
  next
    case False
    then show ?thesis using assms
      by (cases "col_type c"; cases "v_data v")
        (auto simp: field_defs text_fits_def text_length_def value_wf_def value_serialize_to_def value_serialized_size_def
          tuple_check_text_def get_defs word_gt_0)
  qed
  then show "text_fits c v \<Longrightarrow> \<exists>e. field_bytes c v = Inr e"
    "\<not> text_fits c v \<Longrightarrow> \<exists>m. field_bytes c v = Inl (Runtime_Error m)" by blast+
qed

lemma append_all_fits:
  assumes "\<forall>i < length cs. type_id_to_value_type (col_type (cs ! i)) = Inr (v_type (vs ! i))"
    "\<forall>v\<in>set vs. value_wf v" "length vs = length cs"
  shows "(\<forall>i < length cs. text_fits (cs ! i) (vs ! i)) \<Longrightarrow> \<exists>bs. tuple_append_all cs vs out = Inr bs"
    "\<not> (\<forall>i < length cs. text_fits (cs ! i) (vs ! i)) \<Longrightarrow> \<exists>m. tuple_append_all cs vs out = Inl (Runtime_Error m)"
proof -
  have "((\<forall>i < length cs. text_fits (cs ! i) (vs ! i)) \<longrightarrow> (\<exists>bs. tuple_append_all cs vs out = Inr bs)) \<and>
    (\<not> (\<forall>i < length cs. text_fits (cs ! i) (vs ! i)) \<longrightarrow> (\<exists>m. tuple_append_all cs vs out = Inl (Runtime_Error m)))"
    using assms
  proof (induction cs vs out rule: tuple_append_all.induct)
    case (3 c cs v vs out)
    have ty: "type_id_to_value_type (col_type c) = Inr (v_type v)"
      "\<forall>i < length cs. type_id_to_value_type (col_type (cs ! i)) = Inr (v_type (vs ! i))"
      using 3(2)[rule_format, of 0] 3(2)[rule_format, of "Suc i" for i] by simp_all
    have wf: "value_wf v" "\<forall>v\<in>set vs. value_wf v" using 3(3) by simp_all
    have sp: "(\<forall>i < length (c # cs). text_fits ((c # cs) ! i) ((v # vs) ! i)) \<longleftrightarrow>
        text_fits c v \<and> (\<forall>i < length cs. text_fits (cs ! i) (vs ! i))"
      by (auto simp: less_Suc_eq_0_disj)
    show ?case
    proof (cases "text_fits c v")
      case True
      from field_fits(1)[OF ty(1) wf(1) True] obtain e where e: "tuple_append c v out = Inr (out @ e)"
        by (auto simp: append_field[of c v out])
      from 3(1)[OF e ty(2) wf(2)] 3(4) True show ?thesis unfolding sp by (simp add: e)
    next
      case False
      from field_fits(2)[OF ty(1) wf(1) False] show ?thesis unfolding sp using False
        by (auto simp: append_field[of c v out])
    qed
  qed auto
  then show "(\<forall>i < length cs. text_fits (cs ! i) (vs ! i)) \<Longrightarrow> \<exists>bs. tuple_append_all cs vs out = Inr bs"
    "\<not> (\<forall>i < length cs. text_fits (cs ! i) (vs ! i)) \<Longrightarrow> \<exists>m. tuple_append_all cs vs out = Inl (Runtime_Error m)"
    by blast+
qed

text \<open>
  C33: which tuples can be written. Writing a tuple accepted by the constructor succeeds exactly
  when every non-null text fits its column (\<open>CHAR(n)\<close>: at most \<open>n\<close> bytes; \<open>VARCHAR(n)\<close>: at most
  65535 and, unless \<open>n\<close> is 0, at most \<open>n\<close>), and throws otherwise.
\<close>

theorem tuple_serialize_iff:
  assumes "tuple_of vs s = Inr t" "\<forall>v\<in>set vs. value_wf v"
  shows "((\<exists>raw. tuple_serialize t = Inr raw) \<longleftrightarrow> (\<forall>i < length (columns s). text_fits (columns s ! i) (vs ! i))) \<and>
    ((\<exists>m. tuple_serialize t = Inl (Runtime_Error m)) \<longleftrightarrow> (\<exists>i < length (columns s). \<not> text_fits (columns s ! i) (vs ! i)))"
proof -
  have t: "t = \<lparr>t_schema = s, t_values = vs\<rparr>" "length vs = length (columns s)" "tuple_check_types (columns s) vs = Inr ()"
    using assms(1) by (auto simp: tuple_of_def schema_column_count_def res_simps split: if_splits)
  let ?n = "nb_size (length (columns s))"
  obtain b where b: "tuple_set_nulls vs 0 (replicate ?n 0) = Inr b"
    by (rule null_bitmap_read[of vs ?n]) (use nb_size_enough[of "length (columns s)"] t(2) in auto)
  have ser: "tuple_serialize t = tuple_append_all (columns s) vs b"
    using b t(1,2) by (simp add: tuple_serialize_def schema_column_count_def Let_def)
  note f = append_all_fits[OF check_types_all[OF t(3,2)] assms(2) t(2), of b]
  show ?thesis using f unfolding ser by fastforce
qed

theorem tuple_serialize_iff_witness:
  "\<exists>m. tuple_serialize \<lparr>t_schema = \<lparr>columns = [\<lparr>col_name = ''c'', col_type = T_CHAR, col_length = 2\<rparr>]\<rparr>,
     t_values = [value_of (V_string ''abc'')]\<rparr> = Inl (Runtime_Error m)"
proof -
  let ?s = "\<lparr>columns = [\<lparr>col_name = ''c'', col_type = T_CHAR, col_length = 2\<rparr>]\<rparr>"
  have a: "tuple_of [value_of (V_string ''abc'')] ?s = Inr \<lparr>t_schema = ?s, t_values = [value_of (V_string ''abc'')]\<rparr>"
    by (simp add: tuple_of_def schema_column_count_def value_of_def)
  have b: "\<forall>v\<in>set [value_of (V_string ''abc'')]. value_wf v" by (simp add: value_wf_def value_of_def)
  show ?thesis
    using tuple_serialize_iff[OF a b] by (auto simp: text_fits_def text_length_def value_of_def)
qed

section \<open>Where the format departs from its intention\<close>

lemma varbinary_unchecked:
  \<comment> \<open>the limits for \<open>VARBINARY\<close> stand inside the branch for texts\<close>
  "field_bytes \<lparr>col_name = n, col_type = T_VARBINARY, col_length = 4\<rparr> (value_of (V_bytes [1, 2, 3, 4, 5])) =
     Inr [5, 0, 1, 2, 3, 4, 5]"
  "length bs = 65536 \<Longrightarrow>
     field_bytes \<lparr>col_name = n, col_type = T_VARBINARY, col_length = 4\<rparr> (value_of (V_bytes bs)) = Inr ([0, 0] @ bs)"
  by (simp_all add: field_defs value_of_def value_serialize_to_def value_serialized_size_def get_defs le_bytes_2_8)

lemma char_zero_misread:
  \<comment> \<open>\<open>compute_offsets\<close> takes \<open>CHAR(0)\<close> for a variable-length column, \<open>serialize\<close> does not\<close>
  defines "s \<equiv> \<lparr>columns = [\<lparr>col_name = ''c'', col_type = T_CHAR, col_length = 0\<rparr>,
    \<lparr>col_name = ''b'', col_type = T_BOOL, col_length = 0\<rparr>, \<lparr>col_name = ''d'', col_type = T_BOOL, col_length = 0\<rparr>]\<rparr>"
  shows "tuple_serialize \<lparr>t_schema = s, t_values = [value_of (V_string ''''), value_of (V_bool True), value_of (V_bool True)]\<rparr> =
      Inr [0, 1, 1]"
    "tuple_of_bytes [0, 1, 1] s = Inl Undefined_Behaviour"
  by (simp_all add: s_def tuple_serialize_def schema_column_count_def nb_size_def tuple_append_def column_is_fixed_size_def
      column_fixed_size_def value_of_def value_serialize_to_def value_serialized_size_def tuple_check_text_def get_defs
      string_bytes_def Let_def tuple_of_bytes_def tuple_deserialize_def compute_offsets_def read_length_def subspan_def
      seg_def tuple_deserialize_value_def nb_is_null_def nb_get_bitset_def value_of_bytes_def)

end
