(* ===== verification/Expression.thy ===== *)
theory Expression
  imports Value "HOL-Library.List_Lexorder"
begin

text \<open>
  Expressions over a row (\<open>src/execution/expression\<close>): columns, constants, comparisons with SQL
  nulls, and three-valued logic.

  The expression classes are the constructors of \<open>expr\<close>; a \<open>Record\<close> is its list of values. Texts
  and byte strings are ordered lexicographically, by bytes without sign.
\<close>

record row =
  r_values :: "val list"

definition row_get :: "row \<Rightarrow> nat \<Rightarrow> val res" where
  "row_get r i = at_index (r_values r) i"

section \<open>Comparison\<close>

datatype comparison_op = Op_GREATER | Op_LESS | Op_GREATER_EQ | Op_LESS_EQ | Op_EQUAL | Op_NOT_EQ

datatype compare_result = Cmp_LESS | Cmp_EQ | Cmp_GREATER | Cmp_UNKNOWN

definition compare_generic :: "'a::ord \<Rightarrow> 'a \<Rightarrow> compare_result" where
  "compare_generic left right =
     (if left < right then Cmp_LESS else if right < left then Cmp_GREATER else Cmp_EQ)"

definition floating_number :: "val \<Rightarrow> dbl res" where
  \<comment> \<open>a \<open>FLOAT\<close> or \<open>DOUBLE\<close> as a \<open>double\<close>\<close>
  "floating_number v =
     (if v_type v = VT_FLOAT then bind_res (as_float v) (\<lambda>x. Inr (float_number x))
      else bind_res (as_double v) (\<lambda>x. Inr (double_number x)))"

definition integral_number :: "val \<Rightarrow> dbl res" where
  \<comment> \<open>the two alternatives of \<open>?:\<close> have the common type \<open>uint64_t\<close>, from which the \<open>double\<close> is made\<close>
  "integral_number v =
     bind_res (if v_type v = VT_UINT64 then as_uint64 v else as_integral v) (\<lambda>x. Inr (uint64_number x))"

definition compare_doubles :: "dbl \<Rightarrow> dbl \<Rightarrow> compare_result" where
  "compare_doubles l_val r_val =
     (if l_val = NaN \<or> r_val = NaN then Cmp_UNKNOWN else compare_generic l_val r_val)"

definition INT64_MAX :: u64 where
  "INT64_MAX = 0x7FFFFFFFFFFFFFFF"

definition compare_integral :: "val \<Rightarrow> val \<Rightarrow> compare_result res" where
  "compare_integral left right =
     (if v_type left = VT_UINT64 \<and> v_type right = VT_UINT64
      then bind_res (as_uint64 left) (\<lambda>l_val. bind_res (as_uint64 right) (\<lambda>r_val. Inr (compare_generic l_val r_val)))
      else if v_type left = VT_UINT64
      then bind_res (as_uint64 left) (\<lambda>l.
        if INT64_MAX < l then Inr Cmp_GREATER
        else bind_res (as_integral right) (\<lambda>r. Inr (compare_generic (sint l) (sint r))))
      else if v_type right = VT_UINT64
      then bind_res (as_uint64 right) (\<lambda>r.
        if INT64_MAX < r then Inr Cmp_LESS
        else bind_res (as_integral left) (\<lambda>l. Inr (compare_generic (sint l) (sint r))))
      else bind_res (as_integral left) (\<lambda>l. bind_res (as_integral right) (\<lambda>r. Inr (compare_generic (sint l) (sint r)))))"

definition compare :: "val \<Rightarrow> val \<Rightarrow> compare_result res" where
  "compare left right =
     (if v_is_null left \<or> v_is_null right then Inr Cmp_UNKNOWN
      else if is_floating left \<and> is_floating right
      then bind_res (floating_number left) (\<lambda>l. bind_res (floating_number right) (\<lambda>r. Inr (compare_doubles l r)))
      else if is_floating left \<and> is_numeric right
      then bind_res (floating_number left) (\<lambda>l. bind_res (integral_number right) (\<lambda>r. Inr (compare_doubles l r)))
      else if is_numeric left \<and> is_floating right
      then bind_res (integral_number left) (\<lambda>l. bind_res (floating_number right) (\<lambda>r. Inr (compare_doubles l r)))
      else if is_integral left \<and> is_integral right then compare_integral left right
      else if v_type left = VT_BOOL \<and> v_type right = VT_BOOL
      then bind_res (as_bool left) (\<lambda>l. bind_res (as_bool right) (\<lambda>r. Inr (compare_generic l r)))
      else if v_type left = VT_STRING \<and> v_type right = VT_STRING
      then bind_res (as_string left) (\<lambda>l. bind_res (as_string right) (\<lambda>r. Inr (compare_generic l r)))
      else if v_type left = VT_BYTES \<and> v_type right = VT_BYTES
      then bind_res (as_bytes left) (\<lambda>l. bind_res (as_bytes right) (\<lambda>r. Inr (compare_generic l r)))
      else Inr Cmp_UNKNOWN)"

fun apply_comparison :: "comparison_op \<Rightarrow> compare_result \<Rightarrow> val" where
  "apply_comparison op Cmp_UNKNOWN = value_null VT_BOOL"
| "apply_comparison Op_EQUAL cmp = value_of (V_bool (cmp = Cmp_EQ))"
| "apply_comparison Op_NOT_EQ cmp = value_of (V_bool (cmp \<noteq> Cmp_EQ))"
| "apply_comparison Op_GREATER cmp = value_of (V_bool (cmp = Cmp_GREATER))"
| "apply_comparison Op_LESS cmp = value_of (V_bool (cmp = Cmp_LESS))"
| "apply_comparison Op_GREATER_EQ cmp = value_of (V_bool (cmp = Cmp_GREATER \<or> cmp = Cmp_EQ))"
| "apply_comparison Op_LESS_EQ cmp = value_of (V_bool (cmp = Cmp_LESS \<or> cmp = Cmp_EQ))"

section \<open>Logic\<close>

datatype binary_op = Op_AND | Op_OR

datatype unary_op = Op_NOT

definition known_as :: "bool \<Rightarrow> val \<Rightarrow> bool res" where
  \<comment> \<open>\<open>!v.is_null() && v.as_bool() == b\<close>\<close>
  "known_as b v = (if v_is_null v then Inr False else bind_res (as_bool v) (\<lambda>x. Inr (x = b)))"

definition decided_by :: "bool \<Rightarrow> val \<Rightarrow> val \<Rightarrow> val res" where
  \<comment> \<open>the case of one operator: \<open>b\<close> is the operand that decides it\<close>
  "decided_by b left right =
     bind_res (known_as b left) (\<lambda>l.
       if l then Inr (value_of (V_bool b))
       else bind_res (known_as b right) (\<lambda>r.
         if r then Inr (value_of (V_bool b))
         else if v_is_null left \<or> v_is_null right then Inr (value_null VT_BOOL)
         else Inr (value_of (V_bool (\<not> b)))))"

definition eval_binary :: "binary_op \<Rightarrow> val \<Rightarrow> val \<Rightarrow> val res" where
  "eval_binary op left right =
     (if v_is_null left \<and> v_is_null right then Inr (value_null VT_BOOL)
      else if v_type left \<noteq> VT_BOOL \<or> v_type right \<noteq> VT_BOOL
      then Inl (Runtime_Error ''BinaryExpression expects boolean operands'')
      else case op of Op_AND \<Rightarrow> decided_by False left right | Op_OR \<Rightarrow> decided_by True left right)"

definition eval_unary :: "unary_op \<Rightarrow> val \<Rightarrow> val res" where
  "eval_unary op v =
     (if v_is_null v then Inr (value_null VT_BOOL)
      else if v_type v \<noteq> VT_BOOL then Inl (Runtime_Error ''UnaryExpression expects boolean operand'')
      else case op of Op_NOT \<Rightarrow> bind_res (as_bool v) (\<lambda>b. Inr (value_of (V_bool (\<not> b)))))"

section \<open>Expressions\<close>

datatype expr =
    Column_Expression nat
  | Constant_Expression val
  | Comparison_Expression expr comparison_op expr
  | Binary_Expression expr binary_op expr
  | Unary_Expression expr unary_op

fun evaluate :: "expr \<Rightarrow> row \<Rightarrow> val res" where
  "evaluate (Column_Expression i) r = row_get r i"
| "evaluate (Constant_Expression v) r = Inr v"
| "evaluate (Comparison_Expression e1 op e2) r =
     bind_res (evaluate e1 r) (\<lambda>left. bind_res (evaluate e2 r) (\<lambda>right.
     bind_res (compare left right) (\<lambda>cmp. Inr (apply_comparison op cmp))))"
| "evaluate (Binary_Expression e1 op e2) r =
     bind_res (evaluate e1 r) (\<lambda>left. bind_res (evaluate e2 r) (\<lambda>right. eval_binary op left right))"
| "evaluate (Unary_Expression e op) r = bind_res (evaluate e r) (eval_unary op)"

end
