(* ===== verification/Expression_Spec.thy ===== *)
theory Expression_Spec
  imports Expression
begin

text \<open>
  Properties of the expressions: comparisons of integers agree with the order of the numbers
  whatever their widths and signs, comparison is antisymmetric and total on well-formed values,
  the connectives are Kleene's three-valued ones, and an expression whose operands have the types
  it asks for evaluates to a value of its type.
\<close>

section \<open>Comparing integers\<close>

definition integer_value :: "val \<Rightarrow> int" where
  "integer_value v =
     (case v_data v of
        V_int64 x \<Rightarrow> sint x | V_uint64 x \<Rightarrow> uint x | V_int32 x \<Rightarrow> sint x | V_uint32 x \<Rightarrow> uint x | _ \<Rightarrow> 0)"

lemma sint_scast_32_64: "sint (scast (x :: u32) :: u64) = sint x"
  by (simp add: sint_up_scast is_up.rep_eq)

lemma sint_uint_below: "uint (x :: u64) < 2 ^ 63 \<Longrightarrow> sint x = uint x"
proof -
  assume a: "uint x < 2 ^ 63"
  have "- (2 ^ 63) \<le> uint x" by (rule order_trans[OF _ uint_ge_0]) simp
  with a have "signed_take_bit 63 (uint x) = uint x" by (intro signed_take_bit_int_eq_self) simp_all
  then show ?thesis by (simp add: sint_uint)
qed

lemma uint_ucast_32_64: "uint (ucast (x :: u32) :: u64) = uint x"
  by (simp add: unsigned_ucast_eq take_bit_int_eq_self_iff order_less_trans[OF unsigned_less])

lemma sint_ucast_32_64: "sint (ucast (x :: u32) :: u64) = uint x"
proof -
  have "uint x < 2 ^ 32" using unsigned_less[of x, where 'a = int] by simp
  then have "uint (ucast x :: u64) < 2 ^ 63" unfolding uint_ucast_32_64 by (rule less_trans) simp
  then show ?thesis by (simp add: sint_uint_below uint_ucast_32_64)
qed

lemma not_above_INT64_MAX: "\<not> INT64_MAX < x \<Longrightarrow> sint (x :: u64) = uint x"
  by (rule sint_uint_below) (simp add: INT64_MAX_def word_less_def)

lemma sint_less_INT64_MAX: "INT64_MAX < x \<Longrightarrow> sint (y :: u64) < uint (x :: u64)"
proof -
  assume "INT64_MAX < x"
  then have "2 ^ 63 \<le> uint x" by (simp add: INT64_MAX_def word_less_def)
  moreover have "sint y < 2 ^ 63" using sint_lt[of y] by simp
  ultimately show ?thesis by linarith
qed

lemma as_integral_value:
  assumes "value_wf v" "\<not> v_is_null v" "is_integral v" "v_type v \<noteq> VT_UINT64"
  shows "\<exists>x. as_integral v = Inr x \<and> sint x = integer_value v"
  using assms
  by (cases v rule: value_wf_cases)
    (auto simp: as_integral_def as_defs get_defs integer_value_def is_integral_def sint_scast_32_64 sint_ucast_32_64
      split: value_variant.splits elim!: variant_type.elims)

lemma as_uint64_value:
  assumes "value_wf v" "\<not> v_is_null v" "v_type v = VT_UINT64"
  shows "\<exists>x. as_uint64 v = Inr x \<and> uint x = integer_value v"
  using assms
  by (cases v rule: value_wf_cases)
    (auto simp: as_defs get_defs integer_value_def elim!: variant_type.elims)

lemma compare_generic_uint: "compare_generic l r = compare_generic (uint l) (uint r)"
  by (simp add: compare_generic_def word_less_def)

lemma compare_integral_exact:
  assumes "value_wf a" "value_wf b" "\<not> v_is_null a" "\<not> v_is_null b" "is_integral a" "is_integral b"
  shows "compare_integral a b = Inr (compare_generic (integer_value a) (integer_value b))"
proof -
  note a = as_integral_value[OF assms(1,3,5)] as_uint64_value[OF assms(1,3)]
  note b = as_integral_value[OF assms(2,4,6)] as_uint64_value[OF assms(2,4)]
  consider "v_type a = VT_UINT64" "v_type b = VT_UINT64" | "v_type a = VT_UINT64" "v_type b \<noteq> VT_UINT64"
    | "v_type a \<noteq> VT_UINT64" "v_type b = VT_UINT64" | "v_type a \<noteq> VT_UINT64" "v_type b \<noteq> VT_UINT64" by blast
  then show ?thesis
  proof cases
    case 1
    with a(2) b(2) show ?thesis by (auto simp: compare_integral_def compare_generic_uint)
  next
    case 2
    with a(2) b(1) obtain x y where x: "as_uint64 a = Inr x" "uint x = integer_value a" "as_integral b = Inr y"
      "sint y = integer_value b" by blast
    then show ?thesis
      using 2 sint_less_INT64_MAX[of x y] not_above_INT64_MAX[of x]
      by (cases "INT64_MAX < x") (simp_all add: compare_integral_def compare_generic_def)
  next
    case 3
    with a(1) b(2) obtain x y where x: "as_integral a = Inr x" "sint x = integer_value a" "as_uint64 b = Inr y"
      "uint y = integer_value b" by blast
    then show ?thesis
      using 3 sint_less_INT64_MAX[of y x] not_above_INT64_MAX[of y]
      by (cases "INT64_MAX < y") (simp_all add: compare_integral_def compare_generic_def)
  next
    case 4
    with a(1) b(1) show ?thesis by (auto simp: compare_integral_def)
  qed
qed

lemma integral_not_floating: "is_integral v \<Longrightarrow> \<not> is_floating v"
  by (auto simp: is_integral_def is_floating_def)

lemma compare_exact:
  assumes "value_wf a" "value_wf b" "\<not> v_is_null a" "\<not> v_is_null b" "is_integral a" "is_integral b"
  shows "compare a b = Inr (compare_generic (integer_value a) (integer_value b))"
  using assms compare_integral_exact[OF assms] integral_not_floating[OF assms(5)] integral_not_floating[OF assms(6)]
  by (simp add: compare_def)

text \<open>
  C29: comparing integers. Two integers of any of the four types compare as the numbers they stand
  for: a negative one is below every unsigned one, and no wrap-around is visible.
\<close>

theorem compare_integers:
  assumes "value_wf a" "value_wf b" "\<not> v_is_null a" "\<not> v_is_null b" "is_integral a" "is_integral b"
  shows "compare a b = Inr (if integer_value a < integer_value b then Cmp_LESS
    else if integer_value a = integer_value b then Cmp_EQ else Cmp_GREATER)"
  using compare_exact[OF assms] by (simp add: compare_generic_def)

theorem compare_integers_witness:
  "compare (value_of (V_int32 (- 1))) (value_of (V_uint64 (2 ^ 63))) = Inr Cmp_LESS"
  by (subst compare_integers) (simp_all add: is_integral_def integer_value_def)

section \<open>Integers against floating-point numbers\<close>

lemma round_53_large: "2 ^ 63 \<le> n \<Longrightarrow> n < 2 ^ 64 \<Longrightarrow> 2 ^ 63 \<le> round_53 n"
proof -
  assume a: "2 ^ 63 \<le> n" "n < (2 :: nat) ^ 64"
  have "bit_width n = 64" using bit_width_le_iff[of n 64] bit_width_le_iff[of n 63] a by linarith
  then have d: "bit_width n - 53 = 11" by simp
  have "2 ^ 63 div 2 ^ 11 \<le> n div 2 ^ 11" by (rule div_le_mono) (rule a)
  then have "2 ^ 52 \<le> n div 2 ^ 11" by simp
  then show ?thesis unfolding round_53_def Let_def d by simp
qed

lemma unat_less_iff: "unat (w :: u64) < n \<longleftrightarrow> uint w < int n"
  by (simp only: uint_nat of_nat_less_iff)

lemma floating_number_of:
  assumes "value_wf v" "\<not> v_is_null v" "is_floating v"
  shows "\<exists>x. floating_number v = Inr x"
  using assms
  by (cases v rule: value_wf_cases)
    (auto simp: floating_number_def as_defs get_defs is_floating_def elim!: variant_type.elims)

lemma integral_number_of:
  assumes "value_wf v" "\<not> v_is_null v" "is_integral v"
  shows "\<exists>w. integral_number v = Inr (uint64_number w) \<and> (uint w = integer_value v mod 2 ^ 64)"
proof -
  have "sint w mod 2 ^ 64 = uint w" for w :: u64 using uint_sint[of w] by (simp add: take_bit_eq_mod)
  moreover have "uint w mod 2 ^ 64 = uint w" for w :: u64 using unsigned_less[of w, where 'a = int] by simp
  ultimately have m: "sint w mod 2 ^ 64 = uint w" "uint w mod 2 ^ 64 = uint w" for w :: u64 by blast+
  show ?thesis
  proof (cases "v_type v = VT_UINT64")
    case True
    from as_uint64_value[OF assms(1,2) True] obtain x where "as_uint64 v = Inr x" "uint x = integer_value v" by blast
    then show ?thesis using True m(2)[of x] by (intro exI[of _ x]) (simp add: integral_number_def)
  next
    case False
    from as_integral_value[OF assms False] obtain x where "as_integral v = Inr x" "sint x = integer_value v" by blast
    then show ?thesis using False m(1)[of x] by (intro exI[of _ x]) (simp add: integral_number_def)
  qed
qed

text \<open>
  C37: comparing integers with floating-point numbers. A number from 0 up to \<open>2 ^ 53\<close> compares exactly with any
  floating-point number that is not a NaN; a negative integer is taken for a number of at least \<open>2 ^ 63\<close>, so that it is
  found greater than every finite number below that.
\<close>

theorem compare_integer_floating:
  assumes "value_wf a" "value_wf b" "\<not> v_is_null a" "\<not> v_is_null b" "is_integral a" "is_floating b"
    "floating_number b = Inr (Num y)" "- (2 ^ 63) \<le> integer_value a" "integer_value a < 2 ^ 53"
  shows "if 0 \<le> integer_value a then compare a b = Inr (compare_generic (integer_value a * 2 ^ 1074) y)
    else y < 2 ^ 63 * 2 ^ 1074 \<longrightarrow> compare a b = Inr Cmp_GREATER"
proof -
  obtain w where w: "integral_number a = Inr (uint64_number w)" "uint w = integer_value a mod 2 ^ 64"
    using integral_number_of[OF assms(1,3,5)] by blast
  have run: "compare a b = Inr (compare_generic (int (round_53 (unat w)) * 2 ^ 1074) y)"
    using assms(3-7) w(1) integral_not_floating[OF assms(5)]
    by (simp add: compare_def is_numeric_def compare_doubles_def uint64_number_def compare_generic_def)
  show ?thesis
  proof (cases "0 \<le> integer_value a")
    case True
    have "integer_value a < 2 ^ 64" using assms(9) by simp
    then have u: "uint w = integer_value a" using w(2) True by simp
    then have "uint w < 2 ^ 53" using assms(9) by simp
    then have "unat w < 2 ^ 53" by (simp add: unat_less_iff)
    then have "int (round_53 (unat w)) = integer_value a" using round_53_exact u by simp
    then show ?thesis using True run by (simp only: if_True)
  next
    case False
    have "integer_value a mod 2 ^ 64 = (integer_value a + 2 ^ 64) mod 2 ^ 64" by (rule mod_add_self2[symmetric])
    also have "\<dots> = integer_value a + 2 ^ 64"
      by (rule mod_pos_pos_trivial) (use False assms(8) in simp_all)
    finally have "uint w = integer_value a + 2 ^ 64" unfolding w(2) .
    then have "2 ^ 63 \<le> uint w" "uint w < 2 ^ 64" using assms(8) False by simp_all
    then have "2 ^ 63 \<le> unat w" "unat w < 2 ^ 64" by (simp_all add: unat_less_iff flip: not_less)
    then have r: "2 ^ 63 \<le> round_53 (unat w)" by (rule round_53_large)
    have "compare a b = Inr Cmp_GREATER" if y: "y < 2 ^ 63 * 2 ^ 1074"
    proof -
      have "(2 ^ 63 :: int) * 2 ^ 1074 \<le> int (round_53 (unat w)) * 2 ^ 1074"
        using r by (intro mult_right_mono) simp_all
      with y have "y < int (round_53 (unat w)) * 2 ^ 1074" by linarith
      then show ?thesis unfolding run by (simp add: compare_generic_def)
    qed
    with False show ?thesis by (simp only: if_False) blast
  qed
qed

theorem compare_integer_floating_witness:
  "compare (value_of (V_int64 (- 1))) (value_of (V_double 0)) = Inr Cmp_GREATER"
proof -
  have "floating_number (value_of (V_double 0)) = Inr (Num 0)"
    by (simp add: floating_number_def as_defs get_defs double_number_def signed_num_def)
  from compare_integer_floating[of "value_of (V_int64 (- 1))", OF _ _ _ _ _ _ this] show ?thesis
    by (simp add: is_integral_def is_floating_def integer_value_def)
qed

section \<open>Comparing any two values\<close>

fun flip_cmp :: "compare_result \<Rightarrow> compare_result" where
  "flip_cmp Cmp_LESS = Cmp_GREATER"
| "flip_cmp Cmp_GREATER = Cmp_LESS"
| "flip_cmp c = c"

lemma compare_generic_flip: "compare_generic b a = flip_cmp (compare_generic a (b :: 'a::linorder))"
  by (auto simp: compare_generic_def)

lemma compare_doubles_flip: "compare_doubles b a = flip_cmp (compare_doubles a b)"
  by (cases a; cases b) (auto simp: compare_doubles_def compare_generic_def)

lemma as_bool_of: "value_wf v \<Longrightarrow> \<not> v_is_null v \<Longrightarrow> v_type v = VT_BOOL \<Longrightarrow> \<exists>b. as_bool v = Inr b \<and> v = value_of (V_bool b)"
  by (cases v rule: value_wf_cases) (auto simp: as_defs get_defs elim!: variant_type.elims)

lemma as_string_of: "value_wf v \<Longrightarrow> \<not> v_is_null v \<Longrightarrow> v_type v = VT_STRING \<Longrightarrow> \<exists>b. as_string v = Inr b"
  by (cases v rule: value_wf_cases) (auto simp: as_defs get_defs elim!: variant_type.elims)

lemma as_bytes_of: "value_wf v \<Longrightarrow> \<not> v_is_null v \<Longrightarrow> v_type v = VT_BYTES \<Longrightarrow> \<exists>b. as_bytes v = Inr b"
  by (cases v rule: value_wf_cases) (auto simp: as_defs get_defs elim!: variant_type.elims)

lemma compare_total:
  assumes "value_wf a" "value_wf b"
  shows "\<exists>c. compare a b = Inr c \<and> compare b a = Inr (flip_cmp c)"
proof (cases "v_is_null a \<or> v_is_null b")
  case True
  then show ?thesis by (auto simp: compare_def)
next
  case False
  then have n: "\<not> v_is_null a" "\<not> v_is_null b" by simp_all
  note fa = floating_number_of[OF assms(1) n(1)] and fb = floating_number_of[OF assms(2) n(2)]
  note ia = integral_number_of[OF assms(1) n(1)] and ib = integral_number_of[OF assms(2) n(2)]
  consider "is_floating a" "is_floating b" | "is_floating a" "is_integral b" | "is_integral a" "is_floating b"
    | "is_integral a" "is_integral b" | "\<not> is_numeric a \<or> \<not> is_numeric b" by (auto simp: is_numeric_def)
  then show ?thesis
  proof cases
    case 1
    with fa fb obtain x y where "floating_number a = Inr x" "floating_number b = Inr y" by blast
    with 1 n show ?thesis by (simp add: compare_def compare_doubles_flip[of y x])
  next
    case 2
    with fa ib obtain x y where "floating_number a = Inr x" "integral_number b = Inr y" by blast
    with 2 n integral_not_floating[OF 2(2)] show ?thesis by (simp add: compare_def is_numeric_def compare_doubles_flip[of y x])
  next
    case 3
    with ia fb obtain x y where "integral_number a = Inr x" "floating_number b = Inr y" by blast
    with 3 n integral_not_floating[OF 3(1)] show ?thesis by (simp add: compare_def is_numeric_def compare_doubles_flip[of y x])
  next
    case 4
    with compare_exact[OF assms n] compare_exact[OF assms(2,1) n(2,1)] show ?thesis by (auto simp: compare_generic_def)
  next
    case num: 5
    note s = as_bool_of[OF assms(1) n(1)] as_bool_of[OF assms(2) n(2)] as_string_of[OF assms(1) n(1)]
      as_string_of[OF assms(2) n(2)] as_bytes_of[OF assms(1) n(1)] as_bytes_of[OF assms(2) n(2)]
    consider "v_type a = VT_BOOL" "v_type b = VT_BOOL" | "v_type a = VT_STRING" "v_type b = VT_STRING"
      | "v_type a = VT_BYTES" "v_type b = VT_BYTES"
      | "\<not> (v_type a = v_type b \<and> v_type a \<in> {VT_BOOL, VT_STRING, VT_BYTES})"
      by (cases "v_type a = v_type b"; cases "v_type a") auto
    then show ?thesis
    proof cases
      case 1
      with s(1)[OF 1(1)] s(2)[OF 1(2)] obtain x y where "as_bool a = Inr x" "as_bool b = Inr y" by auto
      then have "compare a b = Inr (compare_generic x y)" "compare b a = Inr (compare_generic y x)"
        using 1 n by (simp_all add: compare_def is_numeric_def is_floating_def is_integral_def)
      then show ?thesis using compare_generic_flip[of y x] by simp
    next
      case 2
      with s(3)[OF 2(1)] s(4)[OF 2(2)] obtain x y where "as_string a = Inr x" "as_string b = Inr y" by auto
      then have "compare a b = Inr (compare_generic x y)" "compare b a = Inr (compare_generic y x)"
        using 2 n by (simp_all add: compare_def is_numeric_def is_floating_def is_integral_def)
      then show ?thesis using compare_generic_flip[of y x] by simp
    next
      case 3
      with s(5)[OF 3(1)] s(6)[OF 3(2)] obtain x y where "as_bytes a = Inr x" "as_bytes b = Inr y" by auto
      then have "compare a b = Inr (compare_generic x y)" "compare b a = Inr (compare_generic y x)"
        using 3 n by (simp_all add: compare_def is_numeric_def is_floating_def is_integral_def)
      then show ?thesis using compare_generic_flip[of y x] by simp
    next
      case 4
      have "\<not> is_numeric a \<Longrightarrow> ?thesis" using 4 n by (auto simp: compare_def is_numeric_def)
      moreover have "\<not> is_numeric b \<Longrightarrow> ?thesis" using 4 n by (auto simp: compare_def is_numeric_def)
      ultimately show ?thesis using num by blast
    qed
  qed
qed

text \<open>
  Comparison is total and antisymmetric. Comparing two well-formed values never throws, and
  comparing them the other way round gives the opposite result; \<open>UNKNOWN\<close> stays unknown.
\<close>

theorem compare_flip:
  assumes "value_wf a" "value_wf b"
  shows "\<exists>c. compare a b = Inr c \<and> compare b a = Inr (flip_cmp c)"
  by (rule compare_total[OF assms])

theorem compare_flip_witness:
  "compare (value_of (V_string ''b'')) (value_of (V_string ''a'')) = Inr Cmp_GREATER"
proof -
  have "compare (value_of (V_string ''a'')) (value_of (V_string ''b'')) = Inr Cmp_LESS"
    by (simp add: compare_def as_defs get_defs is_floating_def is_integral_def compare_generic_def less_char_def)
  with compare_flip[of "value_of (V_string ''a'')" "value_of (V_string ''b'')"] show ?thesis by auto
qed

section \<open>Three-valued logic\<close>

definition truth :: "val \<Rightarrow> bool option" where
  \<comment> \<open>a null is unknown\<close>
  "truth v = (if v_is_null v then None else case v_data v of V_bool b \<Rightarrow> Some b | _ \<Rightarrow> None)"

definition bool_val :: "val \<Rightarrow> bool" where
  "bool_val v \<longleftrightarrow> value_wf v \<and> v_type v = VT_BOOL"

fun kleene_and :: "bool option \<Rightarrow> bool option \<Rightarrow> bool option" where
  "kleene_and (Some False) b = Some False"
| "kleene_and a (Some False) = Some False"
| "kleene_and (Some True) (Some True) = Some True"
| "kleene_and a b = None"

definition kleene_or :: "bool option \<Rightarrow> bool option \<Rightarrow> bool option" where
  "kleene_or a b = map_option Not (kleene_and (map_option Not a) (map_option Not b))"

definition of_truth :: "bool option \<Rightarrow> val" where
  "of_truth t = (case t of None \<Rightarrow> value_null VT_BOOL | Some b \<Rightarrow> value_of (V_bool b))"

lemma of_truth_bool [simp]: "bool_val (of_truth t)" "truth (of_truth t) = t"
  by (auto simp: of_truth_def bool_val_def truth_def split: option.splits)

lemma bool_val_cases:
  assumes "bool_val v"
  obtains (Unknown) "v_is_null v" "v_type v = VT_BOOL" "truth v = None" | (Known) b where "v = value_of (V_bool b)" "truth v = Some b"
  using assms as_bool_of[of v] by (auto simp: bool_val_def truth_def)

lemma binary_kleene:
  assumes "bool_val a" "bool_val b"
  shows "eval_binary Op_AND a b = Inr (of_truth (kleene_and (truth a) (truth b)))"
    "eval_binary Op_OR a b = Inr (of_truth (kleene_or (truth a) (truth b)))"
  by (rule bool_val_cases[OF assms(1)]; rule bool_val_cases[OF assms(2)];
      auto simp: eval_binary_def decided_by_def known_as_def as_defs get_defs of_truth_def kleene_or_def bool_val_def)+

lemma unary_kleene: "bool_val a \<Longrightarrow> eval_unary Op_NOT a = Inr (of_truth (map_option Not (truth a)))"
  by (erule bool_val_cases) (auto simp: eval_unary_def as_defs get_defs of_truth_def)

text \<open>
  C30: the connectives. On boolean operands \<open>AND\<close>, \<open>OR\<close> and \<open>NOT\<close> are Kleene's: a known operand that decides the
  result decides it whatever the other is, a null makes it unknown otherwise.
\<close>

theorem connectives_kleene:
  assumes "evaluate e1 r = Inr a" "evaluate e2 r = Inr b" "bool_val a" "bool_val b"
  shows "evaluate (Binary_Expression e1 Op_AND e2) r = Inr (of_truth (kleene_and (truth a) (truth b))) \<and>
    evaluate (Binary_Expression e1 Op_OR e2) r = Inr (of_truth (kleene_or (truth a) (truth b))) \<and>
    evaluate (Unary_Expression e1 Op_NOT) r = Inr (of_truth (map_option Not (truth a)))"
  using assms(1,2) binary_kleene[OF assms(3,4)] unary_kleene[OF assms(3)] by simp

theorem connectives_kleene_witness:
  "evaluate (Binary_Expression (Constant_Expression (value_null VT_BOOL)) Op_OR (Constant_Expression (value_of (V_bool True)))) \<lparr>r_values = []\<rparr> =
     Inr (value_of (V_bool True))"
  using connectives_kleene[of "Constant_Expression (value_null VT_BOOL)" "\<lparr>r_values = []\<rparr>" "value_null VT_BOOL"
      "Constant_Expression (value_of (V_bool True))" "value_of (V_bool True)"]
  by (simp add: bool_val_def truth_def kleene_or_def of_truth_def)

section \<open>Types of expressions\<close>

inductive expr_type :: "value_type list \<Rightarrow> expr \<Rightarrow> value_type \<Rightarrow> bool" for ts where
  Column: "i < length ts \<Longrightarrow> expr_type ts (Column_Expression i) (ts ! i)"
| Constant: "value_wf v \<Longrightarrow> expr_type ts (Constant_Expression v) (v_type v)"
| Comparison: "expr_type ts e1 t1 \<Longrightarrow> expr_type ts e2 t2 \<Longrightarrow> expr_type ts (Comparison_Expression e1 op e2) VT_BOOL"
| Binary: "expr_type ts e1 VT_BOOL \<Longrightarrow> expr_type ts e2 VT_BOOL \<Longrightarrow> expr_type ts (Binary_Expression e1 op e2) VT_BOOL"
| Unary: "expr_type ts e VT_BOOL \<Longrightarrow> expr_type ts (Unary_Expression e op) VT_BOOL"

inductive_cases expr_type_binary: "expr_type ts (Binary_Expression e1 op e2) t"
inductive_simps expr_type_simps:
  "expr_type ts (Column_Expression i) t"
  "expr_type ts (Constant_Expression v) t"
  "expr_type ts (Comparison_Expression e1 cop e2) t"
  "expr_type ts (Binary_Expression e1 bop e2) t"
  "expr_type ts (Unary_Expression e uop) t"

definition row_ok :: "value_type list \<Rightarrow> row \<Rightarrow> bool" where
  "row_ok ts r \<longleftrightarrow> list_all2 (\<lambda>t v. v_type v = t \<and> value_wf v) ts (r_values r)"

lemma apply_comparison_bool: "bool_val (apply_comparison op c)"
  by (cases c; cases op) (simp_all add: bool_val_def)

lemma binary_bool: "bool_val a \<Longrightarrow> bool_val b \<Longrightarrow> \<exists>v. eval_binary op a b = Inr v \<and> bool_val v"
  by (cases op) (simp_all add: binary_kleene)

lemma unary_bool: "bool_val a \<Longrightarrow> \<exists>v. eval_unary op a = Inr v \<and> bool_val v"
  by (cases op) (simp add: unary_kleene)

lemma evaluate_typed:
  assumes "expr_type ts e t" "row_ok ts r"
  shows "\<exists>v. evaluate e r = Inr v \<and> v_type v = t \<and> value_wf v"
  using assms(1)
proof induction
  case (Column i)
  have "length ts = length (r_values r)" using assms(2) by (simp add: row_ok_def list_all2_lengthD)
  moreover have "v_type (r_values r ! i) = ts ! i \<and> value_wf (r_values r ! i)"
    using assms(2) Column by (simp add: row_ok_def list_all2_conv_all_nth)
  ultimately show ?case using Column by (simp add: row_get_def)
next
  case (Comparison e1 t1 e2 t2 op)
  then obtain a b where "evaluate e1 r = Inr a" "value_wf a" "evaluate e2 r = Inr b" "value_wf b" by blast
  then show ?case using compare_total[of a b] apply_comparison_bool by (fastforce simp: bool_val_def)
next
  case (Binary e1 e2 op)
  then obtain a b where "evaluate e1 r = Inr a" "bool_val a" "evaluate e2 r = Inr b" "bool_val b"
    by (auto simp: bool_val_def)
  then show ?case using binary_bool[of a b op] by (auto simp: bool_val_def)
next
  case (Unary e op)
  then obtain a where "evaluate e r = Inr a" "bool_val a" by (auto simp: bool_val_def)
  then show ?case using unary_bool[of a op] by (auto simp: bool_val_def)
qed simp

text \<open>
  C31: types. An expression that is well typed for the columns of a row evaluates, without an
  exception, to a well-formed value of its type; the assertion of the filter on a condition of type
  \<open>BOOL\<close> cannot fail.
\<close>

theorem expression_types:
  assumes "expr_type ts e t" "row_ok ts r"
  shows "\<exists>v. evaluate e r = Inr v \<and> v_type v = t \<and> value_wf v"
  by (rule evaluate_typed[OF assms])

theorem expression_types_witness:
  "\<exists>v. evaluate (Binary_Expression (Comparison_Expression (Column_Expression 0) Op_LESS (Constant_Expression (value_null VT_INT64)))
      Op_AND (Column_Expression 1)) \<lparr>r_values = [value_of (V_int32 3), value_of (V_bool True)]\<rparr> = Inr v \<and> v_type v = VT_BOOL"
proof -
  have "expr_type [VT_INT32, VT_BOOL]
      (Binary_Expression (Comparison_Expression (Column_Expression 0) Op_LESS (Constant_Expression (value_null VT_INT64)))
        Op_AND (Column_Expression 1)) VT_BOOL"
    by (auto simp: expr_type_simps)
  moreover have "row_ok [VT_INT32, VT_BOOL] \<lparr>r_values = [value_of (V_int32 3), value_of (V_bool True)]\<rparr>"
    by (simp add: row_ok_def)
  ultimately show ?thesis using expression_types by blast
qed

end
