(* ===== verification/Lock_Manager.thy ===== *)
theory Lock_Manager
  imports Prelude
begin

text \<open>
  Transactions and the lock manager (\<open>src/transaction/lock_manager.cpp\<close>,
  \<open>include/duck/transaction/transaction.hpp\<close>): record locks, shared and exclusive, granted from a
  queue per record identifier, with a timeout of one second that aborts the waiter.

  A \<open>Transaction*\<close> is the identifier of the transaction; the objects live in \<open>transactions\<close>, and
  \<open>nullptr\<close> is \<open>None\<close>. The sets of locks are lists without duplicates. A queue is a list of nodes:
  a node number stands for the list iterator that a waiting thread keeps. Every operation runs
  under the latch of the lock manager. \<open>wait_for\<close> gives it up: \<open>others\<close> is what the other threads
  do to the state until the wait ends, with the predicate true or with the timeout.
\<close>

section \<open>State\<close>

datatype transaction_state = GROWING | SHRINKING | COMMITTED | ABORTED

datatype lock_mode = SHARED | EXCLUSIVE

datatype undo_record =
    Delete_Undo_Record nat rid
  | Restore_Undo_Record nat rid "byte list"
  | Drop_Table_Undo_Record string

record transaction =
  tx_id :: transaction_id
  tx_state :: transaction_state
  shared_locks :: "rid list"
  exclusive_locks :: "rid list"
  undo_log :: "undo_record list"

definition tx_new :: "transaction_id \<Rightarrow> transaction" where
  "tx_new i = \<lparr>tx_id = i, tx_state = GROWING, shared_locks = [], exclusive_locks = [], undo_log = []\<rparr>"

record lock_request =
  req_node :: nat
  req_tx :: transaction_id
  req_mode :: lock_mode
  req_granted :: bool

record lock_state =
  lock_table :: "rid \<Rightarrow> lock_request list option"
  transactions :: "transaction_id \<Rightarrow> transaction option"
  next_request :: nat

definition queue_of :: "'a lock_state_scheme \<Rightarrow> rid \<Rightarrow> lock_request list" where
  "queue_of s r = (case lock_table s r of None \<Rightarrow> [] | Some q \<Rightarrow> q)"

definition put_queue :: "rid \<Rightarrow> lock_request list \<Rightarrow> 'a lock_state_scheme \<Rightarrow> 'a lock_state_scheme" where
  "put_queue r q s = s\<lparr>lock_table := (lock_table s)(r \<mapsto> q)\<rparr>"

definition tx_op :: "transaction_id \<Rightarrow> ('a lock_state_scheme, transaction) op" where
  \<comment> \<open>\<open>*tx\<close>\<close>
  "tx_op t s = (case transactions s t of None \<Rightarrow> (Inl Undefined_Behaviour, s) | Some x \<Rightarrow> (Inr x, s))"

definition update_tx :: "transaction_id \<Rightarrow> (transaction \<Rightarrow> transaction) \<Rightarrow> 'a lock_state_scheme \<Rightarrow> 'a lock_state_scheme" where
  "update_tx t f s =
     (case transactions s t of
        None \<Rightarrow> s
      | Some x \<Rightarrow> s\<lparr>transactions := (transactions s)(t \<mapsto> f x)\<rparr>)"

definition set_state :: "transaction_id \<Rightarrow> transaction_state \<Rightarrow> 'a lock_state_scheme \<Rightarrow> 'a lock_state_scheme" where
  "set_state t st = update_tx t (\<lambda>x. x\<lparr>tx_state := st\<rparr>)"

definition push_undo :: "transaction_id \<Rightarrow> undo_record \<Rightarrow> 'a lock_state_scheme \<Rightarrow> 'a lock_state_scheme" where
  "push_undo t u = update_tx t (\<lambda>x. x\<lparr>undo_log := undo_log x @ [u]\<rparr>)"

section \<open>Granting\<close>

fun can_grant :: "lock_request list \<Rightarrow> lock_request \<Rightarrow> bool" where
  "can_grant [] request = True"
| "can_grant (x # xs) request =
     (if \<not> req_granted x \<or> req_tx x = req_tx request then can_grant xs request
      else if req_mode request = EXCLUSIVE then False
      else if req_mode x = EXCLUSIVE then False
      else can_grant xs request)"

definition lm_enqueue :: "transaction_id \<Rightarrow> rid \<Rightarrow> lock_mode \<Rightarrow> 'a lock_state_scheme \<Rightarrow> lock_request \<times> 'a lock_state_scheme" where
  \<comment> \<open>\<open>queue.requests.insert(queue.requests.end(), request)\<close>\<close>
  "lm_enqueue t r m s =
     (let request = \<lparr>req_node = next_request s, req_tx = t, req_mode = m, req_granted = False\<rparr>
      in (request, (put_queue r (queue_of s r @ [request]) s)\<lparr>next_request := Suc (next_request s)\<rparr>))"

definition add_lock :: "lock_mode \<Rightarrow> rid \<Rightarrow> transaction \<Rightarrow> transaction" where
  "add_lock m r x =
     (case m of
        SHARED \<Rightarrow> x\<lparr>shared_locks := List.insert r (shared_locks x)\<rparr>
      | EXCLUSIVE \<Rightarrow> x\<lparr>exclusive_locks := List.insert r (exclusive_locks x)\<rparr>)"

definition lm_grant :: "rid \<Rightarrow> lock_request \<Rightarrow> 'a lock_state_scheme \<Rightarrow> 'a lock_state_scheme" where
  "lm_grant r request s =
     update_tx (req_tx request) (add_lock (req_mode request) r)
       (put_queue r (map (\<lambda>x. if req_node x = req_node request then x\<lparr>req_granted := True\<rparr> else x) (queue_of s r)) s)"

definition lm_timeout :: "rid \<Rightarrow> lock_request \<Rightarrow> 'a lock_state_scheme \<Rightarrow> 'a lock_state_scheme" where
  "lm_timeout r request s =
     set_state (req_tx request) ABORTED
       (put_queue r (filter (\<lambda>x. req_node x \<noteq> req_node request) (queue_of s r)) s)"

definition lm_drop_shared :: "transaction_id \<Rightarrow> rid \<Rightarrow> 'a lock_state_scheme \<Rightarrow> 'a lock_state_scheme" where
  \<comment> \<open>the first half of a lock upgrade\<close>
  "lm_drop_shared t r s =
     update_tx t (\<lambda>x. x\<lparr>shared_locks := remove1 r (shared_locks x)\<rparr>)
       (put_queue r (filter (\<lambda>x. req_tx x \<noteq> t) (queue_of s r)) s)"

definition lm_wait ::
  "('a lock_state_scheme \<Rightarrow> 'a lock_state_scheme) \<Rightarrow> rid \<Rightarrow> lock_request \<Rightarrow> ('a lock_state_scheme, bool) op" where
  \<comment> \<open>\<open>wait_for\<close> and what follows it; the iterator of a node that is gone is invalid\<close>
  "lm_wait others r request s =
     (if can_grant (queue_of s r) request then (Inr True, lm_grant r request s)
      else let s' = others s in
        if req_node request \<notin> req_node ` set (queue_of s' r) then (Inl Undefined_Behaviour, s')
        else if can_grant (queue_of s' r) request then (Inr True, lm_grant r request s')
        else (Inr False, lm_timeout r request s'))"

definition lm_request ::
  "('a lock_state_scheme \<Rightarrow> 'a lock_state_scheme) \<Rightarrow> transaction_id \<Rightarrow> rid \<Rightarrow> lock_mode \<Rightarrow> ('a lock_state_scheme, bool) op" where
  "lm_request others t r m s = (let (request, s') = lm_enqueue t r m s in lm_wait others r request s')"

definition lock_shared ::
  "('a lock_state_scheme \<Rightarrow> 'a lock_state_scheme) \<Rightarrow> transaction_id option \<Rightarrow> rid \<Rightarrow> ('a lock_state_scheme, bool) op" where
  "lock_shared others tx r =
     (case tx of
        None \<Rightarrow> ret_op False
      | Some t \<Rightarrow>
          bind_op (tx_op t) (\<lambda>x.
            if tx_state x \<noteq> GROWING then ret_op False
            else if r \<in> set (shared_locks x) \<or> r \<in> set (exclusive_locks x) then ret_op True
            else lm_request others t r SHARED))"

definition lock_exclusive ::
  "('a lock_state_scheme \<Rightarrow> 'a lock_state_scheme) \<Rightarrow> transaction_id option \<Rightarrow> rid \<Rightarrow> ('a lock_state_scheme, bool) op" where
  "lock_exclusive others tx r =
     (case tx of
        None \<Rightarrow> ret_op False
      | Some t \<Rightarrow>
          bind_op (tx_op t) (\<lambda>x.
            if tx_state x \<noteq> GROWING then ret_op False
            else if r \<in> set (exclusive_locks x) then ret_op True
            else
              bind_op (if r \<in> set (shared_locks x) then modify_op (lm_drop_shared t r) else ret_op ()) (\<lambda>_.
              lm_request others t r EXCLUSIVE)))"

section \<open>Releasing\<close>

definition remove_and_notify :: "rid \<Rightarrow> transaction_id \<Rightarrow> 'a lock_state_scheme \<Rightarrow> 'a lock_state_scheme" where
  "remove_and_notify r t s =
     (case lock_table s r of
        None \<Rightarrow> s
      | Some q \<Rightarrow> put_queue r (filter (\<lambda>x. req_tx x \<noteq> t) q) s)"

definition unlock_all :: "transaction_id option \<Rightarrow> ('a lock_state_scheme, unit) op" where
  "unlock_all tx =
     (case tx of
        None \<Rightarrow> ret_op ()
      | Some t \<Rightarrow>
          bind_op (tx_op t) (\<lambda>x.
          bind_op (modify_op (fold (\<lambda>r. remove_and_notify r t) (exclusive_locks x))) (\<lambda>_.
          bind_op (modify_op (fold (\<lambda>r. remove_and_notify r t) (shared_locks x))) (\<lambda>_.
          modify_op (update_tx t (\<lambda>x. x\<lparr>exclusive_locks := [], shared_locks := []\<rparr>))))))"

end
