(* ===== verification/Lock_Laws.thy ===== *)
theory Lock_Laws
  imports Lock_Manager
begin

text \<open>
  The lock manager as a state machine: the steps that threads can interleave, the invariant of the
  lock table, mutual exclusion, and what a call of \<open>lock_shared\<close> or \<open>lock_exclusive\<close> is as a run.
\<close>

section \<open>Steps\<close>

definition waiting :: "'a lock_state_scheme \<Rightarrow> transaction_id \<Rightarrow> bool" where
  \<comment> \<open>the thread of the transaction is inside \<open>wait_for\<close>\<close>
  "waiting s t \<longleftrightarrow> (\<exists>r. \<exists>x\<in>set (queue_of s r). req_tx x = t \<and> \<not> req_granted x)"

definition lm_enqueue_exclusive :: "transaction_id \<Rightarrow> rid \<Rightarrow> transaction \<Rightarrow> 'a lock_state_scheme \<Rightarrow> 'a lock_state_scheme" where
  "lm_enqueue_exclusive t r x s =
     snd (lm_enqueue t r EXCLUSIVE (if r \<in> set (shared_locks x) then lm_drop_shared t r s else s))"

text \<open>
  A step of a thread. What the transaction manager does is allowed in any order by the last two rules (it calls \<open>unlock_all\<close> only once
  the transaction is shrinking): there are more runs here than in the program, which is sound for what holds in all of them.
\<close>

inductive lm_step :: "lock_state \<Rightarrow> lock_state \<Rightarrow> bool" where
  Begin: "transactions s t = None \<Longrightarrow> lm_step s (s\<lparr>transactions := (transactions s)(t \<mapsto> tx_new t)\<rparr>)"
| Request_Shared:
    "transactions s t = Some x \<Longrightarrow> tx_state x = GROWING \<Longrightarrow> \<not> waiting s t \<Longrightarrow>
     r \<notin> set (shared_locks x) \<Longrightarrow> r \<notin> set (exclusive_locks x) \<Longrightarrow> lm_step s (snd (lm_enqueue t r SHARED s))"
| Request_Exclusive:
    "transactions s t = Some x \<Longrightarrow> tx_state x = GROWING \<Longrightarrow> \<not> waiting s t \<Longrightarrow>
     r \<notin> set (exclusive_locks x) \<Longrightarrow> lm_step s (lm_enqueue_exclusive t r x s)"
| Grant:
    "request \<in> set (queue_of s r) \<Longrightarrow> \<not> req_granted request \<Longrightarrow> can_grant (queue_of s r) request \<Longrightarrow>
     lm_step s (lm_grant r request s)"
| Timeout:
    "request \<in> set (queue_of s r) \<Longrightarrow> \<not> req_granted request \<Longrightarrow> \<not> can_grant (queue_of s r) request \<Longrightarrow>
     lm_step s (lm_timeout r request s)"
| Set_State:
    "\<not> waiting s t \<Longrightarrow> st \<noteq> GROWING \<Longrightarrow> lm_step s (set_state t st s)"
| Unlock:
    "\<not> waiting s t \<Longrightarrow> lm_step s (snd (unlock_all (Some t) s))"

definition lm_initial :: lock_state where
  "lm_initial = \<lparr>lock_table = Map.empty, transactions = Map.empty, next_request = 0\<rparr>"

definition lm_reachable :: "lock_state \<Rightarrow> bool" where
  "lm_reachable = lm_step\<^sup>*\<^sup>* lm_initial"

section \<open>Reading the state after an operation\<close>

lemma queue_of_put [simp]: "queue_of (put_queue r q s) r' = (if r' = r then q else queue_of s r')"
  by (simp add: queue_of_def put_queue_def)

lemma put_queue_sel [simp]: "transactions (put_queue r q s) = transactions s" "next_request (put_queue r q s) = next_request s"
  by (simp_all add: put_queue_def)

lemma update_tx_sel [simp]:
  "queue_of (update_tx t f s) = queue_of s" "next_request (update_tx t f s) = next_request s"
  "lock_table (update_tx t f s) = lock_table s"
  "transactions (update_tx t f s) = (transactions s)(t := map_option f (transactions s t))"
  by (auto simp: update_tx_def queue_of_def fun_eq_iff split: option.splits)

lemma next_request_update [simp]: "queue_of (s\<lparr>next_request := n\<rparr>) = queue_of s" "queue_of (s\<lparr>transactions := ts\<rparr>) = queue_of s"
  by (simp_all add: queue_of_def fun_eq_iff)

definition locks_of :: "lock_mode \<Rightarrow> transaction \<Rightarrow> rid set" where
  "locks_of m x = (case m of SHARED \<Rightarrow> set (shared_locks x) | EXCLUSIVE \<Rightarrow> set (exclusive_locks x))"

lemma locks_of_simps [simp]:
  "locks_of SHARED x = set (shared_locks x)" "locks_of EXCLUSIVE x = set (exclusive_locks x)"
  "locks_of m (add_lock m' r x) = (if m = m' then insert r (locks_of m x) else locks_of m x)"
  "locks_of m (x\<lparr>tx_state := st\<rparr>) = locks_of m x" "locks_of m (x\<lparr>undo_log := l\<rparr>) = locks_of m x"
  by (auto simp: locks_of_def add_lock_def split: lock_mode.splits)

lemma add_lock_sel [simp]:
  "tx_id (add_lock m r x) = tx_id x" "tx_state (add_lock m r x) = tx_state x" "undo_log (add_lock m r x) = undo_log x"
  "distinct (shared_locks (add_lock m r x)) \<longleftrightarrow> distinct (shared_locks x)"
  "distinct (exclusive_locks (add_lock m r x)) \<longleftrightarrow> distinct (exclusive_locks x)"
  by (auto simp: add_lock_def split: lock_mode.splits)

lemma can_grant_iff:
  "can_grant q request \<longleftrightarrow>
     (\<forall>x\<in>set q. req_granted x \<longrightarrow> req_tx x \<noteq> req_tx request \<longrightarrow> req_mode request = SHARED \<and> req_mode x = SHARED)"
  by (induction q) (auto, (metis lock_mode.exhaust)+)

section \<open>The invariant\<close>

definition lk_inv :: "'a lock_state_scheme \<Rightarrow> bool" where
  "lk_inv s \<longleftrightarrow>
     (\<forall>r. distinct (map req_node (queue_of s r))) \<and>
     (\<forall>r. \<forall>x\<in>set (queue_of s r). req_node x < next_request s) \<and>
     (\<forall>r. distinct (map req_tx (queue_of s r))) \<and>
     (\<forall>r. \<forall>x\<in>set (queue_of s r). \<exists>tx. transactions s (req_tx x) = Some tx \<and>
        (req_granted x \<longrightarrow> r \<in> locks_of (req_mode x) tx)) \<and>
     (\<forall>t tx m r. transactions s t = Some tx \<longrightarrow> r \<in> locks_of m tx \<longrightarrow>
        (\<exists>x\<in>set (queue_of s r). req_tx x = t \<and> req_granted x \<and> req_mode x = m)) \<and>
     (\<forall>r. \<forall>x\<in>set (queue_of s r). \<forall>y\<in>set (queue_of s r). req_granted x \<longrightarrow> req_granted y \<longrightarrow> req_tx x \<noteq> req_tx y \<longrightarrow>
        req_mode x = SHARED \<and> req_mode y = SHARED) \<and>
     (\<forall>t tx. transactions s t = Some tx \<longrightarrow> tx_id tx = t \<and> distinct (shared_locks tx) \<and> distinct (exclusive_locks tx))"

lemma lk_invD:
  assumes "lk_inv s"
  shows "distinct (map req_node (queue_of s r))"
    "x \<in> set (queue_of s r) \<Longrightarrow> req_node x < next_request s"
    "distinct (map req_tx (queue_of s r))"
    "x \<in> set (queue_of s r) \<Longrightarrow> \<exists>tx. transactions s (req_tx x) = Some tx \<and> (req_granted x \<longrightarrow> r \<in> locks_of (req_mode x) tx)"
    "transactions s t = Some tx \<Longrightarrow> r \<in> locks_of m tx \<Longrightarrow>
       \<exists>x\<in>set (queue_of s r). req_tx x = t \<and> req_granted x \<and> req_mode x = m"
    "x \<in> set (queue_of s r) \<Longrightarrow> y \<in> set (queue_of s r) \<Longrightarrow> req_granted x \<Longrightarrow> req_granted y \<Longrightarrow> req_tx x \<noteq> req_tx y \<Longrightarrow>
       req_mode x = SHARED \<and> req_mode y = SHARED"
    "transactions s t = Some tx \<Longrightarrow> tx_id tx = t"
    "transactions s t = Some tx \<Longrightarrow> distinct (shared_locks tx) \<and> distinct (exclusive_locks tx)"
  using assms unfolding lk_inv_def by blast+

lemma lk_invI:
  assumes "\<And>r. distinct (map req_node (queue_of s r))"
    "\<And>r x. x \<in> set (queue_of s r) \<Longrightarrow> req_node x < next_request s"
    "\<And>r. distinct (map req_tx (queue_of s r))"
    "\<And>r x. x \<in> set (queue_of s r) \<Longrightarrow> \<exists>tx. transactions s (req_tx x) = Some tx \<and> (req_granted x \<longrightarrow> r \<in> locks_of (req_mode x) tx)"
    "\<And>t tx m r. transactions s t = Some tx \<Longrightarrow> r \<in> locks_of m tx \<Longrightarrow>
       \<exists>x\<in>set (queue_of s r). req_tx x = t \<and> req_granted x \<and> req_mode x = m"
    "\<And>r x y. x \<in> set (queue_of s r) \<Longrightarrow> y \<in> set (queue_of s r) \<Longrightarrow> req_granted x \<Longrightarrow> req_granted y \<Longrightarrow> req_tx x \<noteq> req_tx y \<Longrightarrow>
       req_mode x = SHARED \<and> req_mode y = SHARED"
    "\<And>t tx. transactions s t = Some tx \<Longrightarrow> tx_id tx = t \<and> distinct (shared_locks tx) \<and> distinct (exclusive_locks tx)"
  shows "lk_inv s"
  unfolding lk_inv_def using assms by blast

lemma initial_inv: "lk_inv lm_initial"
  by (simp add: lk_inv_def lm_initial_def queue_of_def)

lemma begin_inv:
  assumes "lk_inv s" "transactions s t = None"
  shows "lk_inv (s\<lparr>transactions := (transactions s)(t \<mapsto> tx_new t)\<rparr>)"
proof -
  note d = lk_invD[OF assms(1)]
  have l: "locks_of m (tx_new t) = {}" for m by (cases m) (simp_all add: tx_new_def)
  show ?thesis
  proof (rule lk_invI, goal_cases)
    case (4 r x)
    with d(4)[of x r] assms(2) show ?case by auto
  next
    case (5 t' tx m r)
    with d(5)[of t' tx r m] l show ?case by (auto split: if_splits)
  next
    case (6 r x y)
    with d(6)[of x r y] show ?case by simp
  next
    case (7 t' tx)
    with d(7,8)[of t' tx] show ?case by (auto simp: tx_new_def split: if_splits)
  qed (use d(1-3) in auto)
qed

lemma unique_request:
  assumes "lk_inv s" "x \<in> set (queue_of s r)" "y \<in> set (queue_of s r)" "req_tx x = req_tx y"
  shows "x = y"
  using lk_invD(3)[OF assms(1), of r] assms(2-4) by (metis distinct_map inj_onD)

lemma unique_node:
  assumes "lk_inv s" "x \<in> set (queue_of s r)" "y \<in> set (queue_of s r)" "req_node x = req_node y"
  shows "x = y"
  using lk_invD(1)[OF assms(1), of r] assms(2-4) by (metis distinct_map inj_onD)

lemma no_request:
  assumes "lk_inv s" "\<not> waiting s t" "transactions s t = Some tx" "\<And>m. r \<notin> locks_of m tx" "x \<in> set (queue_of s r)"
  shows "req_tx x \<noteq> t"
  using lk_invD(4)[OF assms(1,5)] assms(2-5) by (auto simp: waiting_def)

lemma enqueue_sel [simp]:
  "queue_of (snd (lm_enqueue t r m s)) r' =
     (if r' = r then queue_of s r @ [\<lparr>req_node = next_request s, req_tx = t, req_mode = m, req_granted = False\<rparr>] else queue_of s r')"
  "transactions (snd (lm_enqueue t r m s)) = transactions s"
  "next_request (snd (lm_enqueue t r m s)) = Suc (next_request s)"
  "fst (lm_enqueue t r m s) = \<lparr>req_node = next_request s, req_tx = t, req_mode = m, req_granted = False\<rparr>"
  by (auto simp: lm_enqueue_def Let_def)

lemma enqueue_inv:
  assumes "lk_inv s" "transactions s t = Some tx" "\<And>x. x \<in> set (queue_of s r) \<Longrightarrow> req_tx x \<noteq> t"
  shows "lk_inv (snd (lm_enqueue t r m s))"
proof -
  note d = lk_invD[OF assms(1)]
  let ?s = "snd (lm_enqueue t r m s)"
  have q: "x \<in> set (queue_of ?s r') \<Longrightarrow> x \<in> set (queue_of s r') \<or>
      (r' = r \<and> x = \<lparr>req_node = next_request s, req_tx = t, req_mode = m, req_granted = False\<rparr>)" for x r'
    by (auto split: if_splits)
  have q': "x \<in> set (queue_of s r') \<Longrightarrow> x \<in> set (queue_of ?s r')" for x r' by (cases "r' = r") simp_all
  show ?thesis
  proof (rule lk_invI, goal_cases)
    case (1 r')
    have "next_request s \<notin> req_node ` set (queue_of s r)" using d(2)[of _ r] by force
    then show ?case using d(1)[of r'] by auto
  next
    case (2 r' x)
    from q[OF 2] d(2)[of x r'] show ?case by auto
  next
    case (3 r')
    then show ?case using d(3)[of r'] assms(3) by auto
  next
    case (4 r' x)
    from q[OF 4] d(4)[of x r'] assms(2) show ?case by auto
  next
    case (5 t' tx' m' r')
    then have "transactions s t' = Some tx'" by simp
    from d(5)[OF this 5(2)] q' show ?case by blast
  next
    case (6 r' x y)
    from q[OF 6(1)] q[OF 6(2)] 6(3-5) d(6)[of x r' y] show ?case by auto
  next
    case (7 t' tx')
    then show ?case using d(7,8)[of t' tx'] by simp
  qed
qed

lemma drop_shared_inv:
  assumes "lk_inv s" "transactions s t = Some tx" "r \<in> set (shared_locks tx)"
  shows "lk_inv (lm_drop_shared t r s)"
    "\<And>x. x \<in> set (queue_of (lm_drop_shared t r s) r) \<Longrightarrow> req_tx x \<noteq> t"
    "transactions (lm_drop_shared t r s) t = Some (tx\<lparr>shared_locks := remove1 r (shared_locks tx)\<rparr>)"
proof -
  note d = lk_invD[OF assms(1)]
  let ?s = "lm_drop_shared t r s"
  have q: "queue_of ?s r' = (if r' = r then filter (\<lambda>x. req_tx x \<noteq> t) (queue_of s r) else queue_of s r')" for r'
    by (simp add: lm_drop_shared_def)
  have ts: "transactions ?s = (transactions s)(t \<mapsto> tx\<lparr>shared_locks := remove1 r (shared_locks tx)\<rparr>)"
    using assms(2) by (simp add: lm_drop_shared_def)
  have rm: "set (remove1 r (shared_locks tx)) = set (shared_locks tx) - {r}"
    using d(8)[OF assms(2)] by simp
  have ex: "r \<notin> set (exclusive_locks tx)"
  proof
    assume "r \<in> set (exclusive_locks tx)"
    with d(5)[OF assms(2), of r EXCLUSIVE] d(5)[OF assms(2), of r SHARED] assms(3) unique_request[OF assms(1)]
    show False by fastforce
  qed
  have lk: "r' \<in> locks_of m (tx\<lparr>shared_locks := remove1 r (shared_locks tx)\<rparr>) \<longleftrightarrow> r' \<noteq> r \<and> r' \<in> locks_of m tx" for r' m
    using rm ex by (cases m) auto
  show "lk_inv ?s"
  proof (rule lk_invI, goal_cases)
    case (1 r')
    then show ?case using d(1)[of r'] by (cases "r' = r") (simp_all add: q distinct_map_filter)
  next
    case (2 r' x)
    then show ?case using d(2)[of x r'] by (auto simp: q lm_drop_shared_def split: if_splits)
  next
    case (3 r')
    then show ?case using d(3)[of r'] by (cases "r' = r") (simp_all add: q distinct_map_filter)
  next
    case (4 r' x)
    then have x: "x \<in> set (queue_of s r')" "r' = r \<Longrightarrow> req_tx x \<noteq> t" by (auto simp: q split: if_splits)
    from d(4)[OF x(1)] obtain tx' where "transactions s (req_tx x) = Some tx'" "req_granted x \<longrightarrow> r' \<in> locks_of (req_mode x) tx'"
      by blast
    then show ?case using x(2) assms(2) lk by (cases "req_tx x = t") (auto simp: ts)
  next
    case (5 t' tx' m' r')
    show ?case
    proof (cases "t' = t")
      case True
      with 5 have "r' \<noteq> r" "r' \<in> locks_of m' tx" using lk by (auto simp: ts)
      with d(5)[OF assms(2)] True show ?thesis by (simp add: q)
    next
      case False
      with 5 have "transactions s t' = Some tx'" by (simp add: ts)
      from d(5)[OF this 5(2)] False show ?thesis by (auto simp: q)
    qed
  next
    case (6 r' x y)
    then show ?case using d(6)[of x r' y] by (auto simp: q split: if_splits)
  next
    case (7 t' tx')
    then show ?case using d(7,8)[of t'] assms(2) by (auto simp: ts split: if_splits)
  qed
  show "transactions ?s t = Some (tx\<lparr>shared_locks := remove1 r (shared_locks tx)\<rparr>)" by (simp add: ts)
  show "\<And>x. x \<in> set (queue_of ?s r) \<Longrightarrow> req_tx x \<noteq> t" by (simp add: q)
qed

lemma grant_inv:
  assumes "lk_inv s" "request \<in> set (queue_of s r)" "can_grant (queue_of s r) request"
  shows "lk_inv (lm_grant r request s)"
proof -
  note d = lk_invD[OF assms(1)]
  let ?s = "lm_grant r request s" and ?t = "req_tx request" and ?m = "req_mode request"
  let ?g = "\<lambda>x. if req_node x = req_node request then x\<lparr>req_granted := True\<rparr> else x"
  obtain tx where tx: "transactions s ?t = Some tx" using d(4)[OF assms(2)] by blast
  have q: "queue_of ?s r' = (if r' = r then map ?g (queue_of s r) else queue_of s r')" for r'
    by (simp add: lm_grant_def)
  have ts: "transactions ?s = (transactions s)(?t \<mapsto> add_lock ?m r tx)" using tx by (simp add: lm_grant_def)
  have g: "req_node (?g x) = req_node x" "req_tx (?g x) = req_tx x" "req_mode (?g x) = req_mode x" for x by simp_all
  have mem: "\<exists>y\<in>set (queue_of s r'). req_node x = req_node y \<and> req_tx x = req_tx y \<and> req_mode x = req_mode y \<and>
      (req_granted x \<longrightarrow> req_granted y \<or> (r' = r \<and> y = request))" if "x \<in> set (queue_of ?s r')" for x r'
  proof (cases "r' = r")
    case True
    with that obtain y where y: "y \<in> set (queue_of s r)" "x = ?g y" by (auto simp: q)
    with unique_node[OF assms(1) y(1) assms(2)] g[of y] True show ?thesis by (intro bexI[of _ y]) auto
  qed (use that in \<open>auto simp: q\<close>)
  have nodup: "req_tx y = ?t \<Longrightarrow> y \<in> set (queue_of s r) \<Longrightarrow> y = request" for y
    using unique_request[OF assms(1) _ assms(2)] by blast
  show ?thesis
  proof (rule lk_invI, goal_cases)
    case (1 r')
    have "map req_node (queue_of ?s r') = map req_node (queue_of s r')" by (simp add: q comp_def g)
    then show ?case using d(1) by metis
  next
    case (2 r' x)
    from mem[OF 2] d(2)[of _ r'] show ?case by (auto simp: lm_grant_def)
  next
    case (3 r')
    have "map req_tx (queue_of ?s r') = map req_tx (queue_of s r')" by (simp add: q comp_def g)
    then show ?case using d(3) by metis
  next
    case (4 r' x)
    from mem[OF 4] obtain y where y: "y \<in> set (queue_of s r')" "req_tx x = req_tx y" "req_mode x = req_mode y"
      "req_granted x \<longrightarrow> req_granted y \<or> (r' = r \<and> y = request)" by blast
    from d(4)[OF y(1)] tx y(2-4) show ?case by (auto simp: ts)
  next
    case (5 t' tx' m' r')
    show ?case
    proof (cases "t' = ?t \<and> r' = r \<and> m' = ?m")
      case True
      have "?g request \<in> set (queue_of ?s r)" using assms(2) by (simp add: q)
      with True g[of request] show ?thesis by (intro bexI[of _ "?g request"]) simp_all
    next
      case False
      then obtain tx0 where "transactions s t' = Some tx0" "r' \<in> locks_of m' tx0"
        using 5 tx by (auto simp: ts split: if_splits)
      from d(5)[OF this] obtain x where x: "x \<in> set (queue_of s r')" "req_tx x = t'" "req_granted x" "req_mode x = m'" by blast
      then have "(if r' = r then ?g x else x) \<in> set (queue_of ?s r')" by (cases "r' = r") (auto simp: q)
      with x g[of x] show ?thesis by (intro bexI[of _ "if r' = r then ?g x else x"]) auto
    qed
  next
    case (6 r' x y)
    from mem[OF 6(1)] obtain x' where x': "x' \<in> set (queue_of s r')" "req_tx x = req_tx x'" "req_mode x = req_mode x'"
      "req_granted x \<longrightarrow> req_granted x' \<or> (r' = r \<and> x' = request)" by blast
    from mem[OF 6(2)] obtain y' where y': "y' \<in> set (queue_of s r')" "req_tx y = req_tx y'" "req_mode y = req_mode y'"
      "req_granted y \<longrightarrow> req_granted y' \<or> (r' = r \<and> y' = request)" by blast
    consider "req_granted x'" "req_granted y'" | "r' = r" "x' = request" "req_granted y'" | "r' = r" "y' = request" "req_granted x'"
      | "x' = request" "y' = request" using x'(4) y'(4) 6(3,4) by blast
    then show ?case
    proof cases
      case 1
      with d(6)[OF x'(1) y'(1)] x' y' 6(5) show ?thesis by simp
    next
      case 2
      with assms(3) y' x' 6(5) show ?thesis by (auto simp: can_grant_iff)
    next
      case 3
      with assms(3) y' x' 6(5) show ?thesis by (auto simp: can_grant_iff)
    next
      case 4
      with x' y' 6(5) show ?thesis by simp
    qed
  next
    case (7 t' tx')
    then show ?case using d(7,8) tx by (auto simp: ts split: if_splits)
  qed
qed

lemma timeout_inv:
  assumes "lk_inv s" "request \<in> set (queue_of s r)" "\<not> req_granted request"
  shows "lk_inv (lm_timeout r request s)"
proof -
  note d = lk_invD[OF assms(1)]
  let ?s = "lm_timeout r request s" and ?t = "req_tx request"
  obtain tx where tx: "transactions s ?t = Some tx" using d(4)[OF assms(2)] by blast
  have q: "queue_of ?s r' = (if r' = r then filter (\<lambda>x. req_node x \<noteq> req_node request) (queue_of s r) else queue_of s r')" for r'
    by (simp add: lm_timeout_def set_state_def)
  have ts: "transactions ?s = (transactions s)(?t \<mapsto> tx\<lparr>tx_state := ABORTED\<rparr>)"
    using tx by (simp add: lm_timeout_def set_state_def)
  have sub: "x \<in> set (queue_of ?s r') \<Longrightarrow> x \<in> set (queue_of s r')" for x r' by (auto simp: q split: if_splits)
  show ?thesis
  proof (rule lk_invI, goal_cases)
    case (1 r')
    then show ?case using d(1)[of r'] by (cases "r' = r") (simp_all add: q distinct_map_filter)
  next
    case (2 r' x)
    from d(2)[OF sub[OF 2]] show ?case by (simp add: lm_timeout_def set_state_def)
  next
    case (3 r')
    then show ?case using d(3)[of r'] by (cases "r' = r") (simp_all add: q distinct_map_filter)
  next
    case (4 r' x)
    from d(4)[OF sub[OF 4]] tx show ?case by (auto simp: ts)
  next
    case (5 t' tx' m' r')
    then obtain tx0 where "transactions s t' = Some tx0" "r' \<in> locks_of m' tx0"
      using tx by (auto simp: ts split: if_splits)
    from d(5)[OF this] obtain x where x: "x \<in> set (queue_of s r')" "req_tx x = t'" "req_granted x" "req_mode x = m'" by blast
    have "r' = r \<Longrightarrow> req_node x \<noteq> req_node request" using unique_node[OF assms(1) _ assms(2)] x(1,3) assms(3) by blast
    with x show ?case by (intro bexI[of _ x]) (auto simp: q)
  next
    case (6 r' x y)
    with d(6)[OF sub[OF 6(1)] sub[OF 6(2)]] show ?case by simp
  next
    case (7 t' tx')
    then show ?case using d(7,8) tx by (auto simp: ts split: if_splits)
  qed
qed

lemma update_tx_inv:
  assumes "lk_inv s" "\<And>x. tx_id (f x) = tx_id x" "\<And>x. shared_locks (f x) = shared_locks x"
    "\<And>x. exclusive_locks (f x) = exclusive_locks x"
  shows "lk_inv (update_tx t f s)"
proof -
  note d = lk_invD[OF assms(1)]
  have l: "locks_of m (f x) = locks_of m x" for m x using assms(3,4) by (cases m) simp_all
  show ?thesis
  proof (rule lk_invI, goal_cases)
    case (4 r x)
    then have "x \<in> set (queue_of s r)" by simp
    from d(4)[OF this] obtain tx where "transactions s (req_tx x) = Some tx"
      "req_granted x \<longrightarrow> r \<in> locks_of (req_mode x) tx" by blast
    then show ?case using l by (cases "req_tx x = t") auto
  next
    case (5 t' tx m r)
    then obtain tx0 where "transactions s t' = Some tx0" "r \<in> locks_of m tx0" using l by (auto split: if_splits)
    from d(5)[OF this] show ?case by simp
  next
    case (6 r x y)
    with d(6)[of x r y] show ?case by simp
  next
    case (7 t' tx)
    then show ?case using d(7,8) assms(2-4) by (auto split: if_splits)
  qed (use d(1-3) in auto)
qed

lemma set_state_inv: "lk_inv s \<Longrightarrow> lk_inv (set_state t st s)"
  unfolding set_state_def by (rule update_tx_inv) simp_all

lemma push_undo_inv: "lk_inv s \<Longrightarrow> lk_inv (push_undo t u s)"
  unfolding push_undo_def by (rule update_tx_inv) simp_all

section \<open>Releasing all locks\<close>

lemma remove_and_notify_sel [simp]:
  "queue_of (remove_and_notify r t s) r' = (if r' = r then filter (\<lambda>x. req_tx x \<noteq> t) (queue_of s r) else queue_of s r')"
  "transactions (remove_and_notify r t s) = transactions s" "next_request (remove_and_notify r t s) = next_request s"
  by (auto simp: remove_and_notify_def queue_of_def put_queue_def split: option.splits)

lemma fold_remove [simp]:
  "queue_of (fold (\<lambda>r. remove_and_notify r t) rs s) r' =
     (if r' \<in> set rs then filter (\<lambda>x. req_tx x \<noteq> t) (queue_of s r') else queue_of s r')"
  "transactions (fold (\<lambda>r. remove_and_notify r t) rs s) = transactions s"
  "next_request (fold (\<lambda>r. remove_and_notify r t) rs s) = next_request s"
  by (induction rs arbitrary: s) auto

lemma unlock_all_run:
  assumes "transactions s t = Some x"
  shows "\<exists>s'. unlock_all (Some t) s = (Inr (), s') \<and>
    transactions s' = (transactions s)(t \<mapsto> x\<lparr>exclusive_locks := [], shared_locks := []\<rparr>) \<and> next_request s' = next_request s \<and>
    (\<forall>r. queue_of s' r = (if r \<in> set (exclusive_locks x) \<or> r \<in> set (shared_locks x)
       then filter (\<lambda>q. req_tx q \<noteq> t) (queue_of s r) else queue_of s r))"
  using assms by (simp add: unlock_all_def bind_op_def tx_op_def modify_op_def)

lemma unlock_all_inv:
  assumes "lk_inv s"
  shows "lk_inv (snd (unlock_all (Some t) s))"
proof (cases "transactions s t")
  case None
  then show ?thesis using assms by (simp add: unlock_all_def bind_op_def tx_op_def)
next
  case (Some tx)
  note d = lk_invD[OF assms]
  from unlock_all_run[OF Some] obtain s' where s': "unlock_all (Some t) s = (Inr (), s')"
    "transactions s' = (transactions s)(t \<mapsto> tx\<lparr>exclusive_locks := [], shared_locks := []\<rparr>)" "next_request s' = next_request s"
    "\<And>r. queue_of s' r = (if r \<in> set (exclusive_locks tx) \<or> r \<in> set (shared_locks tx)
       then filter (\<lambda>q. req_tx q \<noteq> t) (queue_of s r) else queue_of s r)" by blast
  have e: "locks_of m (tx\<lparr>exclusive_locks := [], shared_locks := []\<rparr>) = {}" for m by (cases m) simp_all
  have sub: "x \<in> set (queue_of s' r) \<Longrightarrow> x \<in> set (queue_of s r) \<and> (req_tx x = t \<longrightarrow> \<not> req_granted x)" for x r
  proof -
    assume x: "x \<in> set (queue_of s' r)"
    then have "x \<in> set (queue_of s r)" by (auto simp: s'(4) split: if_splits)
    moreover have "\<not> req_granted x" if "req_tx x = t"
    proof
      assume "req_granted x"
      with d(4)[OF calculation] that Some have "r \<in> locks_of (req_mode x) tx" by auto
      then have "r \<in> set (exclusive_locks tx) \<or> r \<in> set (shared_locks tx)" by (cases "req_mode x") auto
      with x that show False by (auto simp: s'(4))
    qed
    ultimately show ?thesis by blast
  qed
  have "lk_inv s'"
  proof (rule lk_invI, goal_cases)
    case (1 r)
    then show ?case using d(1)[of r] by (auto simp: s'(4) distinct_map_filter)
  next
    case (2 r x)
    then show ?case using d(2)[of x r] sub[of x r] by (simp add: s'(3))
  next
    case (3 r)
    then show ?case using d(3)[of r] by (auto simp: s'(4) distinct_map_filter)
  next
    case (4 r x)
    from d(4)[of x r] sub[OF 4] Some show ?case by (auto simp: s'(2))
  next
    case (5 t' tx' m r)
    then have t': "t' \<noteq> t" "transactions s t' = Some tx'" using e by (auto simp: s'(2) split: if_splits)
    from d(5)[OF t'(2) 5(2)] t'(1) show ?case by (auto simp: s'(4))
  next
    case (6 r x y)
    with d(6)[of x r y] sub show ?case by blast
  next
    case (7 t' tx')
    then show ?case using d(7,8) Some by (auto simp: s'(2) split: if_splits)
  qed
  then show ?thesis using s'(1) by simp
qed

lemma enqueue_exclusive_inv:
  assumes "lk_inv s" "transactions s t = Some x" "\<not> waiting s t" "r \<notin> set (exclusive_locks x)"
  shows "lk_inv (lm_enqueue_exclusive t r x s)"
proof (cases "r \<in> set (shared_locks x)")
  case True
  note d = drop_shared_inv[OF assms(1,2) True]
  show ?thesis unfolding lm_enqueue_exclusive_def using True enqueue_inv[OF d(1,3,2)] by simp
next
  case False
  have "r \<notin> locks_of m x" for m using False assms(4) by (cases m) simp_all
  from enqueue_inv[OF assms(1,2) no_request[OF assms(1,3,2) this]] False show ?thesis
    by (simp add: lm_enqueue_exclusive_def)
qed

lemma lm_step_inv: "lm_step s s' \<Longrightarrow> lk_inv s \<Longrightarrow> lk_inv s'"
proof (induction rule: lm_step.induct)
  case (Request_Shared s t x r)
  have "r \<notin> locks_of m x" for m using Request_Shared by (cases m) simp_all
  with Request_Shared show ?case by (intro enqueue_inv[OF _ _ no_request]) blast+
qed (auto intro: begin_inv enqueue_exclusive_inv grant_inv timeout_inv set_state_inv unlock_all_inv)

lemma reachable_inv: "lm_reachable s \<Longrightarrow> lk_inv s"
  unfolding lm_reachable_def by (induction rule: rtranclp_induct) (auto intro: initial_inv lm_step_inv)

end
