(* ===== verification/Lock_Spec.thy ===== *)
theory Lock_Spec
  imports Lock_Laws
begin

text \<open>
  Properties of the lock manager: mutual exclusion, two-phase locking, when a waiting request can be
  granted, and that a call of the lock manager is a run of its steps, whatever other threads do
  meanwhile.
\<close>

section \<open>Mutual exclusion\<close>

lemma inv_exclusive:
  assumes "lk_inv s" "transactions s t1 = Some x1" "transactions s t2 = Some x2" "t1 \<noteq> t2" "r \<in> set (exclusive_locks x1)"
  shows "r \<notin> set (shared_locks x2) \<and> r \<notin> set (exclusive_locks x2)"
proof -
  obtain a where a: "a \<in> set (queue_of s r)" "req_tx a = t1" "req_granted a" "req_mode a = EXCLUSIVE"
    using lk_invD(5)[OF assms(1,2), of r EXCLUSIVE] assms(5) by auto
  have "r \<notin> locks_of m x2" for m
  proof
    assume "r \<in> locks_of m x2"
    with lk_invD(5)[OF assms(1,3)] obtain b where "b \<in> set (queue_of s r)" "req_tx b = t2" "req_granted b" by blast
    with lk_invD(6)[OF assms(1) a(1)] a assms(4) show False by auto
  qed
  from this[of SHARED] this[of EXCLUSIVE] show ?thesis by simp
qed

text \<open>
  C9: mutual exclusion. In every reachable state, whatever the interleaving, a record exclusively
  locked by one transaction is locked in no mode by another.
\<close>

theorem mutual_exclusion:
  assumes "lm_reachable s" "transactions s t1 = Some x1" "transactions s t2 = Some x2" "t1 \<noteq> t2"
    "r \<in> set (exclusive_locks x1)"
  shows "r \<notin> set (shared_locks x2) \<and> r \<notin> set (exclusive_locks x2)"
  by (rule inv_exclusive[OF reachable_inv[OF assms(1)] assms(2-5)])

section \<open>Two phases\<close>

definition wait_inv :: "'a lock_state_scheme \<Rightarrow> bool" where
  \<comment> \<open>a transaction waits in one queue only, and is growing while it waits\<close>
  "wait_inv s \<longleftrightarrow>
     (\<forall>r x. x \<in> set (queue_of s r) \<longrightarrow> \<not> req_granted x \<longrightarrow>
        (\<exists>tx. transactions s (req_tx x) = Some tx \<and> tx_state tx = GROWING) \<and>
        (\<forall>r' y. y \<in> set (queue_of s r') \<longrightarrow> \<not> req_granted y \<longrightarrow> req_tx y = req_tx x \<longrightarrow> r' = r))"

lemma wait_invD:
  assumes "wait_inv s" "x \<in> set (queue_of s r)" "\<not> req_granted x"
  shows "\<exists>tx. transactions s (req_tx x) = Some tx \<and> tx_state tx = GROWING"
    "y \<in> set (queue_of s r') \<Longrightarrow> \<not> req_granted y \<Longrightarrow> req_tx y = req_tx x \<Longrightarrow> r' = r"
  using assms unfolding wait_inv_def by blast+

lemma wait_inv_mono:
  assumes "wait_inv s"
    "\<And>r x. x \<in> set (queue_of s' r) \<Longrightarrow> \<not> req_granted x \<Longrightarrow> x \<in> set (queue_of s r) \<and>
       (\<exists>tx tx'. transactions s (req_tx x) = Some tx \<and> transactions s' (req_tx x) = Some tx' \<and>
          (tx_state tx = GROWING \<longrightarrow> tx_state tx' = GROWING))"
  shows "wait_inv s'"
  unfolding wait_inv_def using assms(2) wait_invD[OF assms(1)] by (smt (verit, best) option.inject)

lemma wait_inv_enqueue:
  assumes "wait_inv s" "\<not> waiting s t" "transactions s t = Some tx" "tx_state tx = GROWING"
  shows "wait_inv (snd (lm_enqueue t r m s))"
proof -
  have nt: "req_tx x \<noteq> t" if "x \<in> set (queue_of s r')" "\<not> req_granted x" for x r'
    using assms(2) that by (auto simp: waiting_def)
  have q: "x \<in> set (queue_of (snd (lm_enqueue t r m s)) r') \<Longrightarrow> x \<in> set (queue_of s r') \<or> (r' = r \<and> req_tx x = t)" for x r'
    by (auto split: if_splits)
  show ?thesis
    unfolding wait_inv_def
  proof (intro allI impI conjI)
    fix r' x assume x: "x \<in> set (queue_of (snd (lm_enqueue t r m s)) r')" "\<not> req_granted x"
    from q[OF x(1)] show "\<exists>tx. transactions (snd (lm_enqueue t r m s)) (req_tx x) = Some tx \<and> tx_state tx = GROWING"
      using wait_invD(1)[OF assms(1) _ x(2)] assms(3,4) by auto
    fix r'' y assume y: "y \<in> set (queue_of (snd (lm_enqueue t r m s)) r'')" "\<not> req_granted y" "req_tx y = req_tx x"
    from q[OF x(1)] q[OF y(1)] show "r'' = r'"
      using wait_invD(2)[OF assms(1) _ x(2) _ y(2,3)] nt x(2) y(2,3) by metis
  qed
qed

lemma waiting_drop:
  "waiting (lm_drop_shared t r s) t \<Longrightarrow> waiting s t"
  by (auto simp: waiting_def lm_drop_shared_def split: if_splits)

lemma wait_inv_drop: "wait_inv s \<Longrightarrow> wait_inv (lm_drop_shared t r s)"
proof (rule wait_inv_mono, assumption, intro conjI)
  fix r' x
  assume w: "wait_inv s" and x: "x \<in> set (queue_of (lm_drop_shared t r s) r')" "\<not> req_granted x"
  then show q: "x \<in> set (queue_of s r')" by (auto simp: lm_drop_shared_def split: if_splits)
  from wait_invD(1)[OF w q x(2)]
  show "\<exists>tx tx'. transactions s (req_tx x) = Some tx \<and> transactions (lm_drop_shared t r s) (req_tx x) = Some tx' \<and>
      (tx_state tx = GROWING \<longrightarrow> tx_state tx' = GROWING)"
    by (auto simp: lm_drop_shared_def)
qed

lemma wait_inv_enqueue_exclusive:
  assumes "wait_inv s" "\<not> waiting s t" "transactions s t = Some x" "tx_state x = GROWING"
  shows "wait_inv (lm_enqueue_exclusive t r x s)"
proof (cases "r \<in> set (shared_locks x)")
  case True
  have tr: "transactions (lm_drop_shared t r s) t = Some (x\<lparr>shared_locks := remove1 r (shared_locks x)\<rparr>)"
    using assms(3) by (simp add: lm_drop_shared_def)
  have "\<not> waiting (lm_drop_shared t r s) t" using assms(2) waiting_drop by blast
  from wait_inv_enqueue[OF wait_inv_drop[OF assms(1)] this tr] assms(4) True show ?thesis
    by (simp add: lm_enqueue_exclusive_def)
next
  case False
  with wait_inv_enqueue[OF assms] show ?thesis by (simp add: lm_enqueue_exclusive_def)
qed

lemma grant_sel:
  "queue_of (lm_grant r request s) r' =
     (if r' = r then map (\<lambda>x. if req_node x = req_node request then x\<lparr>req_granted := True\<rparr> else x) (queue_of s r) else queue_of s r')"
  "transactions (lm_grant r request s) =
     (transactions s)(req_tx request := map_option (add_lock (req_mode request) r) (transactions s (req_tx request)))"
  by (simp_all add: lm_grant_def)

lemma timeout_sel:
  "queue_of (lm_timeout r request s) r' = (if r' = r then filter (\<lambda>x. req_node x \<noteq> req_node request) (queue_of s r) else queue_of s r')"
  "transactions (lm_timeout r request s) =
     (transactions s)(req_tx request := map_option (\<lambda>x. x\<lparr>tx_state := ABORTED\<rparr>) (transactions s (req_tx request)))"
  by (simp_all add: lm_timeout_def set_state_def)

lemma wait_inv_grant:
  assumes "wait_inv s"
  shows "wait_inv (lm_grant r request s)"
proof (rule wait_inv_mono[OF assms], intro conjI)
  fix r' x
  assume x: "x \<in> set (queue_of (lm_grant r request s) r')" "\<not> req_granted x"
  then show q: "x \<in> set (queue_of s r')" by (auto simp: grant_sel split: if_splits)
  from wait_invD(1)[OF assms q x(2)]
  show "\<exists>tx tx'. transactions s (req_tx x) = Some tx \<and> transactions (lm_grant r request s) (req_tx x) = Some tx' \<and>
      (tx_state tx = GROWING \<longrightarrow> tx_state tx' = GROWING)"
    by (auto simp: grant_sel)
qed

lemma wait_inv_timeout:
  assumes "wait_inv s" "lk_inv s" "request \<in> set (queue_of s r)" "\<not> req_granted request"
  shows "wait_inv (lm_timeout r request s)"
proof (rule wait_inv_mono[OF assms(1)], intro conjI)
  fix r' x
  assume x: "x \<in> set (queue_of (lm_timeout r request s) r')" "\<not> req_granted x"
  then show q: "x \<in> set (queue_of s r')" by (auto simp: timeout_sel split: if_splits)
  have "req_tx x \<noteq> req_tx request"
  proof
    assume a: "req_tx x = req_tx request"
    then have "r' = r" using wait_invD(2)[OF assms(1,3,4) q x(2)] by simp
    with unique_request[OF assms(2) _ assms(3)] q a x(1) show False by (auto simp: timeout_sel)
  qed
  with wait_invD(1)[OF assms(1) q x(2)]
  show "\<exists>tx tx'. transactions s (req_tx x) = Some tx \<and> transactions (lm_timeout r request s) (req_tx x) = Some tx' \<and>
      (tx_state tx = GROWING \<longrightarrow> tx_state tx' = GROWING)"
    by (auto simp: timeout_sel)
qed

lemma wait_inv_update:
  assumes "wait_inv s" "\<not> waiting s t" "\<And>r. set (queue_of s' r) \<subseteq> set (queue_of s r)"
    "\<And>t'. t' \<noteq> t \<Longrightarrow> transactions s' t' = transactions s t'"
  shows "wait_inv s'"
proof (rule wait_inv_mono[OF assms(1)], intro conjI)
  fix r x
  assume x: "x \<in> set (queue_of s' r)" "\<not> req_granted x"
  then show q: "x \<in> set (queue_of s r)" using assms(3) by blast
  have "req_tx x \<noteq> t" using assms(2) q x(2) by (auto simp: waiting_def)
  with wait_invD(1)[OF assms(1) q x(2)] assms(4)[of "req_tx x"]
  show "\<exists>tx tx'. transactions s (req_tx x) = Some tx \<and> transactions s' (req_tx x) = Some tx' \<and>
      (tx_state tx = GROWING \<longrightarrow> tx_state tx' = GROWING)"
    by auto
qed

lemma unlock_all_sel:
  "set (queue_of (snd (unlock_all (Some t) s)) r) \<subseteq> set (queue_of s r)"
  "t' \<noteq> t \<Longrightarrow> transactions (snd (unlock_all (Some t) s)) t' = transactions s t'"
  by (auto simp: unlock_all_def bind_op_def tx_op_def modify_op_def split: option.splits if_splits)

lemma unlock_all_next: "next_request (snd (unlock_all (Some t) s)) = next_request s"
proof -
  have "next_request (fold (\<lambda>r. remove_and_notify r t) rs u) = next_request u" for rs and u :: "'a lock_state_scheme"
    by (induction rs arbitrary: u) (simp_all add: remove_and_notify_def split: option.split)
  then show ?thesis by (simp add: unlock_all_def bind_op_def tx_op_def modify_op_def split: option.split)
qed

lemma step_next: "lm_step s s' \<Longrightarrow> next_request s \<le> next_request s'"
  by (induction rule: lm_step.induct)
    (simp_all add: lm_enqueue_exclusive_def lm_drop_shared_def lm_grant_def lm_timeout_def set_state_def unlock_all_next)

lemma lm_step_wait_inv: "lm_step s s' \<Longrightarrow> lk_inv s \<Longrightarrow> wait_inv s \<Longrightarrow> wait_inv s'"
proof (induction rule: lm_step.induct)
  case (Begin s t)
  show ?case
  proof (rule wait_inv_update[OF Begin(3)])
    show "\<not> waiting s t" using Begin(1) wait_invD(1)[OF Begin(3)] unfolding waiting_def by (metis option.distinct(1))
  qed simp_all
next
  case (Set_State s t st)
  show ?case by (rule wait_inv_update[OF Set_State(4,1)]) (simp_all add: set_state_def)
next
  case (Unlock s t)
  show ?case by (rule wait_inv_update[OF Unlock(3,1)]) (simp_all only: unlock_all_sel not_False_eq_True)
qed (auto intro: wait_inv_enqueue wait_inv_enqueue_exclusive wait_inv_grant wait_inv_timeout)

lemma reachable_wait_inv: "lm_reachable s \<Longrightarrow> wait_inv s"
  unfolding lm_reachable_def
proof (induction rule: rtranclp_induct)
  case base
  then show ?case by (simp add: wait_inv_def lm_initial_def queue_of_def)
next
  case (step u v)
  then show ?case using lm_step_wait_inv[OF step(2)] reachable_inv[of u] by (simp add: lm_reachable_def)
qed

definition shrunk :: "transaction \<Rightarrow> transaction \<Rightarrow> bool" where
  "shrunk x x' \<longleftrightarrow> tx_state x' \<noteq> GROWING \<and> (\<forall>m. locks_of m x' \<subseteq> locks_of m x)"

lemma shrunk_refl: "tx_state x \<noteq> GROWING \<Longrightarrow> shrunk x x"
  by (simp add: shrunk_def)

lemma drop_sel: "t' \<noteq> t \<Longrightarrow> transactions (lm_drop_shared t r s) t' = transactions s t'"
  by (simp add: lm_drop_shared_def)

lemma step_two_phase:
  "lm_step s s' \<Longrightarrow> wait_inv s \<Longrightarrow> transactions s t = Some x \<Longrightarrow> tx_state x \<noteq> GROWING \<Longrightarrow>
    \<exists>x'. transactions s' t = Some x' \<and> shrunk x x'"
proof (induction rule: lm_step.induct)
  case (Begin s t')
  then have "t' \<noteq> t" by auto
  with Begin show ?case by (simp add: shrunk_refl)
next
  case (Request_Shared s t' x' r)
  then show ?case by (simp add: shrunk_refl)
next
  case (Request_Exclusive s t' x' r)
  then have "t' \<noteq> t" by auto
  then have "transactions (lm_enqueue_exclusive t' r x' s) t = transactions s t"
    by (simp add: lm_enqueue_exclusive_def drop_sel)
  with Request_Exclusive(6,7) show ?case by (simp add: shrunk_refl)
next
  case (Grant request s r)
  then have "req_tx request \<noteq> t" using wait_invD(1)[OF Grant(4,1,2)] by auto
  with Grant(5,6) show ?case by (simp add: grant_sel shrunk_refl)
next
  case (Timeout request s r)
  then have "req_tx request \<noteq> t" using wait_invD(1)[OF Timeout(4,1,2)] by auto
  with Timeout(5,6) show ?case by (simp add: timeout_sel shrunk_refl)
next
  case (Set_State s t' st)
  then show ?case by (cases "t' = t") (auto simp: set_state_def shrunk_def)
next
  case (Unlock s t')
  show ?case
  proof (cases "t' = t")
    case True
    have "locks_of m (x\<lparr>exclusive_locks := [], shared_locks := []\<rparr>) = {}" for m by (cases m) simp_all
    with Unlock(4) unlock_all_run[OF Unlock(3)] True show ?thesis by (auto simp: shrunk_def)
  next
    case False
    with Unlock(3,4) unlock_all_sel(2)[of t t' s] show ?thesis by (simp add: shrunk_refl)
  qed
qed

text \<open>
  C10: two-phase locking. Once a transaction has left the growing phase (it commits, rolls back, or a lock
  request of it has timed out) it never enters it again and never gets another lock, in any
  continuation of any interleaving.
\<close>

theorem two_phase_locking:
  assumes "lm_reachable s" "lm_step\<^sup>*\<^sup>* s s'" "transactions s t = Some x" "tx_state x \<noteq> GROWING"
  shows "\<exists>x'. transactions s' t = Some x' \<and> tx_state x' \<noteq> GROWING \<and>
    set (shared_locks x') \<subseteq> set (shared_locks x) \<and> set (exclusive_locks x') \<subseteq> set (exclusive_locks x)"
proof -
  from assms(2) have "\<exists>x'. transactions s' t = Some x' \<and> shrunk x x'"
  proof (induction rule: rtranclp_induct)
    case base
    then show ?case using assms(3,4) shrunk_refl by blast
  next
    case (step u v)
    then obtain y where y: "transactions u t = Some y" "shrunk x y" by blast
    have "lm_reachable u" using assms(1) step(1) by (simp add: lm_reachable_def)
    from step_two_phase[OF step(2) reachable_wait_inv[OF this] y(1)] y(2) show ?case
      unfolding shrunk_def by (meson subset_trans)
  qed
  then obtain x' where "transactions s' t = Some x'" "shrunk x x'" by blast
  then show ?thesis unfolding shrunk_def using locks_of_simps(1,2) by metis
qed

section \<open>When a request is granted\<close>

definition conflicts :: "'a lock_state_scheme \<Rightarrow> rid \<Rightarrow> lock_request \<Rightarrow> bool" where
  \<comment> \<open>another transaction holds the record in a mode that excludes the requested one\<close>
  "conflicts s r request \<longleftrightarrow>
     (\<exists>t x. t \<noteq> req_tx request \<and> transactions s t = Some x \<and>
        (r \<in> set (exclusive_locks x) \<or> req_mode request = EXCLUSIVE \<and> r \<in> set (shared_locks x)))"

lemma can_grant_conflicts:
  assumes "lk_inv s"
  shows "can_grant (queue_of s r) request \<longleftrightarrow> \<not> conflicts s r request"
proof
  assume g: "can_grant (queue_of s r) request"
  show "\<not> conflicts s r request"
  proof
    assume "conflicts s r request"
    then obtain t x m where t: "t \<noteq> req_tx request" "transactions s t = Some x" "r \<in> locks_of m x"
      "m = SHARED \<longrightarrow> req_mode request = EXCLUSIVE"
      unfolding conflicts_def by (metis locks_of_simps(1,2) lock_mode.distinct(1))
    from lk_invD(5)[OF assms t(2,3)] obtain q where "q \<in> set (queue_of s r)" "req_tx q = t" "req_granted q" "req_mode q = m"
      by blast
    with g t(1,4) show False by (auto simp: can_grant_iff)
  qed
next
  assume n: "\<not> conflicts s r request"
  show "can_grant (queue_of s r) request"
    unfolding can_grant_iff
  proof (intro ballI impI)
    fix q assume q: "q \<in> set (queue_of s r)" "req_granted q" "req_tx q \<noteq> req_tx request"
    from lk_invD(4)[OF assms q(1)] q(2) obtain x where x: "transactions s (req_tx q) = Some x" "r \<in> locks_of (req_mode q) x"
      by blast
    from n q(3) x(1) have "r \<notin> set (exclusive_locks x)" "req_mode request = EXCLUSIVE \<Longrightarrow> r \<notin> set (shared_locks x)"
      by (auto simp: conflicts_def)
    with x(2) show "req_mode request = SHARED \<and> req_mode q = SHARED"
      by (cases "req_mode q"; cases "req_mode request") auto
  qed
qed

lemma request_step:
  assumes "lm_reachable s" "request \<in> set (queue_of s r)" "\<not> req_granted request"
  shows "if conflicts s r request
    then lm_step s (lm_timeout r request s) \<and> \<not> waiting (lm_timeout r request s) (req_tx request) \<and>
      map_option tx_state (transactions (lm_timeout r request s) (req_tx request)) = Some ABORTED
    else lm_step s (lm_grant r request s) \<and> \<not> waiting (lm_grant r request s) (req_tx request) \<and>
      (\<exists>x. transactions (lm_grant r request s) (req_tx request) = Some x \<and> r \<in> locks_of (req_mode request) x)"
proof -
  note inv = reachable_inv[OF assms(1)] reachable_wait_inv[OF assms(1)]
  obtain x where x: "transactions s (req_tx request) = Some x" using lk_invD(4)[OF inv(1) assms(2)] by blast
  have only: "r' = r \<and> q = request" if "q \<in> set (queue_of s r')" "\<not> req_granted q" "req_tx q = req_tx request" for q r'
    using wait_invD(2)[OF inv(2) assms(2,3) that] unique_request[OF inv(1) _ assms(2)] that by blast
  have "\<not> waiting (lm_timeout r request s) (req_tx request)"
    using only by (fastforce simp: waiting_def timeout_sel split: if_splits)
  moreover have "\<not> waiting (lm_grant r request s) (req_tx request)"
    using only by (fastforce simp: waiting_def grant_sel split: if_splits)
  ultimately show ?thesis
    using can_grant_conflicts[OF inv(1), of r request] lm_step.Timeout[OF assms(2,3)] lm_step.Grant[OF assms(2,3)] x
    by (auto simp: timeout_sel grant_sel)
qed


text \<open>
  C34: every wait ends. A waiting request can always make a step: if no other transaction holds the record in a
  conflicting mode it can be granted, and then its transaction holds the lock; otherwise it can time out, and then its
  transaction is aborted and waits no more.
\<close>

theorem lock_wait_ends:
  assumes "lm_reachable s" "request \<in> set (queue_of s r)" "\<not> req_granted request"
  shows "if conflicts s r request
    then lm_step s (lm_timeout r request s) \<and> \<not> waiting (lm_timeout r request s) (req_tx request) \<and>
      map_option tx_state (transactions (lm_timeout r request s) (req_tx request)) = Some ABORTED
    else lm_step s (lm_grant r request s) \<and> \<not> waiting (lm_grant r request s) (req_tx request) \<and>
      (\<exists>x. transactions (lm_grant r request s) (req_tx request) = Some x \<and> r \<in> locks_of (req_mode request) x)"
  by (rule request_step[OF assms])

section \<open>A call is a run\<close>

definition leaves_requests :: "transaction_id \<Rightarrow> (lock_state \<Rightarrow> lock_state) \<Rightarrow> bool" where
  \<comment> \<open>other threads make steps, and do not touch the requests of this transaction\<close>
  "leaves_requests t others \<longleftrightarrow>
     (\<forall>u. lm_step\<^sup>*\<^sup>* u (others u) \<and> (\<forall>r q. q \<in> set (queue_of u r) \<longrightarrow> req_tx q = t \<longrightarrow> q \<in> set (queue_of (others u) r)))"

lemma reachable_trans: "lm_reachable s \<Longrightarrow> lm_step\<^sup>*\<^sup>* s s' \<Longrightarrow> lm_reachable s'"
  by (simp add: lm_reachable_def)

text \<open>While a request waits, its transaction is as it was: nobody but the waiting thread acts for it\<close>

lemma lm_step_gone:
  "lm_step u v \<Longrightarrow> \<not> req_granted q \<Longrightarrow> req_node q < next_request u \<Longrightarrow> q \<notin> set (queue_of u r) \<Longrightarrow>
    req_node q < next_request v \<and> q \<notin> set (queue_of v r)"
proof (induction rule: lm_step.induct)
  case (Unlock s t)
  have "next_request (snd (unlock_all (Some t) s)) = next_request s" by (simp add: unlock_all_next)
  then show ?case using Unlock unlock_all_sel(1)[of t s r] by auto
qed (auto simp: lm_enqueue_exclusive_def lm_drop_shared_def grant_sel timeout_sel set_state_def lm_grant_def lm_timeout_def split: if_splits)

lemma waits_once:
  assumes "lk_inv s" "wait_inv s" "q \<in> set (queue_of s r)" "\<not> req_granted q" "p \<in> set (queue_of s r')" "\<not> req_granted p"
    "req_tx q = req_tx p"
  shows "r' = r" "q = p"
proof -
  show e: "r' = r" by (rule wait_invD(2)[OF assms(2-6) assms(7)[symmetric]])
  show "q = p" by (rule unique_request[OF assms(1,3) assms(5)[unfolded e] assms(7)])
qed

lemma answered_gone:
  assumes "lk_inv s" "wait_inv s" "q \<in> set (queue_of s r)" "\<not> req_granted q" "p \<in> set (queue_of s r')" "\<not> req_granted p"
    "req_tx q = req_tx p"
  shows "q \<notin> set (queue_of (lm_grant r' p s) r)" "q \<notin> set (queue_of (lm_timeout r' p s) r)"
proof -
  let ?g = "\<lambda>x. if req_node x = req_node p then x\<lparr>req_granted := True\<rparr> else x"
  have "\<forall>x\<in>set (map ?g (queue_of s r)). req_granted x \<or> req_node x \<noteq> req_node p" by auto
  then have "p \<notin> set (map ?g (queue_of s r))" using assms(6) by blast
  then show "q \<notin> set (queue_of (lm_grant r' p s) r)" unfolding waits_once[OF assms] by (simp only: grant_sel if_True simp_thms)
  show "q \<notin> set (queue_of (lm_timeout r' p s) r)" unfolding waits_once[OF assms] by (simp add: timeout_sel)
qed

lemma lm_step_waiting:
  "lm_step u v \<Longrightarrow> lk_inv u \<Longrightarrow> wait_inv u \<Longrightarrow> q \<in> set (queue_of u r) \<Longrightarrow> \<not> req_granted q \<Longrightarrow> q \<in> set (queue_of v r) \<Longrightarrow>
    transactions v (req_tx q) = transactions u (req_tx q)"
proof (induction rule: lm_step.induct)
  case (Begin s t)
  then have "req_tx q \<noteq> t" using lk_invD(4)[OF Begin(2,4)] by auto
  then show ?case by simp
next
  case (Request_Exclusive s t x r')
  have "req_tx q \<noteq> t" using Request_Exclusive(3,7,8) unfolding waiting_def by blast
  then show ?case by (simp add: lm_enqueue_exclusive_def drop_sel)
next
  case (Grant request s r')
  then have "req_tx q \<noteq> req_tx request" using answered_gone(1)[OF Grant(4-7,1,2)] by blast
  then show ?case by (simp add: grant_sel)
next
  case (Timeout request s r')
  then have "req_tx q \<noteq> req_tx request" using answered_gone(2)[OF Timeout(4-7,1,2)] by blast
  then show ?case by (simp add: timeout_sel)
next
  case (Set_State s t st)
  have "req_tx q \<noteq> t" using Set_State(1,5,6) unfolding waiting_def by blast
  then show ?case by (simp add: set_state_def)
next
  case (Unlock s t)
  have "req_tx q \<noteq> t" using Unlock(1,4,5) unfolding waiting_def by blast
  then show ?case by (rule unlock_all_sel(2))
next
  case (Request_Shared s t x r')
  show ?case by (rule arg_cong[where f = "\<lambda>f. f (req_tx q)"]) (rule enqueue_sel(2))
qed

lemma steps_waiting:
  assumes "lm_step\<^sup>*\<^sup>* u v" "lm_reachable u" "q \<in> set (queue_of u r)" "\<not> req_granted q" "q \<in> set (queue_of v r)"
  shows "transactions v (req_tx q) = transactions u (req_tx q)"
proof -
  have "req_node q < next_request v \<and> (q \<in> set (queue_of v r) \<longrightarrow> transactions v (req_tx q) = transactions u (req_tx q))"
    using assms(1)
  proof (induction rule: rtranclp_induct)
    case base
    then show ?case using lk_invD(2)[OF reachable_inv[OF assms(2)] assms(3)] by simp
  next
    case (step v w)
    have r: "lm_reachable v" using assms(2) step(1) by (rule reachable_trans)
    show ?case
    proof (cases "q \<in> set (queue_of v r)")
      case True
      then have "req_node q < next_request w" using step(2,3) step_next by (meson less_le_trans)
      then show ?thesis using lm_step_waiting[OF step(2) reachable_inv[OF r] reachable_wait_inv[OF r] True assms(4)] step(3) True by auto
    next
      case False
      then show ?thesis using lm_step_gone[OF step(2) assms(4)] step(3) by blast
    qed
  qed
  then show ?thesis using assms(5) by blast
qed

lemma wait_run:
  assumes "lm_reachable u" "request \<in> set (queue_of u r)" "\<not> req_granted request" "leaves_requests (req_tx request) others"
    "transactions u (req_tx request) = Some x"
  shows "\<exists>b v. lm_wait others r request u = (Inr b, v) \<and> lm_step\<^sup>*\<^sup>* u v \<and> \<not> waiting v (req_tx request) \<and>
    transactions v (req_tx request) = Some (if b then add_lock (req_mode request) r x else x\<lparr>tx_state := ABORTED\<rparr>)"
proof (cases "can_grant (queue_of u r) request")
  case True
  then have "\<not> conflicts u r request" using can_grant_conflicts[OF reachable_inv[OF assms(1)]] by blast
  with request_step[OF assms(1-3)] True assms(5) show ?thesis by (auto simp: lm_wait_def grant_sel)
next
  case False
  let ?w = "others u"
  have w: "lm_step\<^sup>*\<^sup>* u ?w" "request \<in> set (queue_of ?w r)" using assms(2,4) by (simp_all add: leaves_requests_def)
  note rw = reachable_trans[OF assms(1) w(1)]
  have x: "transactions ?w (req_tx request) = Some x" using steps_waiting[OF w(1) assms(1-3) w(2)] assms(5) by simp
  have run: "lm_wait others r request u =
      (if can_grant (queue_of ?w r) request then (Inr True, lm_grant r request ?w) else (Inr False, lm_timeout r request ?w))"
    using False w(2) by (auto simp: lm_wait_def Let_def)
  show ?thesis
  proof (cases "conflicts ?w r request")
    case True
    with request_step[OF rw w(2) assms(3)] have "lm_step ?w (lm_timeout r request ?w)"
      "\<not> waiting (lm_timeout r request ?w) (req_tx request)" by simp_all
    with run w(1) x True can_grant_conflicts[OF reachable_inv[OF rw]] show ?thesis
      by (auto intro: rtranclp.rtrancl_into_rtrancl simp: timeout_sel)
  next
    case no: False
    with request_step[OF rw w(2) assms(3)] have "lm_step ?w (lm_grant r request ?w)"
      "\<not> waiting (lm_grant r request ?w) (req_tx request)" by simp_all
    with run w(1) x no can_grant_conflicts[OF reachable_inv[OF rw]] show ?thesis
      by (auto intro: rtranclp.rtrancl_into_rtrancl simp: grant_sel)
  qed
qed

lemma request_run:
  assumes "lm_reachable u" "u = snd (lm_enqueue t r m s)" "leaves_requests t others" "transactions s t = Some x"
  shows "\<exists>b v. lm_request others t r m s = (Inr b, v) \<and> lm_step\<^sup>*\<^sup>* u v \<and> \<not> waiting v t \<and>
    transactions v t = Some (if b then add_lock m r x else x\<lparr>tx_state := ABORTED\<rparr>)"
proof -
  let ?q = "fst (lm_enqueue t r m s)"
  have q: "?q \<in> set (queue_of u r)" "\<not> req_granted ?q" "req_tx ?q = t" "req_mode ?q = m" using assms(2) by simp_all
  have "lm_request others t r m s = lm_wait others r ?q u"
    unfolding lm_request_def Let_def assms(2) by (simp only: case_prod_beta)
  with wait_run[OF assms(1) q(1,2), of others x] assms(2-4) show ?thesis unfolding q(3,4) by simp
qed

definition lock_call ::
  "lock_mode \<Rightarrow> (lock_state \<Rightarrow> lock_state) \<Rightarrow> transaction_id option \<Rightarrow> rid \<Rightarrow> (lock_state, bool) op" where
  "lock_call m = (case m of SHARED \<Rightarrow> lock_shared | EXCLUSIVE \<Rightarrow> lock_exclusive)"

definition call_outcome :: "lock_mode \<Rightarrow> rid \<Rightarrow> bool \<Rightarrow> transaction \<Rightarrow> bool" where
  \<comment> \<open>true: growing and holding the lock (for a shared one an exclusive one is enough); false: aborted, without a lock on the record\<close>
  "call_outcome m r b x \<longleftrightarrow>
     (if b then tx_state x = GROWING \<and> (r \<in> locks_of m x \<or> r \<in> set (exclusive_locks x))
      else tx_state x = ABORTED \<and> r \<notin> set (shared_locks x) \<and> r \<notin> set (exclusive_locks x))"

lemma call_outcome_request:
  "tx_state x = GROWING \<Longrightarrow> r \<notin> set (shared_locks x) \<Longrightarrow> r \<notin> set (exclusive_locks x) \<Longrightarrow>
    call_outcome m r b (if b then add_lock m r x else x\<lparr>tx_state := ABORTED\<rparr>)"
  by (simp add: call_outcome_def)

lemma lock_run:
  assumes "lm_reachable s" "transactions s t = Some x" "\<not> waiting s t" "leaves_requests t others" "tx_state x = GROWING"
  shows "\<exists>b s'. lock_call m others (Some t) r s = (Inr b, s') \<and> lm_step\<^sup>*\<^sup>* s s' \<and> \<not> waiting s' t \<and>
    (\<exists>x'. transactions s' t = Some x' \<and> call_outcome m r b x')"
proof (cases "(m = SHARED \<and> r \<in> set (shared_locks x)) \<or> r \<in> set (exclusive_locks x)")
  case True
  have op: "tx_op t s = (Inr x, s)" using assms(2) by (simp add: tx_op_def)
  have "lock_call m others (Some t) r s = (Inr True, s)"
    using True by (cases m) (simp_all add: lock_call_def lock_shared_def lock_exclusive_def bind_op_def ret_op_def op assms(5))
  moreover have "call_outcome m r True x" using True assms(5) by (auto simp: call_outcome_def)
  ultimately show ?thesis using assms(2,3) by blast
next
  case False
  have op: "tx_op t s = (Inr x, s)" using assms(2) by (simp add: tx_op_def)
  let ?s = "if m = EXCLUSIVE \<and> r \<in> set (shared_locks x) then lm_drop_shared t r s else s"
  let ?x = "if m = EXCLUSIVE \<and> r \<in> set (shared_locks x) then x\<lparr>shared_locks := remove1 r (shared_locks x)\<rparr> else x"
  let ?u = "snd (lm_enqueue t r m ?s)"
  have st: "lm_step s ?u"
  proof (cases m)
    case SHARED
    then show ?thesis using lm_step.Request_Shared[OF assms(2,5,3)] False by auto
  next
    case EXCLUSIVE
    then show ?thesis using lm_step.Request_Exclusive[OF assms(2,5,3)] False by (auto simp: lm_enqueue_exclusive_def)
  qed
  have run: "lock_call m others (Some t) r s = lm_request others t r m ?s"
    using False by (cases m) (simp_all add: lock_call_def lock_shared_def lock_exclusive_def bind_op_def modify_op_def ret_op_def op assms(5))
  have x: "transactions ?s t = Some ?x" using assms(2) by (simp add: lm_drop_shared_def)
  have "distinct (shared_locks x)" using lk_invD(8)[OF reachable_inv[OF assms(1)] assms(2)] by simp
  then have free: "tx_state ?x = GROWING" "r \<notin> set (shared_locks ?x)" "r \<notin> set (exclusive_locks ?x)"
    using False assms(5) by (cases m; auto)+
  have "lm_reachable ?u" using reachable_trans[OF assms(1)] st by blast
  from request_run[OF this refl assms(4) x] obtain b v where v: "lm_request others t r m ?s = (Inr b, v)" "lm_step\<^sup>*\<^sup>* ?u v"
    "\<not> waiting v t" "transactions v t = Some (if b then add_lock m r ?x else ?x\<lparr>tx_state := ABORTED\<rparr>)" by blast
  have "lm_step\<^sup>*\<^sup>* s v" using st v(2) by (rule converse_rtranclp_into_rtranclp)
  then show ?thesis using run v(1,3,4) call_outcome_request[OF free, of m b] by (intro exI[of _ b] exI[of _ v]) simp
qed

text \<open>
  C11: a call refines the state machine. For a growing transaction, whatever other threads do while it waits, a call of
  \<open>lock_shared\<close> or \<open>lock_exclusive\<close> returns, and is a run of steps; the result says whether the lock is held: true, and the transaction
  is still growing and holds it (for a shared lock an exclusive one is enough), or false, and it is aborted and has no lock on the record
  at all (a failed upgrade has lost the shared one). For a transaction that is not growing the answer is false and nothing changes, also when
  it holds the lock.
\<close>

theorem lock_call_refines:
  assumes "lm_reachable s" "transactions s t = Some x" "\<not> waiting s t" "leaves_requests t others"
  shows "if tx_state x \<noteq> GROWING then lock_call m others (Some t) r s = (Inr False, s)
    else \<exists>b s'. lock_call m others (Some t) r s = (Inr b, s') \<and> lm_step\<^sup>*\<^sup>* s s' \<and> \<not> waiting s' t \<and>
      (\<exists>x'. transactions s' t = Some x' \<and>
        (if b then tx_state x' = GROWING \<and> (r \<in> locks_of m x' \<or> r \<in> set (exclusive_locks x'))
         else tx_state x' = ABORTED \<and> r \<notin> set (shared_locks x') \<and> r \<notin> set (exclusive_locks x')))"
proof (cases "tx_state x = GROWING")
  case True
  then show ?thesis using lock_run[OF assms True, of m r] unfolding call_outcome_def by simp
next
  case False
  then show ?thesis using assms(2)
    by (cases m) (simp_all add: lock_call_def lock_shared_def lock_exclusive_def bind_op_def ret_op_def tx_op_def)
qed

section \<open>Examples\<close>

definition row_0 :: rid where
  "row_0 = \<lparr>rid_page_id = 1, rid_slot_num = 0\<rparr>"

definition two_txs :: lock_state where
  \<comment> \<open>two transactions have begun\<close>
  "two_txs = lm_initial\<lparr>transactions := [1 \<mapsto> tx_new 1, 2 \<mapsto> tx_new 2]\<rparr>"

definition req :: "nat \<Rightarrow> transaction_id \<Rightarrow> lock_mode \<Rightarrow> bool \<Rightarrow> lock_request" where
  "req n t m g = \<lparr>req_node = n, req_tx = t, req_mode = m, req_granted = g\<rparr>"

lemma two_txs_reachable: "lm_reachable two_txs"
proof -
  have "lm_step lm_initial (lm_initial\<lparr>transactions := [1 \<mapsto> tx_new 1]\<rparr>)" (is "lm_step _ ?s")
    using lm_step.Begin[of lm_initial 1] by (simp add: lm_initial_def)
  moreover have "lm_step ?s two_txs"
    using lm_step.Begin[of ?s 2] by (simp add: lm_initial_def two_txs_def)
  ultimately show ?thesis unfolding lm_reachable_def by simp
qed

lemma not_waiting_two_txs: "\<not> waiting two_txs t"
  by (simp add: waiting_def two_txs_def lm_initial_def queue_of_def)

lemma two_txs_sel: "queue_of two_txs r = []" "transactions two_txs = [1 \<mapsto> tx_new 1, 2 \<mapsto> tx_new 2]" "next_request two_txs = 0"
  by (simp_all add: two_txs_def lm_initial_def queue_of_def)

definition first_holds :: lock_state where
  \<comment> \<open>the first of them locks the row exclusively\<close>
  "first_holds = snd (lock_exclusive id (Some 1) row_0 two_txs)"

lemma leaves_requests_id: "leaves_requests t id"
  by (simp add: leaves_requests_def)

lemma first_holds:
  "lock_exclusive id (Some 1) row_0 two_txs = (Inr True, first_holds)"
  "transactions first_holds = [1 \<mapsto> (tx_new 1)\<lparr>exclusive_locks := [row_0]\<rparr>, 2 \<mapsto> tx_new 2]"
  "queue_of first_holds r = (if r = row_0 then [req 0 1 EXCLUSIVE True] else [])" "next_request first_holds = 1"
proof -
  have r: "lock_exclusive id (Some 1) row_0 two_txs =
      (Inr True, lm_grant row_0 (req 0 1 EXCLUSIVE False) (snd (lm_enqueue 1 row_0 EXCLUSIVE two_txs)))"
    by (simp add: lock_exclusive_def bind_op_def tx_op_def two_txs_sel tx_new_def ret_op_def lm_request_def case_prod_beta
        lm_wait_def req_def)
  then show "lock_exclusive id (Some 1) row_0 two_txs = (Inr True, first_holds)" by (simp add: first_holds_def)
  show "transactions first_holds = [1 \<mapsto> (tx_new 1)\<lparr>exclusive_locks := [row_0]\<rparr>, 2 \<mapsto> tx_new 2]"
    "queue_of first_holds r = (if r = row_0 then [req 0 1 EXCLUSIVE True] else [])" "next_request first_holds = 1"
    unfolding first_holds_def r
    by (auto simp: grant_sel req_def two_txs_sel add_lock_def tx_new_def)
      (simp add: lm_grant_def two_txs_sel)
qed

lemma first_holds_reachable: "lm_reachable first_holds"
proof -
  have "transactions two_txs 1 = Some (tx_new 1)" by (simp add: two_txs_def)
  from lock_run[OF two_txs_reachable this not_waiting_two_txs leaves_requests_id, of EXCLUSIVE row_0] first_holds(1) tx_new_def
  have "lm_step\<^sup>*\<^sup>* two_txs first_holds" by (auto simp: lock_call_def)
  with two_txs_reachable show ?thesis by (rule reachable_trans)
qed

theorem mutual_exclusion_witness:
  "\<exists>s x1 x2. lm_reachable s \<and> transactions s 1 = Some x1 \<and> row_0 \<in> set (exclusive_locks x1) \<and>
     transactions s 2 = Some x2 \<and> row_0 \<notin> set (shared_locks x2) \<and> row_0 \<notin> set (exclusive_locks x2)"
proof -
  have t: "transactions first_holds 1 = Some ((tx_new 1)\<lparr>exclusive_locks := [row_0]\<rparr>)" "transactions first_holds 2 = Some (tx_new 2)"
    by (simp_all add: first_holds)
  have x: "row_0 \<in> set (exclusive_locks ((tx_new 1)\<lparr>exclusive_locks := [row_0]\<rparr>))" by simp
  from mutual_exclusion[OF first_holds_reachable t _ x] show ?thesis using first_holds_reachable t x by fastforce
qed

definition second_waits :: lock_state where
  "second_waits = snd (lm_enqueue 2 row_0 SHARED first_holds)"

lemma second_waits:
  "lm_reachable second_waits" "req 1 2 SHARED False \<in> set (queue_of second_waits row_0)" "conflicts second_waits row_0 (req 1 2 SHARED False)"
proof -
  have "lm_step first_holds second_waits"
    unfolding second_waits_def
    by (rule lm_step.Request_Shared[where x = "tx_new 2"])
      (auto simp: first_holds tx_new_def waiting_def req_def split: if_splits)
  then show "lm_reachable second_waits" using reachable_trans[OF first_holds_reachable] by blast
  show "req 1 2 SHARED False \<in> set (queue_of second_waits row_0)" by (simp add: second_waits_def first_holds req_def)
  show "conflicts second_waits row_0 (req 1 2 SHARED False)"
    unfolding conflicts_def
    by (intro exI[of _ 1] exI[of _ "(tx_new 1)\<lparr>exclusive_locks := [row_0]\<rparr>"])
      (simp add: second_waits_def first_holds req_def)
qed

theorem lock_wait_ends_witness:
  "lm_step second_waits (lm_timeout row_0 (req 1 2 SHARED False) second_waits) \<and>
   map_option tx_state (transactions (lm_timeout row_0 (req 1 2 SHARED False) second_waits) 2) = Some ABORTED"
  using lock_wait_ends[OF second_waits(1,2)] second_waits(3) by (simp add: req_def)

theorem two_phase_locking_witness:
  "\<exists>s x. lm_reachable s \<and> transactions s 2 = Some x \<and> tx_state x = ABORTED \<and>
     (\<exists>x'. transactions s 2 = Some x' \<and> tx_state x' \<noteq> GROWING)"
proof -
  let ?s = "lm_timeout row_0 (req 1 2 SHARED False) second_waits"
  have "lm_step second_waits ?s"
    using request_step[OF second_waits(1,2)] second_waits(3) by (simp add: req_def)
  then have r: "lm_reachable ?s" using reachable_trans[OF second_waits(1)] by blast
  have x: "transactions ?s 2 = Some ((tx_new 2)\<lparr>tx_state := ABORTED\<rparr>)"
    by (simp add: timeout_sel req_def second_waits_def first_holds)
  show ?thesis using two_phase_locking[OF r rtranclp.rtrancl_refl x] r x by auto
qed

theorem lock_call_refines_witness:
  "\<exists>s' x'. lock_call SHARED id (Some 2) row_0 first_holds = (Inr False, s') \<and> lm_step\<^sup>*\<^sup>* first_holds s' \<and>
     transactions s' 2 = Some x' \<and> tx_state x' = ABORTED \<and> row_0 \<notin> set (shared_locks x')"
proof -
  have t: "transactions first_holds 2 = Some (tx_new 2)" "tx_state (tx_new 2) = GROWING" by (simp_all add: first_holds tx_new_def)
  have "\<not> waiting first_holds 2" by (auto simp: waiting_def first_holds req_def split: if_splits)
  from lock_call_refines[OF first_holds_reachable t(1) this leaves_requests_id, of SHARED row_0] t(2) obtain b s' x' where
    c: "lock_call SHARED id (Some 2) row_0 first_holds = (Inr b, s')" "lm_step\<^sup>*\<^sup>* first_holds s'" "transactions s' 2 = Some x'"
      "\<not> b \<longrightarrow> tx_state x' = ABORTED \<and> row_0 \<notin> set (shared_locks x')" by auto
  have "fst (lock_call SHARED id (Some 2) row_0 first_holds) = Inr False"
    by (simp add: lock_call_def lock_shared_def bind_op_def tx_op_def first_holds tx_new_def lm_request_def case_prod_beta lm_wait_def req_def)
  then show ?thesis using c by auto
qed

end
