(* ===== verification/Table.thy ===== *)
theory Table
  imports Table_Heap Tuple Lock_Manager
begin

text \<open>
  Tables (\<open>src/table/table.cpp\<close>): the layer that turns tuples into bytes of the table heap, takes the
  record locks of a transaction and writes its undo log.

  A \<open>Table*\<close> is a number in the store \<open>table_objects\<close>: undo records keep such pointers, and the
  object can be gone when they are used. The state extends the one of the lock manager by the
  buffer pool and this store. \<open>alloc\<close> and \<open>others\<close> stand for what other threads do while
  \<open>TableHeap::insert_tuple\<close> has released its latch, and while a lock request waits.
\<close>

record table =
  tb_name :: string
  tb_first_page :: page_id
  tb_schema :: schema

record table_state = lock_state +
  ts_pool :: pool
  table_objects :: "nat \<Rightarrow> table option"
  next_table :: nat

definition on_pool :: "(pool, 'a) op \<Rightarrow> ('b table_state_scheme, 'a) op" where
  "on_pool m s = (let (r, p) = m (ts_pool s) in (r, s\<lparr>ts_pool := p\<rparr>))"

definition table_op :: "nat \<Rightarrow> ('a table_state_scheme, table) op" where
  \<comment> \<open>\<open>*table\<close>\<close>
  "table_op h s = (case table_objects s h of None \<Rightarrow> (Inl Undefined_Behaviour, s) | Some x \<Rightarrow> (Inr x, s))"

definition new_table_object :: "table \<Rightarrow> ('a table_state_scheme, nat) op" where
  \<comment> \<open>\<open>std::make_unique<Table>\<close>\<close>
  "new_table_object x s =
     (Inr (next_table s), s\<lparr>table_objects := (table_objects s)(next_table s \<mapsto> x), next_table := Suc (next_table s)\<rparr>)"

type_synonym 'a waiting_env = "'a table_state_scheme \<Rightarrow> 'a table_state_scheme"

definition locked_exclusive :: "'a waiting_env \<Rightarrow> transaction_id option \<Rightarrow> rid \<Rightarrow> ('a table_state_scheme, bool) op" where
  \<comment> \<open>\<open>tx == nullptr || lock_manager_.lock_exclusive(tx, rid)\<close>\<close>
  "locked_exclusive others tx r = (if tx = None then ret_op True else lock_exclusive others tx r)"

definition locked_shared :: "'a waiting_env \<Rightarrow> transaction_id option \<Rightarrow> rid \<Rightarrow> ('a table_state_scheme, bool) op" where
  "locked_shared others tx r = (if tx = None then ret_op True else lock_shared others tx r)"

definition log_undo :: "transaction_id option \<Rightarrow> undo_record \<Rightarrow> ('a table_state_scheme, unit) op" where
  "log_undo tx u = (case tx of None \<Rightarrow> ret_op () | Some t \<Rightarrow> modify_op (push_undo t u))"

section \<open>Operations on one tuple\<close>

definition table_insert_tuple ::
  "(pool, unit) op \<Rightarrow> 'a waiting_env \<Rightarrow> nat \<Rightarrow> tuple \<Rightarrow> transaction_id option \<Rightarrow> ('a table_state_scheme, rid option) op" where
  "table_insert_tuple alloc others h t tx =
     bind_op (table_op h) (\<lambda>tb.
       if \<not> schema_compatible_with (tb_schema tb) (t_schema t)
       then throw_op (Runtime_Error ''Table::insert_tuple: schemas not compatible'')
       else
         bind_op (lift_op (tuple_serialize t)) (\<lambda>bytes.
         bind_op (on_pool (heap_insert_tuple alloc (tb_first_page tb) bytes)) (\<lambda>rid.
           case rid of
             None \<Rightarrow> ret_op None
           | Some r \<Rightarrow>
               bind_op (locked_exclusive others tx r) (\<lambda>locked.
                 if \<not> locked then bind_op (on_pool (heap_delete_tuple r)) (\<lambda>_. ret_op None)
                 else bind_op (log_undo tx (Delete_Undo_Record h r)) (\<lambda>_. ret_op (Some r))))))"

definition table_get_tuple ::
  "'a waiting_env \<Rightarrow> nat \<Rightarrow> rid \<Rightarrow> transaction_id option \<Rightarrow> ('a table_state_scheme, tuple option) op" where
  "table_get_tuple others h r tx =
     bind_op (table_op h) (\<lambda>tb.
     bind_op (locked_shared others tx r) (\<lambda>locked.
       if \<not> locked then ret_op None
       else
         bind_op (on_pool (heap_get_tuple r)) (\<lambda>bytes.
           case bytes of
             None \<Rightarrow> ret_op None
           | Some bs \<Rightarrow> bind_op (lift_op (tuple_of_bytes bs (tb_schema tb))) (\<lambda>t. ret_op (Some t)))))"

definition table_delete_tuple ::
  "'a waiting_env \<Rightarrow> nat \<Rightarrow> rid \<Rightarrow> transaction_id option \<Rightarrow> ('a table_state_scheme, bool) op" where
  "table_delete_tuple others h r tx =
     bind_op (table_op h) (\<lambda>tb.
     bind_op (locked_exclusive others tx r) (\<lambda>locked.
       if \<not> locked then ret_op False
       else
         bind_op (on_pool (heap_get_tuple r)) (\<lambda>bytes.
           case bytes of
             None \<Rightarrow> ret_op False
           | Some bs \<Rightarrow>
               bind_op (on_pool (heap_delete_tuple r)) (\<lambda>deleted.
                 if \<not> deleted then ret_op False
                 else bind_op (log_undo tx (Restore_Undo_Record h r bs)) (\<lambda>_. ret_op True)))))"

definition table_update_tuple ::
  "(pool, unit) op \<Rightarrow> 'a waiting_env \<Rightarrow> nat \<Rightarrow> rid \<Rightarrow> tuple \<Rightarrow> transaction_id option \<Rightarrow> ('a table_state_scheme, rid option) op" where
  "table_update_tuple alloc others h r t tx =
     bind_op (table_op h) (\<lambda>tb.
       if \<not> schema_compatible_with (tb_schema tb) (t_schema t)
       then throw_op (Runtime_Error ''Table::update_tuple: schemas not compatible'')
       else
         bind_op (locked_exclusive others tx r) (\<lambda>locked.
           if \<not> locked then ret_op None
           else
             bind_op (on_pool (heap_get_tuple r)) (\<lambda>old.
               case old of
                 None \<Rightarrow> ret_op None
               | Some old_bytes \<Rightarrow>
                   bind_op (lift_op (tuple_serialize t)) (\<lambda>bytes.
                   bind_op (on_pool (heap_update_tuple alloc (tb_first_page tb) r bytes)) (\<lambda>ret_rid.
                     case ret_rid of
                       None \<Rightarrow> ret_op None
                     | Some r' \<Rightarrow>
                         bind_op (if r' \<noteq> r then locked_exclusive others tx r' else ret_op True) (\<lambda>locked.
                           if \<not> locked then ret_op None
                           else
                             bind_op (log_undo tx (Restore_Undo_Record h r old_bytes)) (\<lambda>_.
                             bind_op (log_undo tx (Delete_Undo_Record h (if r' \<noteq> r then r' else r))) (\<lambda>_.
                             ret_op (Some r')))))))))"

section \<open>Dropping the pages\<close>

datatype drop_table_status = READ_PAGES_FAILED | DROP_SUCCESS

fun drop_all :: "page_id list \<Rightarrow> nat \<Rightarrow> (pool, nat) op" where
  "drop_all [] failed = ret_op failed"
| "drop_all (p # ps) failed =
     bind_op (heap_drop_page p) (\<lambda>dropped. drop_all ps (if dropped then failed else Suc failed))"

definition table_drop_pages :: "nat \<Rightarrow> ('a table_state_scheme, nat \<times> drop_table_status) op" where
  "table_drop_pages h =
     bind_op (table_op h) (\<lambda>tb.
     bind_op (on_pool (heap_all_pages (tb_first_page tb))) (\<lambda>(page_ids, status).
       if status = FAILED then ret_op (0, READ_PAGES_FAILED)
       else bind_op (on_pool (drop_all page_ids 0)) (\<lambda>failed. ret_op (failed, DROP_SUCCESS))))"

section \<open>The cursor\<close>

record table_scan =
  ts_heap_scan :: heap_scan
  ts_schema :: schema
  ts_tx :: "transaction_id option"

definition table_scan_begin :: "nat \<Rightarrow> transaction_id option \<Rightarrow> ('a table_state_scheme, table_scan) op" where
  "table_scan_begin h tx =
     bind_op (table_op h) (\<lambda>tb.
     bind_op (on_pool (heap_scan_begin (tb_first_page tb))) (\<lambda>sc.
     ret_op \<lparr>ts_heap_scan = sc, ts_schema = tb_schema tb, ts_tx = tx\<rparr>))"

definition table_scan_next ::
  "'a waiting_env \<Rightarrow> table_scan \<Rightarrow> ('a table_state_scheme, (rid \<times> tuple) option \<times> table_scan) op" where
  "table_scan_next others sc =
     bind_op (locked_shared others (ts_tx sc) (heap_scan_next_rid (ts_heap_scan sc))) (\<lambda>locked.
       if \<not> locked then ret_op (None, sc)
       else
         bind_op (on_pool (heap_scan_next (ts_heap_scan sc))) (\<lambda>(result, hs).
         let sc' = sc\<lparr>ts_heap_scan := hs\<rparr> in
           case result of
             None \<Rightarrow> ret_op (None, sc')
           | Some (r, bs) \<Rightarrow>
               bind_op (lift_op (tuple_of_bytes bs (ts_schema sc))) (\<lambda>t. ret_op (Some (r, t), sc'))))"

definition table_scan_end :: "table_scan \<Rightarrow> ('a table_state_scheme, unit) op" where
  "table_scan_end sc = on_pool (heap_scan_end (ts_heap_scan sc))"

end
