(* ===== verification/Table_Laws.thy ===== *)
theory Table_Laws
  imports Heap_Spec Tuple_Laws Lock_Laws Table
begin

text \<open>
  What the operations of a table do to its rows, its locks and the undo log of the transaction. \<open>table_at\<close> is the
  well-formedness of a table with its pages, \<open>rows_at\<close> its abstract contents, a map from record identifiers to
  bytes; \<open>lock_free\<close> says that a lock request is granted at once. Operations on locks and logs leave the data
  alone (\<open>same_data\<close>) and operations on the pool leave the locks alone.
\<close>

section \<open>Locks and logs leave the data alone\<close>

definition same_data :: "'a lock_state_scheme \<Rightarrow> 'a lock_state_scheme \<Rightarrow> bool" where
  "same_data s s' \<longleftrightarrow> lock_state.more s' = lock_state.more s"

lemma same_data_more:
  "lock_state.more (put_queue r q s) = lock_state.more s" "lock_state.more (update_tx t f s) = lock_state.more s"
  "lock_state.more (remove_and_notify r t s) = lock_state.more s"
  "lock_state.more (fold (\<lambda>r. remove_and_notify r t) rs s) = lock_state.more s"
  "lock_state.more (lm_grant r request s) = lock_state.more s" "lock_state.more (lm_drop_shared t r s) = lock_state.more s"
  "lock_state.more (snd (lm_enqueue t r m s)) = lock_state.more s" "lock_state.more (set_state t st s) = lock_state.more s"
  "lock_state.more (push_undo t u s) = lock_state.more s"
proof -
  show a: "lock_state.more (put_queue r q s) = lock_state.more s" for r q s by (simp add: put_queue_def)
  show b: "lock_state.more (update_tx t f s) = lock_state.more s" for f s by (simp add: update_tx_def split: option.split)
  show c: "lock_state.more (remove_and_notify r t s) = lock_state.more s" for r s
    by (simp add: remove_and_notify_def a split: option.split)
  show "lock_state.more (fold (\<lambda>r. remove_and_notify r t) rs s) = lock_state.more s"
    by (induction rs arbitrary: s) (simp_all add: c)
qed (simp_all add: lm_grant_def lm_drop_shared_def lm_enqueue_def set_state_def push_undo_def update_tx_def put_queue_def Let_def
    split: option.split)

lemma same_dataD:
  fixes s :: "'a table_state_scheme"
  assumes "same_data s s'"
  shows "ts_pool s' = ts_pool s" "table_objects s' = table_objects s" "next_table s' = next_table s"
    "table_state.more s' = table_state.more s"
  using assms by (cases s; cases s'; simp add: same_data_def lock_state.defs table_state.defs)+

definition lock_free :: "'a lock_state_scheme \<Rightarrow> transaction_id option \<Rightarrow> rid \<Rightarrow> bool" where
  \<comment> \<open>the transaction is growing and no other one holds the record\<close>
  "lock_free s tx r \<longleftrightarrow>
     (case tx of
        None \<Rightarrow> True
      | Some t \<Rightarrow> (\<exists>x. transactions s t = Some x \<and> tx_state x = GROWING) \<and>
          (\<forall>q\<in>set (queue_of s r). req_granted q \<longrightarrow> req_tx q = t))"

definition nodes_old :: "'a lock_state_scheme \<Rightarrow> bool" where
  "nodes_old s \<longleftrightarrow> (\<forall>r. \<forall>q\<in>set (queue_of s r). req_node q < next_request s)"

definition other_locks :: "'a lock_state_scheme \<Rightarrow> transaction_id option \<Rightarrow> rid \<Rightarrow> lock_request set" where
  "other_locks s tx r = {q \<in> set (queue_of s r). req_granted q \<and> tx \<noteq> Some (req_tx q)}"

lemma other_locks_simps:
  assumes "lm_enqueue t r m u = (q, v)" "nodes_old u"
  shows "other_locks (lm_grant r q v) (Some t) = other_locks u (Some t)"
proof (rule ext)
  fix r'
  have q: "q = \<lparr>req_node = next_request u, req_tx = t, req_mode = m, req_granted = False\<rparr>"
    "v = (put_queue r (queue_of u r @ [q]) u)\<lparr>next_request := Suc (next_request u)\<rparr>"
    using assms(1) by (auto simp: lm_enqueue_def Let_def)
  have "map (\<lambda>x. if req_node x = next_request u then x\<lparr>req_granted := True\<rparr> else x) (queue_of u r) = queue_of u r"
    by (rule map_idI) (use assms(2) in \<open>force simp: nodes_old_def\<close>)
  moreover have "queue_of v r = queue_of u r @ [q]" "\<And>r'. r' \<noteq> r \<Longrightarrow> queue_of v r' = queue_of u r'" by (simp_all add: q(2))
  ultimately show "other_locks (lm_grant r q v) (Some t) r' = other_locks u (Some t) r'"
    by (auto simp: other_locks_def lm_grant_def q(1))
qed

lemma grant_nodes_old:
  assumes "lm_enqueue t r m u = (q, v)" "nodes_old u"
  shows "nodes_old (lm_grant r q v)"
proof -
  have v: "v = (put_queue r (queue_of u r @ [q]) u)\<lparr>next_request := Suc (next_request u)\<rparr>" "req_node q = next_request u"
    using assms(1) by (auto simp: lm_enqueue_def Let_def)
  have "next_request (lm_grant r q v) = Suc (next_request u)" by (simp add: lm_grant_def v(1))
  moreover have "\<forall>x\<in>set (queue_of (lm_grant r q v) r'). req_node x < Suc (next_request u)" for r'
    using assms(2) v(2) by (auto simp: lm_grant_def v(1) nodes_old_def less_Suc_eq)
  ultimately show ?thesis by (simp add: nodes_old_def)
qed

lemma drop_shared_other: "nodes_old s \<Longrightarrow> nodes_old (lm_drop_shared t r s)" "other_locks (lm_drop_shared t r s) (Some t) = other_locks s (Some t)"
  by (auto simp: nodes_old_def other_locks_def lm_drop_shared_def fun_eq_iff)

definition tx_log :: "'a lock_state_scheme \<Rightarrow> transaction_id option \<Rightarrow> undo_record list" where
  "tx_log s tx = (case tx of None \<Rightarrow> [] | Some t \<Rightarrow> (case transactions s t of None \<Rightarrow> [] | Some x \<Rightarrow> undo_log x))"

lemma lock_exclusive_free:
  assumes "transactions s t = Some x" "tx_state x = GROWING" "\<forall>q\<in>set (queue_of s r). req_granted q \<longrightarrow> req_tx q = t"
  obtains s' x' where "lock_exclusive others (Some t) r s = (Inr True, s')" "same_data s s'" "transactions s' t = Some x'"
    "tx_state x' = GROWING" "undo_log x' = undo_log x" "r \<in> set (exclusive_locks x')"
    "set (exclusive_locks x') = insert r (set (exclusive_locks x))" "set (shared_locks x') \<subseteq> set (shared_locks x)"
    "\<And>t'. t' \<noteq> t \<Longrightarrow> transactions s' t' = transactions s t'"
    "nodes_old s \<Longrightarrow> other_locks s' (Some t) = other_locks s (Some t) \<and> nodes_old s'"
proof (cases "r \<in> set (exclusive_locks x)")
  case True
  then have "lock_exclusive others (Some t) r s = (Inr True, s)"
    using assms(1,2) by (simp add: lock_exclusive_def bind_op_def tx_op_def ret_op_def)
  then show ?thesis by (rule that[of s x]) (use assms True in \<open>auto simp: same_data_def\<close>)
next
  case False
  define u where "u = (if r \<in> set (shared_locks x) then lm_drop_shared t r s else s)"
  obtain q v where e: "lm_enqueue t r EXCLUSIVE u = (q, v)" by (cases "lm_enqueue t r EXCLUSIVE u")
  have q: "q = \<lparr>req_node = next_request u, req_tx = t, req_mode = EXCLUSIVE, req_granted = False\<rparr>"
    "v = (put_queue r (queue_of u r @ [q]) u)\<lparr>next_request := Suc (next_request u)\<rparr>"
    using e by (auto simp: lm_enqueue_def Let_def)
  have qu: "\<forall>q\<in>set (queue_of u r). req_granted q \<longrightarrow> req_tx q = t"
    using assms(3) by (auto simp: u_def lm_drop_shared_def)
  have "can_grant (queue_of v r) q" using qu by (auto simp: can_grant_iff q queue_of_def put_queue_def)
  then have run: "lock_exclusive others (Some t) r s = (Inr True, lm_grant r q v)"
    using assms(1,2) False e
    by (cases "r \<in> set (shared_locks x)")
      (simp_all add: lock_exclusive_def bind_op_def tx_op_def ret_op_def modify_op_def lm_request_def lm_wait_def u_def)
  define y where "y = (if r \<in> set (shared_locks x) then x\<lparr>shared_locks := remove1 r (shared_locks x)\<rparr> else x)"
  have y: "transactions u t = Some y" "\<And>t'. t' \<noteq> t \<Longrightarrow> transactions u t' = transactions s t'"
    using assms(1) by (auto simp: u_def y_def lm_drop_shared_def)
  have tv: "transactions v = transactions u" by (simp add: q(2))
  show ?thesis
  proof (rule that[of "lm_grant r q v" "add_lock EXCLUSIVE r y"])
    show "same_data s (lm_grant r q v)" by (simp add: same_data_def same_data_more q(2) u_def)
    show "transactions (lm_grant r q v) t = Some (add_lock EXCLUSIVE r y)"
      using y tv by (simp add: lm_grant_def q(1))
    show "transactions (lm_grant r q v) t' = transactions s t'" if "t' \<noteq> t" for t'
      using y tv that by (simp add: lm_grant_def q(1))
    show "other_locks (lm_grant r q v) (Some t) = other_locks s (Some t) \<and> nodes_old (lm_grant r q v)" if "nodes_old s"
    proof -
      have "nodes_old u" "other_locks u (Some t) = other_locks s (Some t)"
        using drop_shared_other(1)[of s t r] drop_shared_other(2)[of t r s] that by (simp_all add: u_def)
      then show ?thesis using other_locks_simps[OF e] grant_nodes_old[OF e] by simp
    qed
  qed (use run assms in \<open>auto simp: y_def add_lock_def dest: set_remove1_subset[THEN subsetD] split: if_splits\<close>)
qed

definition shared_free :: "'a lock_state_scheme \<Rightarrow> transaction_id option \<Rightarrow> bool" where
  \<comment> \<open>the transaction is growing and no other one holds a record exclusively\<close>
  "shared_free s tx \<longleftrightarrow>
     (case tx of
        None \<Rightarrow> True
      | Some t \<Rightarrow> (\<exists>x. transactions s t = Some x \<and> tx_state x = GROWING) \<and> nodes_old s \<and>
          (\<forall>r. \<forall>q\<in>set (queue_of s r). req_granted q \<longrightarrow> req_mode q = EXCLUSIVE \<longrightarrow> req_tx q = t))"

lemma lock_shared_free:
  assumes "shared_free s (Some t)"
  obtains s' where "lock_shared others (Some t) r s = (Inr True, s')" "same_data s s'" "shared_free s' (Some t)"
    "tx_log s' (Some t) = tx_log s (Some t)"
proof -
  obtain x where x: "transactions s t = Some x" "tx_state x = GROWING" using assms by (auto simp: shared_free_def)
  have f: "nodes_old s" "\<And>r q. q \<in> set (queue_of s r) \<Longrightarrow> req_granted q \<Longrightarrow> req_mode q = EXCLUSIVE \<Longrightarrow> req_tx q = t"
    using assms by (auto simp: shared_free_def)
  show ?thesis
  proof (cases "r \<in> set (shared_locks x) \<or> r \<in> set (exclusive_locks x)")
    case True
    then have "lock_shared others (Some t) r s = (Inr True, s)" using x by (simp add: lock_shared_def bind_op_def tx_op_def ret_op_def)
    then show ?thesis by (rule that) (use assms in \<open>simp_all add: same_data_def\<close>)
  next
    case False
    obtain q v where e: "lm_enqueue t r SHARED s = (q, v)" by (cases "lm_enqueue t r SHARED s")
    have q: "q = \<lparr>req_node = next_request s, req_tx = t, req_mode = SHARED, req_granted = False\<rparr>"
      "v = (put_queue r (queue_of s r @ [q]) s)\<lparr>next_request := Suc (next_request s)\<rparr>"
      using e by (auto simp: lm_enqueue_def Let_def)
    have qv: "queue_of v r = queue_of s r @ [q]" "\<And>r'. r' \<noteq> r \<Longrightarrow> queue_of v r' = queue_of s r'" by (simp_all add: q(2))
    have "can_grant (queue_of v r) q"
      unfolding can_grant_iff
    proof (intro ballI impI)
      fix z
      assume z: "z \<in> set (queue_of v r)" "req_granted z" "req_tx z \<noteq> req_tx q"
      then have "z \<in> set (queue_of s r)" using qv(1) q(1) by auto
      then have "req_mode z \<noteq> EXCLUSIVE" using f(2) z(2,3) q(1) by auto
      then show "req_mode q = SHARED \<and> req_mode z = SHARED" using q(1) by (cases "req_mode z") auto
    qed
    then have run: "lock_shared others (Some t) r s = (Inr True, lm_grant r q v)"
      using x False e by (simp add: lock_shared_def bind_op_def tx_op_def lm_request_def lm_wait_def)
    have tr: "transactions (lm_grant r q v) t = Some (add_lock SHARED r x)" using x(1) by (simp add: lm_grant_def q)
    have ex: "req_tx z = t" if "z \<in> set (queue_of (lm_grant r q v) r')" "req_granted z" "req_mode z = EXCLUSIVE" for z r'
    proof -
      have "map (\<lambda>x. if req_node x = next_request s then x\<lparr>req_granted := True\<rparr> else x) (queue_of s r) = queue_of s r"
        by (rule map_idI) (use f(1) in \<open>force simp: nodes_old_def\<close>)
      then have "queue_of (lm_grant r q v) r = queue_of s r @ [q\<lparr>req_granted := True\<rparr>]" using qv(1) by (simp add: lm_grant_def q(1))
      moreover have "queue_of (lm_grant r q v) r' = queue_of s r'" if "r' \<noteq> r" using qv(2)[OF that] that by (simp add: lm_grant_def)
      ultimately have "z \<in> set (queue_of s r') \<or> req_mode z = SHARED" using that(1) q(1) by (cases "r' = r") auto
      then show ?thesis using f(2) that(2,3) by auto
    qed
    show ?thesis
    proof (rule that[OF run])
      show "same_data s (lm_grant r q v)" by (simp add: same_data_def same_data_more q(2))
      have "nodes_old (lm_grant r q v)" by (rule grant_nodes_old[OF e f(1)])
      then show "shared_free (lm_grant r q v) (Some t)" using tr x(2) ex by (auto simp: shared_free_def add_lock_def)
      show "tx_log (lm_grant r q v) (Some t) = tx_log s (Some t)" using tr x(1) by (simp add: tx_log_def add_lock_def)
    qed
  qed
qed

section \<open>Tables\<close>

definition table_at :: "'a table_state_scheme \<Rightarrow> nat \<Rightarrow> table \<Rightarrow> page_id list \<Rightarrow> bool" where
  \<comment> \<open>the object exists, has columns, and its pages form a well-formed heap\<close>
  "table_at s h tb ps \<longleftrightarrow>
     table_objects s h = Some tb \<and> columns (tb_schema tb) \<noteq> [] \<and> heap_inv (ts_pool s) (tb_first_page tb) ps"

definition rows_at :: "'a table_state_scheme \<Rightarrow> page_id list \<Rightarrow> rid \<Rightarrow> byte list option" where
  "rows_at s ps = heap_map (pool_page (ts_pool s)) ps"

lemma same_data_table:
  assumes "same_data s s'"
  shows "table_at s' h tb ps = table_at s h tb ps" "rows_at s' ps = rows_at s ps"
  using same_dataD[OF assms] by (simp_all add: table_at_def rows_at_def)

lemma on_pool_run: "m (ts_pool s) = (x, p) \<Longrightarrow> on_pool m s = (x, s\<lparr>ts_pool := p\<rparr>)"
  by (simp add: on_pool_def)

lemma ts_pool_update [simp]:
  "queue_of (s\<lparr>ts_pool := p\<rparr>) = queue_of s" "tx_log (s\<lparr>ts_pool := p\<rparr>) = tx_log s"
  by (simp_all add: queue_of_def tx_log_def fun_eq_iff split: option.split)

lemma lock_free_pool [simp]: "lock_free (s\<lparr>ts_pool := p\<rparr>) = lock_free s"
  by (simp add: lock_free_def fun_eq_iff split: option.split)

lemma shared_free_pool [simp]: "shared_free (s\<lparr>ts_pool := p\<rparr>) = shared_free s"
  by (simp add: shared_free_def nodes_old_def fun_eq_iff split: option.split)

lemma shared_free_none: "shared_free s None"
  by (simp add: shared_free_def)

lemma locked_shared_free:
  assumes "shared_free s tx"
  obtains s' where "locked_shared others tx r s = (Inr True, s')" "same_data s s'" "shared_free s' tx" "tx_log s' tx = tx_log s tx"
    "tx = None \<Longrightarrow> s' = s"
proof (cases tx)
  case None
  then show ?thesis using assms by (intro that[of s]) (simp_all add: locked_shared_def ret_op_def same_data_def)
next
  case (Some t)
  with assms have f: "shared_free s (Some t)" by simp
  obtain s' where "lock_shared others (Some t) r s = (Inr True, s')" "same_data s s'" "shared_free s' (Some t)"
    "tx_log s' (Some t) = tx_log s (Some t)"
    by (rule lock_shared_free[OF f, of others r])
  with Some show ?thesis by (intro that[of s']) (simp_all add: locked_shared_def)
qed

lemma locked_exclusive_free:
  assumes "lock_free s tx r"
  obtains s' where "locked_exclusive others tx r s = (Inr True, s')" "same_data s s'" "tx_log s' tx = tx_log s tx"
    "tx \<noteq> None \<longrightarrow> (\<exists>x. transactions s' (the tx) = Some x \<and> tx_state x = GROWING \<and> r \<in> set (exclusive_locks x))"
    "\<And>t. tx \<noteq> Some t \<Longrightarrow> transactions s' t = transactions s t"
    "nodes_old s \<Longrightarrow> other_locks s' tx = other_locks s tx \<and> nodes_old s'"
proof (cases tx)
  case None
  then show ?thesis
    by (intro that[of s]) (simp_all add: locked_exclusive_def ret_op_def same_data_def)
next
  case (Some t)
  then obtain x where x: "transactions s t = Some x" "tx_state x = GROWING"
    "\<forall>q\<in>set (queue_of s r). req_granted q \<longrightarrow> req_tx q = t"
    using assms by (auto simp: lock_free_def)
  obtain s' x' where "lock_exclusive others (Some t) r s = (Inr True, s')" "same_data s s'" "transactions s' t = Some x'"
    "tx_state x' = GROWING" "undo_log x' = undo_log x" "r \<in> set (exclusive_locks x')"
    "\<And>t'. t' \<noteq> t \<Longrightarrow> transactions s' t' = transactions s t'"
    "nodes_old s \<Longrightarrow> other_locks s' (Some t) = other_locks s (Some t) \<and> nodes_old s'"
    by (rule lock_exclusive_free[OF x, of others], rule that)
  then show ?thesis using x Some by (intro that[of s']) (simp_all add: locked_exclusive_def tx_log_def)
qed

lemma log_undo_run:
  assumes "tx \<noteq> None \<longrightarrow> transactions s (the tx) \<noteq> None"
  obtains s' where "log_undo tx u s = (Inr (), s')" "same_data s s'" "tx \<noteq> None \<longrightarrow> tx_log s' tx = tx_log s tx @ [u]"
    "\<And>t. tx \<noteq> Some t \<Longrightarrow> transactions s' t = transactions s t" "queue_of s' = queue_of s" "next_request s' = next_request s"
    "tx \<noteq> None \<longrightarrow> transactions s' (the tx) =
       map_option (\<lambda>x. x\<lparr>undo_log := undo_log x @ [u]\<rparr>) (transactions s (the tx))"
proof (cases tx)
  case None
  then show ?thesis by (intro that[of s]) (simp_all add: log_undo_def ret_op_def same_data_def)
next
  case (Some t)
  then show ?thesis using assms
    by (intro that[of "push_undo t u s"])
      (auto simp: log_undo_def modify_op_def same_data_def same_data_more push_undo_def tx_log_def)
qed

section \<open>Inserting and reading\<close>

lemma compatible_eq: "schema_compatible_with a b \<longleftrightarrow> b = a"
proof -
  have "column_eq c d \<longleftrightarrow> c = d" for c d by (cases c; cases d) (auto simp: column_eq_def)
  then show ?thesis
    by (cases a; cases b) (auto simp: schema_compatible_with_def list.rel_eq[unfolded fun_eq_iff] fun_eq_iff list_all2_conv_all_nth nth_equalityI)
qed

definition other_txs :: "'a lock_state_scheme \<Rightarrow> transaction_id option \<Rightarrow> transaction_id \<Rightarrow> transaction option" where
  "other_txs s tx t = (if tx = Some t then None else transactions s t)"

definition tx_holds :: "'a lock_state_scheme \<Rightarrow> transaction_id option \<Rightarrow> rid \<Rightarrow> bool" where
  \<comment> \<open>the transaction, if there is one, is growing and has the record exclusively\<close>
  "tx_holds s tx r \<longleftrightarrow>
     (case tx of None \<Rightarrow> True
      | Some t \<Rightarrow> \<exists>x. transactions s t = Some x \<and> tx_state x = GROWING \<and> r \<in> set (exclusive_locks x))"

lemma lock_and_log:
  assumes "lock_free s tx r"
  obtains s1 s2 where "locked_exclusive others tx r s = (Inr True, s1)" "same_data s s1" "log_undo tx u s1 = (Inr (), s2)"
    "same_data s s2" "tx_log s2 tx = tx_log s tx @ (if tx = None then [] else [u])" "tx_holds s2 tx r"
    "other_txs s2 tx = other_txs s tx" "nodes_old s \<Longrightarrow> other_locks s2 tx = other_locks s tx \<and> nodes_old s2"
proof -
  obtain s1 where a: "locked_exclusive others tx r s = (Inr True, s1)" "same_data s s1" "tx_log s1 tx = tx_log s tx"
    "tx \<noteq> None \<longrightarrow> (\<exists>x. transactions s1 (the tx) = Some x \<and> tx_state x = GROWING \<and> r \<in> set (exclusive_locks x))"
    "\<And>t. tx \<noteq> Some t \<Longrightarrow> transactions s1 t = transactions s t"
    "nodes_old s \<Longrightarrow> other_locks s1 tx = other_locks s tx \<and> nodes_old s1"
    by (rule locked_exclusive_free[OF assms, of others], rule that)
  have ex: "tx \<noteq> None \<longrightarrow> transactions s1 (the tx) \<noteq> None" using a(4) by auto
  obtain s2 where b: "log_undo tx u s1 = (Inr (), s2)" "same_data s1 s2" "tx \<noteq> None \<longrightarrow> tx_log s2 tx = tx_log s1 tx @ [u]"
    "\<And>t. tx \<noteq> Some t \<Longrightarrow> transactions s2 t = transactions s1 t" "queue_of s2 = queue_of s1" "next_request s2 = next_request s1"
    "tx \<noteq> None \<longrightarrow> transactions s2 (the tx) = map_option (\<lambda>x. x\<lparr>undo_log := undo_log x @ [u]\<rparr>) (transactions s1 (the tx))"
    by (rule log_undo_run[OF ex, of u], rule that)
  show ?thesis
  proof (rule that[OF a(1,2) b(1)])
    show "same_data s s2" using a(2) b(2) by (simp add: same_data_def)
    show "tx_log s2 tx = tx_log s tx @ (if tx = None then [] else [u])"
      using a(3) b(3) by (auto simp: tx_log_def)
    show "other_locks s2 tx = other_locks s tx \<and> nodes_old s2" if "nodes_old s"
      using a(6)[OF that] b(5,6) by (simp add: other_locks_def nodes_old_def fun_eq_iff)
    show "tx_holds s2 tx r" using a(4) b(7) by (auto simp: tx_holds_def split: option.split)
    show "other_txs s2 tx = other_txs s tx" using a(5) b(4) by (auto simp: other_txs_def fun_eq_iff)
  qed
qed

lemma table_insert_spec:
  fixes s :: "'a table_state_scheme"
  assumes "table_at s h tb ps" "t_schema t = tb_schema tb" "tuple_serialize t = Inr raw" "length raw \<le> MAX_TUPLE_SIZE"
    "pool_room 2 (ts_pool s)" "disk_alloc (pool_disk (ts_pool s))" "\<And>r. rows_at s ps r = None \<Longrightarrow> lock_free s tx r"
  obtains r s' ns where "table_insert_tuple (ret_op ()) others h t tx s = (Inr (Some r), s')" "table_at s' h tb (ps @ ns)"
    "rows_at s ps r = None" "rows_at s' (ps @ ns) = (rows_at s ps)(r \<mapsto> raw)" "rid_page_id r \<in> set (ps @ ns)"
    "heap_frame (set (ps @ ns)) (ts_pool s) (ts_pool s')" "pool_used (ts_pool s') = pool_used (ts_pool s) \<union> set ns"
    "tx_log s' tx = tx_log s tx @ (if tx = None then [] else [Delete_Undo_Record h r])" "tx_holds s' tx r"
    "other_txs s' tx = other_txs s tx" "table_objects s' = table_objects s" "table_state.more s' = table_state.more s"
    "length ns \<le> 1" "set ns \<inter> pool_used (ts_pool s) = {}" "next_table s' = next_table s"
    "nodes_old s \<Longrightarrow> other_locks s' tx = other_locks s tx \<and> nodes_old s'"
proof -
  have tb: "table_objects s h = Some tb" "columns (tb_schema tb) \<noteq> []" "heap_inv (ts_pool s) (tb_first_page tb) ps"
    using assms(1) by (simp_all add: table_at_def)
  obtain r p ns where i: "heap_insert_tuple (ret_op ()) (tb_first_page tb) raw (ts_pool s) = (Inr (Some r), p)"
    "heap_inv p (tb_first_page tb) (ps @ ns)" "inserted (ts_pool s) p (tb_first_page tb) ps ns raw r"
    by (rule heap_insert_spec[OF tb(3) assms(4-6)], rule that)
  let ?s1 = "s\<lparr>ts_pool := p\<rparr>"
  have free: "rows_at s ps r = None" using i(3) by (simp add: inserted_def rows_at_def)
  have lf: "lock_free ?s1 tx r" using assms(7)[OF free] by simp
  obtain s2 s3 where l: "locked_exclusive others tx r ?s1 = (Inr True, s2)" "same_data ?s1 s2"
    "log_undo tx (Delete_Undo_Record h r) s2 = (Inr (), s3)"
    "same_data ?s1 s3" "tx_log s3 tx = tx_log ?s1 tx @ (if tx = None then [] else [Delete_Undo_Record h r])" "tx_holds s3 tx r"
    "other_txs s3 tx = other_txs ?s1 tx" "nodes_old ?s1 \<Longrightarrow> other_locks s3 tx = other_locks ?s1 tx \<and> nodes_old s3"
    by (rule lock_and_log[OF lf, of others "Delete_Undo_Record h r"], rule that)
  note d = same_dataD[OF l(4)]
  have "table_insert_tuple (ret_op ()) others h t tx s = (Inr (Some r), s3)"
    using tb(1) assms(2,3) i(1) l(1,3)
    by (simp add: table_insert_tuple_def bind_op_def table_op_def compatible_eq lift_op_def on_pool_def ret_op_def)
  then show ?thesis
  proof (rule that)
    show "other_txs s3 tx = other_txs s tx" using l(7) by (simp add: other_txs_def fun_eq_iff)
    show "other_locks s3 tx = other_locks s tx \<and> nodes_old s3" if "nodes_old s"
      using l(8) that by (simp add: other_locks_def nodes_old_def fun_eq_iff)
  qed (use tb i d l free in \<open>auto simp: table_at_def rows_at_def inserted_def\<close>)
qed

lemma table_get_spec:
  fixes s :: "'a table_state_scheme"
  assumes "table_at s h tb ps" "rid_page_id r \<in> set ps" "pool_room (Suc k) (ts_pool s)" "rows_at s ps r = Some raw" "raw \<noteq> []"
  obtains s' where "table_get_tuple others h r None s = (map_sum id Some (tuple_of_bytes raw (tb_schema tb)), s')"
    "table_at s' h tb ps" "rows_at s' ps = rows_at s ps" "heap_frame {} (ts_pool s) (ts_pool s')"
proof -
  have tb: "table_objects s h = Some tb" "columns (tb_schema tb) \<noteq> []" "heap_inv (ts_pool s) (tb_first_page tb) ps"
    using assms(1) by (simp_all add: table_at_def)
  obtain p where g: "heap_get_tuple r (ts_pool s) = (Inr (case heap_map (pool_page (ts_pool s)) ps r of None \<Rightarrow> None
      | Some t \<Rightarrow> if t = [] then None else Some t), p)"
    "heap_inv p (tb_first_page tb) ps" "heap_frame {} (ts_pool s) p" "heap_map (pool_page p) ps = heap_map (pool_page (ts_pool s)) ps"
    by (rule heap_get_spec[OF tb(3) assms(2,3)])
  have "heap_get_tuple r (ts_pool s) = (Inr (Some raw), p)" using g(1) assms(4,5) by (simp add: rows_at_def)
  then have "table_get_tuple others h r None s = (map_sum id Some (tuple_of_bytes raw (tb_schema tb)), s\<lparr>ts_pool := p\<rparr>)"
    using tb(1) by (cases "tuple_of_bytes raw (tb_schema tb)")
      (simp_all add: table_get_tuple_def bind_op_def table_op_def locked_shared_def ret_op_def on_pool_def lift_op_def)
  then show ?thesis by (rule that) (use tb g in \<open>simp_all add: table_at_def rows_at_def\<close>)
qed

section \<open>Deleting\<close>

lemma table_delete_spec:
  fixes s :: "'a table_state_scheme"
  assumes "table_at s h tb ps" "rid_page_id r \<in> set ps" "pool_room (Suc k) (ts_pool s)" "rows_at s ps r = Some raw" "raw \<noteq> []"
    "lock_free s tx r"
  obtains s' where "table_delete_tuple others h r tx s = (Inr True, s')" "table_at s' h tb ps"
    "rows_at s' ps = (rows_at s ps)(r := None)" "heap_frame {rid_page_id r} (ts_pool s) (ts_pool s')"
    "tx_log s' tx = tx_log s tx @ (if tx = None then [] else [Restore_Undo_Record h r raw])" "tx_holds s' tx r"
    "other_txs s' tx = other_txs s tx" "table_objects s' = table_objects s" "table_state.more s' = table_state.more s"
    "pool_dirty (ts_pool s') (rid_page_id r)" "unat (rid_slot_num r) < pg_count (pool_page (ts_pool s') (rid_page_id r))"
    "int (length raw) \<le> pg_room (pool_page (ts_pool s') (rid_page_id r))" "pool_used (ts_pool s') = pool_used (ts_pool s)"
    "disk_space (pool_disk (ts_pool s')) = disk_space (pool_disk (ts_pool s))" "next_table s' = next_table s"
proof -
  have tb: "table_objects s h = Some tb" "columns (tb_schema tb) \<noteq> []" "heap_inv (ts_pool s) (tb_first_page tb) ps"
    using assms(1) by (simp_all add: table_at_def)
  obtain s1 s2 where l: "locked_exclusive others tx r s = (Inr True, s1)" "same_data s s1"
    by (rule lock_and_log[OF assms(6), of others])
  note d1 = same_dataD[OF l(2)]
  obtain p where g: "heap_get_tuple r (ts_pool s) = (Inr (case heap_map (pool_page (ts_pool s)) ps r of None \<Rightarrow> None
      | Some t \<Rightarrow> if t = [] then None else Some t), p)"
    "heap_inv p (tb_first_page tb) ps" "heap_frame {} (ts_pool s) p" "pool_used p = pool_used (ts_pool s)"
    "disk_space (pool_disk p) = disk_space (pool_disk (ts_pool s))" "heap_map (pool_page p) ps = heap_map (pool_page (ts_pool s)) ps"
    by (rule heap_get_spec[OF tb(3) assms(2,3)], rule that)
  have get: "heap_get_tuple r (ts_pool s) = (Inr (Some raw), p)" using g(1) assms(4,5) by (simp add: rows_at_def)
  have mp: "heap_map (pool_page p) ps r = Some raw" using g(6) assms(4) by (simp add: rows_at_def)
  have room: "pool_room (Suc k) p" using g(3) assms(3) by (simp add: heap_frame_def)
  obtain p2 where e: "heap_delete_tuple r p = (Inr (heap_map (pool_page p) ps r \<noteq> None), p2)"
    "heap_inv p2 (tb_first_page tb) ps" "heap_frame {rid_page_id r} p p2" "pool_used p2 = pool_used p"
    "disk_space (pool_disk p2) = disk_space (pool_disk p)"
    "heap_map (pool_page p2) ps = (heap_map (pool_page p) ps)(r := None)"
    "pg_count (pool_page p2 (rid_page_id r)) = pg_count (pool_page p (rid_page_id r))"
    by (rule heap_delete_spec[OF g(2) assms(2) room], rule that)
  have del: "heap_delete_tuple r p = (Inr True, p2)" using e(1) mp by simp
  have tup: "pg_tuple (pool_page p (rid_page_id r)) (unat (rid_slot_num r)) = Some raw"
    using assms(2) mp by (simp add: heap_map_def)
  have cnt: "unat (rid_slot_num r) < pg_count (pool_page p2 (rid_page_id r))"
    using tup e(7) by (auto simp: pg_tuple_def pg_live_def split: if_splits)
  have "pg_tuple (pool_page p2 (rid_page_id r)) = (pg_tuple (pool_page p (rid_page_id r)))(unat (rid_slot_num r) := None)"
    by (rule heap_map_page[OF e(6) assms(2)])
  then have fit: "int (length raw) \<le> pg_room (pool_page p2 (rid_page_id r))"
    using room_after_delete[OF heap_invD(6)[OF g(2) assms(2)] heap_invD(6)[OF e(2) assms(2)] tup _ e(7)] by simp
  let ?s2 = "s1\<lparr>ts_pool := p2\<rparr>"
  have ex: "tx \<noteq> None \<longrightarrow> transactions ?s2 (the tx) \<noteq> None"
    by (rule locked_exclusive_free[OF assms(6), of others]) (use l(1) in auto)
  show ?thesis
  proof (rule locked_exclusive_free[OF assms(6), of others])
    fix t1
    assume a: "locked_exclusive others tx r s = (Inr True, t1)" "same_data s t1" "tx_log t1 tx = tx_log s tx"
      "tx \<noteq> None \<longrightarrow> (\<exists>x. transactions t1 (the tx) = Some x \<and> tx_state x = GROWING \<and> r \<in> set (exclusive_locks x))"
      "\<And>t. tx \<noteq> Some t \<Longrightarrow> transactions t1 t = transactions s t"
    then have t1: "t1 = s1" using l(1) by simp
    obtain s3 where b: "log_undo tx (Restore_Undo_Record h r raw) ?s2 = (Inr (), s3)" "same_data ?s2 s3"
      "tx \<noteq> None \<longrightarrow> tx_log s3 tx = tx_log ?s2 tx @ [Restore_Undo_Record h r raw]"
      "\<And>t. tx \<noteq> Some t \<Longrightarrow> transactions s3 t = transactions ?s2 t"
      "tx \<noteq> None \<longrightarrow> transactions s3 (the tx) =
         map_option (\<lambda>x. x\<lparr>undo_log := undo_log x @ [Restore_Undo_Record h r raw]\<rparr>) (transactions ?s2 (the tx))"
      by (rule log_undo_run[OF ex, of "Restore_Undo_Record h r raw"], rule that)
    note d3 = same_dataD[OF b(2)]
    have "table_delete_tuple others h r tx s = (Inr True, s3)"
      using tb(1) l(1) d1(1) get del b(1) by (simp add: table_delete_tuple_def bind_op_def table_op_def on_pool_def ret_op_def)
    then show ?thesis
    proof (rule that)
      show "tx_log s3 tx = tx_log s tx @ (if tx = None then [] else [Restore_Undo_Record h r raw])"
        using a(3) b(3) t1 by (auto simp: tx_log_def)
      show "tx_holds s3 tx r" using a(4) b(5) t1 by (auto simp: tx_holds_def split: option.split)
      show "other_txs s3 tx = other_txs s tx" using a(5) b(4) t1 by (auto simp: other_txs_def fun_eq_iff)
      show "heap_frame {rid_page_id r} (ts_pool s) (ts_pool s3)" using heap_frame_trans[OF g(3) e(3)] d3(1) by simp
      show "pool_dirty (ts_pool s3) (rid_page_id r)" using delete_dirty[OF g(2) assms(2) room del] d3(1) by simp
    qed (use tb d1 d3 e g cnt fit in \<open>simp_all add: table_at_def rows_at_def\<close>)
  qed
qed

section \<open>Room for a new page\<close>

lemma alloc_room:
  assumes "card (pool_used s) < 2 ^ 32 - 2"
  shows "disk_alloc (pool_disk s)"
proof (rule ccontr)
  assume "\<not> disk_alloc (pool_disk s)"
  moreover have "(0xFFFFFFFF :: page_id) = - 1" by simp
  ultimately have a: "free_list (pool_disk s) = []" "disk_capacity (pool_disk s) = - 1"
    using word_order.extremum_unique[of "disk_capacity (pool_disk s)"]
    by (simp_all only: disk_alloc_def INVALID_PAGE_ID_def not_less de_Morgan_disj not_not)
  have "pool_used s = UNIV - {0, - 1}"
    using a word_order.not_eq_extremum by (auto simp: pool_used_def disk_in_use_def word_gt_0)
  then have "card (pool_used s) = card (UNIV :: page_id set) - 2"
    by (simp add: card_Diff_subset)
  then show False using assms by (simp add: card_word)
qed

section \<open>Dropping the pages\<close>

definition pages_dropped :: "page_id set \<Rightarrow> pool \<Rightarrow> pool \<Rightarrow> bool" where
  \<comment> \<open>these pages are given back, as long as the free list has room; nothing else changes\<close>
  "pages_dropped A s s' \<longleftrightarrow>
     pool_used s - A \<subseteq> pool_used s' \<and> pool_used s' \<subseteq> pool_used s \<and>
     (length (free_list (pool_disk s)) + card A \<le> 1025 \<longrightarrow> pool_used s' = pool_used s - A)"

lemma drop_all_run:
  assumes "pool_st page_view {} s" "distinct ps" "set ps \<subseteq> pool_used s" "\<forall>p\<in>set ps. pool_pins s p = 0"
  shows "\<exists>s'. drop_all ps n s = (Inr n, s') \<and> pool_st page_view {} s' \<and> heap_frame (set ps) s s' \<and> pages_dropped (set ps) s s'"
  using assms
proof (induction ps arbitrary: s)
  case Nil
  then show ?case by (auto simp: ret_op_def heap_frame_refl pages_dropped_def)
next
  case (Cons p ps)
  have p: "p \<in> disk_in_use (pool_disk s)" "pool_pins s p = 0" "p \<notin> set ps" using Cons.prems by (simp_all add: pool_used_def)
  note st = pool_stD(1,2)[OF Cons.prems(1)]
  obtain s1 where a: "bpm_delete_page p s = (Inr True, s1)" "pool_inv s1" "pool_clean page_view {} s1"
    "pool_pins s1 = pool_pins s" "\<And>q. q \<noteq> p \<Longrightarrow> pool_page s1 q = pool_page s q" "page_table s1 = (page_table s)(p := None)"
    "disk_in_use (pool_disk s1) =
      (if length (free_list (pool_disk s)) \<le> 1024 then disk_in_use (pool_disk s) - {p} else disk_in_use (pool_disk s))"
    "length (free_list (pool_disk s1)) \<le> Suc (length (free_list (pool_disk s)))" "pool_capacity s1 = pool_capacity s"
    by (rule delete_page_spec[OF st p(1,2)], rule that)
  have u: "pool_used s1 = (if length (free_list (pool_disk s)) \<le> 1024 then pool_used s - {p} else pool_used s)"
    using a(7) by (simp add: pool_used_def)
  have s1: "pool_st page_view {} s1" "set ps \<subseteq> pool_used s1" "\<forall>q\<in>set ps. pool_pins s1 q = 0" "distinct ps"
    using a(2-4) u p(3) Cons.prems by (auto simp: pool_st_def)
  from Cons.IH[OF s1(1,4,2,3)] obtain s' where b: "drop_all ps n s1 = (Inr n, s')" "pool_st page_view {} s'"
    "heap_frame (set ps) s1 s'" "pages_dropped (set ps) s1 s'" by blast
  have "heap_frame {p} s s1" using a(4,5,9) by (simp add: heap_frame_def pool_room_def)
  from heap_frame_trans[OF this b(3)] have f: "heap_frame (set (p # ps)) s s'" by simp
  have "pages_dropped (set (p # ps)) s s'"
    using b(4) u a(8) p(3) by (auto simp: pages_dropped_def split: if_splits)
  moreover have "drop_all (p # ps) n s = (Inr n, s')" using a(1) b(1) by (simp add: bind_op_def heap_drop_page_def)
  ultimately show ?case using b(2) f by blast
qed

lemma table_drop_run:
  fixes s :: "'a table_state_scheme"
  assumes tb: "table_objects s h = Some tb" "heap_inv (ts_pool s) (tb_first_page tb) qs"
    and room: "pool_room (Suc k) (ts_pool s)" and pins: "\<forall>q\<in>set qs. pool_pins (ts_pool s) q = 0"
  obtains p where "table_drop_pages h s = (Inr (0, DROP_SUCCESS), s\<lparr>ts_pool := p\<rparr>)" "pool_st page_view {} p"
    "heap_frame (set qs) (ts_pool s) p" "pages_dropped (set qs) (ts_pool s) p"
proof -
  obtain p1 where a: "heap_all_pages (tb_first_page tb) (ts_pool s) = (Inr (qs, SUCCESS), p1)" "heap_inv p1 (tb_first_page tb) qs"
    "heap_frame {} (ts_pool s) p1" "pool_used p1 = pool_used (ts_pool s)" "disk_space (pool_disk p1) = disk_space (pool_disk (ts_pool s))"
    by (rule heap_all_pages_spec[OF tb(2) room], rule that)
  note hi = heap_invD[OF a(2)]
  have "\<forall>q\<in>set qs. pool_pins p1 q = 0" using pins a(3) by (simp add: heap_frame_def)
  from drop_all_run[OF hi(1,4,5) this] obtain p where b: "drop_all qs 0 p1 = (Inr 0, p)" "pool_st page_view {} p" "heap_frame (set qs) p1 p"
    "pages_dropped (set qs) p1 p" by blast
  have "table_drop_pages h s = (Inr (0, DROP_SUCCESS), s\<lparr>ts_pool := p\<rparr>)"
    using tb(1) a(1) b(1) by (simp add: table_drop_pages_def bind_op_def table_op_def on_pool_def ret_op_def)
  moreover have "pages_dropped (set qs) (ts_pool s) p" using b(4) a(4,5) by (simp add: pages_dropped_def disk_space_def)
  ultimately show ?thesis using that b(2) heap_frame_trans[OF a(3) b(3)] by simp
qed

end
