(* ===== verification/Catalog.thy ===== *)
theory Catalog
  imports Table
begin

text \<open>
  The catalog (\<open>src/catalog/catalog.cpp\<close>): the tables by name, kept in a table of their own whose
  first page is page 1, with the bytes of their schemas.

  The map \<open>tables_\<close> owns the \<open>Table\<close> objects: erasing an entry destroys the object.
\<close>

record table_entry =
  te_rid :: rid
  te_table :: nat

record db = table_state +
  catalog_table :: nat
  catalog_tables :: "string \<Rightarrow> table_entry option"
  next_tx_id :: transaction_id
  active_txs :: "transaction_id list"

definition catalog_schema :: schema where
  "catalog_schema = \<lparr>columns =
     [\<lparr>col_name = ''table_name'', col_type = T_VARCHAR, col_length = 128\<rparr>,
      \<lparr>col_name = ''first_page_id'', col_type = T_UINT32, col_length = 0\<rparr>,
      \<lparr>col_name = ''schema_bytes'', col_type = T_VARBINARY, col_length = 4096\<rparr>]\<rparr>"

definition catalog_init_table :: "(db, table) op" where
  "catalog_init_table =
     bind_op (get_op (\<lambda>s. disk_capacity (pool_disk (ts_pool s)))) (\<lambda>capacity.
     bind_op (if capacity \<le> kCATALOG_FIRST_PAGE_ID then on_pool heap_create else ret_op kCATALOG_FIRST_PAGE_ID) (\<lambda>first_page.
     ret_op \<lparr>tb_name = ''duck_catalog_'', tb_first_page = first_page, tb_schema = catalog_schema\<rparr>))"

definition add_table :: "string \<Rightarrow> rid \<Rightarrow> table \<Rightarrow> (db, nat) op" where
  \<comment> \<open>\<open>tables_[name] = TableEntry{...}\<close>, which destroys the entry it replaces\<close>
  "add_table name r tb =
     bind_op (new_table_object tb) (\<lambda>h.
     bind_op (modify_op (\<lambda>s.
       case catalog_tables s name of
         None \<Rightarrow> s
       | Some e \<Rightarrow> s\<lparr>table_objects := (table_objects s)(te_table e := None)\<rparr>)) (\<lambda>_.
     bind_op (modify_op (\<lambda>s. s\<lparr>catalog_tables := (catalog_tables s)(name \<mapsto> \<lparr>te_rid = r, te_table = h\<rparr>)\<rparr>)) (\<lambda>_.
     ret_op h)))"

definition erase_table :: "string \<Rightarrow> table_entry \<Rightarrow> db \<Rightarrow> db" where
  "erase_table name e s =
     s\<lparr>table_objects := (table_objects s)(te_table e := None), catalog_tables := (catalog_tables s)(name := None)\<rparr>"

definition catalog_entry :: "string \<Rightarrow> page_id \<Rightarrow> schema \<Rightarrow> tuple res" where
  "catalog_entry name first_page s =
     tuple_of [value_of (V_string name), value_of (V_uint32 first_page), value_of (V_bytes (schema_serialize s))] catalog_schema"

definition catalog_create_table ::
  "(pool, unit) op \<Rightarrow> (db \<Rightarrow> db) \<Rightarrow> string \<Rightarrow> schema \<Rightarrow> transaction_id option \<Rightarrow> (db, nat) op" where
  "catalog_create_table alloc others name schema tx =
     bind_op (get_op (\<lambda>s. catalog_tables s name)) (\<lambda>found.
       if found \<noteq> None then throw_op (Runtime_Error ''Catalog::create_table: table with name already exists'')
       else
         bind_op (on_pool heap_create) (\<lambda>first_page.
         bind_op (lift_op (catalog_entry name first_page schema)) (\<lambda>entry.
         bind_op (get_op catalog_table) (\<lambda>cat.
         bind_op (table_insert_tuple alloc others cat entry tx) (\<lambda>rid.
           case rid of
             None \<Rightarrow> throw_op (Runtime_Error ''Catalog::CreateTable: failed to write catalog entry'')
           | Some r \<Rightarrow>
               bind_op (add_table name r \<lparr>tb_name = name, tb_first_page = first_page, tb_schema = schema\<rparr>) (\<lambda>h.
               bind_op (log_undo tx (Drop_Table_Undo_Record name)) (\<lambda>_.
               ret_op h)))))))"

definition catalog_drop_table :: "(db \<Rightarrow> db) \<Rightarrow> string \<Rightarrow> (db, bool) op" where
  \<comment> \<open>the row of the catalog is deleted before the pages are dropped\<close>
  "catalog_drop_table others name =
     bind_op (get_op (\<lambda>s. catalog_tables s name)) (\<lambda>found.
       case found of
         None \<Rightarrow> ret_op False
       | Some e \<Rightarrow>
           bind_op (get_op catalog_table) (\<lambda>cat.
           bind_op (table_delete_tuple others cat (te_rid e) None) (\<lambda>deleted.
             if \<not> deleted then ret_op False
             else
               bind_op (table_drop_pages (te_table e)) (\<lambda>(failed_pages, drop_status).
                 if drop_status = READ_PAGES_FAILED
                 then throw_op (Runtime_Error ''Catalog::drop_table: Table::drop_pages failed to fetch all pages before deletion'')
                 else bind_op (modify_op (erase_table name e)) (\<lambda>_. ret_op True)))))"

definition catalog_delete_table :: "string \<Rightarrow> (db, unit) op" where
  \<comment> \<open>undoing \<open>create_table\<close>: the row is undone by a record of its own\<close>
  "catalog_delete_table name =
     bind_op (get_op (\<lambda>s. catalog_tables s name)) (\<lambda>found.
       case found of
         None \<Rightarrow> throw_op Assertion_Failed
       | Some e \<Rightarrow>
           bind_op (table_drop_pages (te_table e)) (\<lambda>(failed_pages, drop_status).
             if drop_status = READ_PAGES_FAILED
             then throw_op (Runtime_Error ''Catalog::delete_table: Table::drop_pages failed to fetch all pages before deletion'')
             else modify_op (erase_table name e)))"

definition catalog_get_table :: "string \<Rightarrow> (db, nat option) op" where
  "catalog_get_table name = get_op (\<lambda>s. map_option te_table (catalog_tables s name))"

definition catalog_all_tables :: "(db, nat set) op" where
  \<comment> \<open>the order in which the hash map lists them is not specified\<close>
  "catalog_all_tables = get_op (\<lambda>s. te_table ` ran (catalog_tables s))"

section \<open>Loading the tables\<close>

definition kSCAN_FUEL :: nat where
  \<comment> \<open>one step for each record identifier there is, and one to find the end\<close>
  "kSCAN_FUEL = 2 ^ 48 + 1"

definition load_table :: "rid \<Rightarrow> tuple \<Rightarrow> (db, unit) op" where
  "load_table r t =
     bind_op (lift_op (bind_res (tuple_get t 0) as_string)) (\<lambda>table_name.
     bind_op (lift_op (bind_res (tuple_get t 1) as_uint32)) (\<lambda>first_page_id.
     bind_op (lift_op (bind_res (bind_res (tuple_get t 2) as_bytes) schema_of_bytes)) (\<lambda>schema.
     bind_op (add_table table_name r \<lparr>tb_name = table_name, tb_first_page = first_page_id, tb_schema = schema\<rparr>) (\<lambda>_.
     ret_op ()))))"

fun load_from :: "nat \<Rightarrow> table_scan \<Rightarrow> (db, table_scan) op" where
  "load_from 0 sc = throw_op Diverges"
| "load_from (Suc n) sc =
     bind_op (table_scan_next id sc) (\<lambda>(entry, sc').
       case entry of
         None \<Rightarrow> ret_op sc'
       | Some (r, t) \<Rightarrow> bind_op (load_table r t) (\<lambda>_. load_from n sc'))"

definition catalog_load_existing_tables :: "(db, unit) op" where
  "catalog_load_existing_tables =
     bind_op (get_op catalog_table) (\<lambda>cat.
     bind_op (table_scan_begin cat None) (\<lambda>sc.
     bind_op (load_from kSCAN_FUEL sc) (\<lambda>sc'. table_scan_end sc')))"

definition catalog_open :: "(db, unit) op" where
  \<comment> \<open>the constructor\<close>
  "catalog_open =
     bind_op catalog_init_table (\<lambda>tb.
     bind_op (new_table_object tb) (\<lambda>h.
     bind_op (modify_op (\<lambda>s. s\<lparr>catalog_table := h\<rparr>)) (\<lambda>_. catalog_load_existing_tables)))"

end
