(* ===== verification/Transaction.thy ===== *)
theory Transaction
  imports Catalog
begin

text \<open>
  Beginning, committing and rolling back (\<open>src/transaction/manager.cpp\<close>,
  \<open>src/transaction/transaction.cpp\<close>, \<open>src/transaction/undo.cpp\<close>), and the \<open>Database\<close> that puts the
  parts together (\<open>src/database/database.cpp\<close>).
\<close>

section \<open>Undo\<close>

fun undo_one :: "undo_record \<Rightarrow> (db, unit) op" where
  "undo_one (Delete_Undo_Record h r) =
     bind_op (table_op h) (\<lambda>_. bind_op (on_pool (heap_delete_tuple r)) (\<lambda>_. ret_op ()))"
| "undo_one (Restore_Undo_Record h r bs) = bind_op (table_op h) (\<lambda>_. on_pool (heap_restore_tuple r bs))"
| "undo_one (Drop_Table_Undo_Record name) = catalog_delete_table name"

fun undo_all :: "undo_record list \<Rightarrow> (db, unit) op" where
  "undo_all [] = ret_op ()"
| "undo_all (u # us) = bind_op (undo_one u) (\<lambda>_. undo_all us)"

definition tx_undo :: "transaction_id \<Rightarrow> (db, unit) op" where
  "tx_undo t = bind_op (tx_op t) (\<lambda>x. undo_all (rev (undo_log x)))"

section \<open>The transaction manager\<close>

definition tm_begin :: "(db, transaction_id) op" where
  "tm_begin s =
     (let i = next_tx_id s in
        (Inr i, s\<lparr>next_tx_id := i + 1, transactions := (transactions s)(i \<mapsto> tx_new i),
                  active_txs := List.insert i (active_txs s)\<rparr>))"

definition tm_finish :: "transaction_id \<Rightarrow> (db, unit) op" where
  \<comment> \<open>\<open>active_txs_.erase(tx->id())\<close>; the object lives on in the hands of its owner\<close>
  "tm_finish t = modify_op (\<lambda>s. s\<lparr>active_txs := removeAll t (active_txs s)\<rparr>)"

definition tm_commit :: "transaction_id option \<Rightarrow> (db, unit) op" where
  "tm_commit tx =
     (case tx of
        None \<Rightarrow> throw_op Assertion_Failed
      | Some t \<Rightarrow>
          bind_op (tx_op t) (\<lambda>_.
          bind_op (modify_op (set_state t SHRINKING)) (\<lambda>_.
          bind_op (unlock_all tx) (\<lambda>_.
          bind_op (modify_op (set_state t COMMITTED)) (\<lambda>_. tm_finish t)))))"

definition tm_abort :: "transaction_id option \<Rightarrow> (db, unit) op" where
  "tm_abort tx =
     (case tx of
        None \<Rightarrow> throw_op Assertion_Failed
      | Some t \<Rightarrow>
          bind_op (tx_op t) (\<lambda>_.
          bind_op (modify_op (set_state t SHRINKING)) (\<lambda>_.
          bind_op (tx_undo t) (\<lambda>_.
          bind_op (unlock_all tx) (\<lambda>_.
          bind_op (modify_op (set_state t ABORTED)) (\<lambda>_. tm_finish t))))))"

section \<open>The database\<close>

definition db_initial :: "disk \<Rightarrow> nat \<Rightarrow> db" where
  "db_initial d n_frames =
     \<lparr>lock_table = Map.empty, transactions = Map.empty, next_request = 0, ts_pool = bpm_initial d n_frames,
      table_objects = Map.empty, next_table = 0, catalog_table = 0, catalog_tables = Map.empty,
      next_tx_id = 0, active_txs = []\<rparr>"

definition db_close :: "db \<Rightarrow> unit res \<times> db_file" where
  \<comment> \<open>the destructors, and what the file holds then: the pool writes its dirty pages back, the disk manager its header;
    when the first one ends in \<open>std::terminate\<close> the second one does not run\<close>
  "db_close s =
     (case bpm_close (ts_pool s) of
        (Inl e, p) \<Rightarrow> (Inl e, disk_file (pool_disk p))
      | (Inr _, p) \<Rightarrow> (Inr (), dm_close (pool_disk p)))"

definition db_unwind :: "error \<Rightarrow> db \<Rightarrow> error" where
  \<comment> \<open>an exception destroys the database on its way to the handler; anything else does not unwind the stack\<close>
  "db_unwind e s = (if is_exception e then (case db_close s of (Inl e', _) \<Rightarrow> e' | (Inr _, _) \<Rightarrow> e) else e)"

definition db_open :: "db_file option \<Rightarrow> nat \<Rightarrow> db res" where
  "db_open fd n_frames =
     bind_res (dm_open fd) (\<lambda>d.
       case catalog_open (db_initial d n_frames) of (Inl e, s) \<Rightarrow> Inl (db_unwind e s) | (Inr _, s) \<Rightarrow> Inr s)"

definition db_begin_tx :: "(db, transaction_id) op" where
  "db_begin_tx = tm_begin"

definition db_commit_tx :: "transaction_id option \<Rightarrow> (db, unit) op" where
  "db_commit_tx = tm_commit"

definition db_rollback_tx :: "transaction_id option \<Rightarrow> (db, unit) op" where
  "db_rollback_tx = tm_abort"

definition db_create_table ::
  "(pool, unit) op \<Rightarrow> (db \<Rightarrow> db) \<Rightarrow> string \<Rightarrow> schema \<Rightarrow> transaction_id option \<Rightarrow> (db, nat) op" where
  "db_create_table = catalog_create_table"

definition db_drop_table :: "(db \<Rightarrow> db) \<Rightarrow> string \<Rightarrow> (db, bool) op" where
  "db_drop_table = catalog_drop_table"

definition db_get_table :: "string \<Rightarrow> (db, nat option) op" where
  "db_get_table = catalog_get_table"

definition db_all_tables :: "(db, nat set) op" where
  "db_all_tables = catalog_all_tables"

end
