(* ===== verification/Transaction_Laws.thy ===== *)
theory Transaction_Laws
  imports Table_Laws Transaction
begin

text \<open>
  Undoing, committing and aborting: undoing never touches locks (\<open>keeps_locks\<close>), what the transaction manager
  does after the log has been undone or when undoing throws, and the undo of a transaction that inserts and deletes.
\<close>

section \<open>Rolling back\<close>

definition keeps_locks :: "('a lock_state_scheme, 'b) op \<Rightarrow> bool" where
  "keeps_locks m \<longleftrightarrow> (\<forall>s. lock_state.truncate (snd (m s)) = lock_state.truncate s)"

lemma keeps_locks_bind [intro]:
  "keeps_locks m \<Longrightarrow> (\<And>x. keeps_locks (f x)) \<Longrightarrow> keeps_locks (bind_op m f)"
  by (auto simp: keeps_locks_def bind_op_def split: prod.split sum.split) (metis snd_conv)+

lemma keeps_locks_basic [simp]:
  "keeps_locks (ret_op x)" "keeps_locks (throw_op e)" "keeps_locks (get_op f)" "keeps_locks (on_pool m)" "keeps_locks (table_op h)"
  by (auto simp: keeps_locks_def ret_op_def throw_op_def get_op_def on_pool_def table_op_def lock_state.defs split: prod.split option.split)

lemma keeps_locks_erase: "keeps_locks (modify_op (erase_table name e))"
  by (simp add: keeps_locks_def modify_op_def erase_table_def lock_state.defs)

lemma keeps_locks_undo_one: "keeps_locks (undo_one u)"
proof (cases u)
  case (Drop_Table_Undo_Record name)
  have "keeps_locks (table_drop_pages h :: (db, nat \<times> drop_table_status) op)" for h
    unfolding table_drop_pages_def by (intro keeps_locks_bind) (auto split: prod.split)
  then show ?thesis unfolding Drop_Table_Undo_Record undo_one.simps catalog_delete_table_def
    by (intro keeps_locks_bind) (auto split: option.split prod.split intro!: keeps_locks_bind keeps_locks_erase)
qed (auto intro!: keeps_locks_bind)

lemma keeps_locks_undo_all: "keeps_locks (undo_all us)"
  by (induction us) (auto intro: keeps_locks_undo_one)

lemma keeps_locksD:
  fixes s :: "'a lock_state_scheme"
  assumes "keeps_locks m" "m s = (x, s')"
  shows "transactions s' = transactions s" "queue_of s' = queue_of s" "tx_log s' = tx_log s"
proof -
  have "lock_state.truncate s' = lock_state.truncate s" using assms by (metis keeps_locks_def snd_conv)
  then show "transactions s' = transactions s" "queue_of s' = queue_of s" "tx_log s' = tx_log s"
    by (auto simp: lock_state.defs queue_of_def tx_log_def fun_eq_iff split: option.split)
qed

lemma tx_holds_some: "tx_holds s (Some t) r \<longleftrightarrow> (\<exists>x. transactions s t = Some x \<and> tx_state x = GROWING \<and> r \<in> set (exclusive_locks x))"
  by (simp add: tx_holds_def)

definition released :: "'a lock_state_scheme \<Rightarrow> transaction_id \<Rightarrow> transaction \<Rightarrow> 'b lock_state_scheme \<Rightarrow> bool" where
  \<comment> \<open>in \<open>s'\<close> the locks that \<open>x\<close> describes are given back\<close>
  "released s t x s' \<longleftrightarrow>
     (\<forall>r. queue_of s' r = (if r \<in> set (exclusive_locks x) \<or> r \<in> set (shared_locks x)
        then filter (\<lambda>q. req_tx q \<noteq> t) (queue_of s r) else queue_of s r))"

lemma queue_of_active [simp]: "queue_of (s\<lparr>active_txs := xs\<rparr>) = queue_of s"
  by (simp add: queue_of_def fun_eq_iff)

definition tables_kept :: "db \<Rightarrow> db \<Rightarrow> bool" where
  \<comment> \<open>the same tables, the same objects\<close>
  "tables_kept s s' \<longleftrightarrow> table_objects s' = table_objects s \<and> next_table s' = next_table s \<and>
     catalog_tables s' = catalog_tables s \<and> catalog_table s' = catalog_table s"

lemma tables_kept_trans: "tables_kept s t \<Longrightarrow> tables_kept t u \<Longrightarrow> tables_kept s u"
  by (simp add: tables_kept_def)

lemma tables_keptI:
  fixes s :: db
  assumes "table_objects s' = table_objects s" "table_state.more s' = table_state.more s" "next_table s' = next_table s"
  shows "tables_kept s s'"
  using assms by (cases s; cases s'; simp add: tables_kept_def table_state.defs)

lemma tables_kept_same: "same_data s s' \<Longrightarrow> tables_kept s s'"
  by (rule tables_keptI) (simp_all add: same_dataD)

lemma finish_run:
  fixes s :: db
  assumes "transactions s t = Some x"
  obtains s' where "bind_op (unlock_all (Some t)) (\<lambda>_. bind_op (modify_op (set_state t st)) (\<lambda>_. tm_finish t)) s = (Inr (), s')"
    "transactions s' = (transactions s)(t \<mapsto> x\<lparr>exclusive_locks := [], shared_locks := [], tx_state := st\<rparr>)" "released s t x s'"
    "ts_pool s' = ts_pool s" "table_objects s' = table_objects s" "catalog_tables s' = catalog_tables s"
    "t \<notin> set (active_txs s')" "tables_kept s s'"
proof -
  obtain s1 where a: "unlock_all (Some t) s = (Inr (), s1)"
    "transactions s1 = (transactions s)(t \<mapsto> x\<lparr>exclusive_locks := [], shared_locks := []\<rparr>)"
    "\<forall>r. queue_of s1 r = (if r \<in> set (exclusive_locks x) \<or> r \<in> set (shared_locks x)
       then filter (\<lambda>q. req_tx q \<noteq> t) (queue_of s r) else queue_of s r)"
    using unlock_all_run[OF assms] by blast
  have "snd (unlock_all (Some t) s) = s1" using a(1) by simp
  then have same: "same_data s s1" using assms
    by (auto simp: unlock_all_def bind_op_def tx_op_def modify_op_def same_data_def same_data_more)
  note d = same_dataD[OF same]
  let ?s2 = "set_state t st s1"
  have same2: "same_data s1 ?s2" by (simp add: same_data_def same_data_more)
  note e = same_dataD[OF same2]
  have k: "tables_kept s ?s2" by (rule tables_kept_trans[OF tables_kept_same[OF same] tables_kept_same[OF same2]])
  show ?thesis
    by (rule that[of "?s2\<lparr>active_txs := removeAll t (active_txs ?s2)\<rparr>"])
      (use a d e k in \<open>simp_all add: bind_op_def modify_op_def tm_finish_def released_def set_state_def tables_kept_def\<close>)
qed

lemma set_state_data [simp]:
  fixes s :: db
  shows "ts_pool (set_state t st s) = ts_pool s" "table_objects (set_state t st s) = table_objects s"
    "catalog_tables (set_state t st s) = catalog_tables s" "queue_of (set_state t st s) = queue_of s"
    "rows_at (set_state t st s) = rows_at s" "table_at (set_state t st s) = table_at s"
    "transactions (set_state t st s) = (transactions s)(t := map_option (\<lambda>x. x\<lparr>tx_state := st\<rparr>) (transactions s t))"
  by (auto simp: set_state_def update_tx_def queue_of_def rows_at_def table_at_def fun_eq_iff split: option.split)

lemma abort_run:
  fixes s :: db
  assumes "transactions s t = Some x" "undo_all (rev (undo_log x)) (set_state t SHRINKING s) = (Inr (), s1)"
  obtains s' where "tm_abort (Some t) s = (Inr (), s')"
    "transactions s' = (transactions s)(t \<mapsto> x\<lparr>exclusive_locks := [], shared_locks := [], tx_state := ABORTED\<rparr>)"
    "released s t x s'" "ts_pool s' = ts_pool s1" "table_objects s' = table_objects s1" "catalog_tables s' = catalog_tables s1"
    "t \<notin> set (active_txs s')" "tables_kept s1 s'"
proof -
  let ?s0 = "set_state t SHRINKING s" and ?x = "x\<lparr>tx_state := SHRINKING\<rparr>"
  note k = keeps_locksD[OF keeps_locks_undo_all assms(2)]
  have x0: "transactions ?s0 t = Some ?x" using assms(1) by simp
  then have x1: "transactions s1 t = Some ?x" using k(1) by simp
  obtain s' where f: "bind_op (unlock_all (Some t)) (\<lambda>_. bind_op (modify_op (set_state t ABORTED)) (\<lambda>_. tm_finish t)) s1 = (Inr (), s')"
    "transactions s' = (transactions s1)(t \<mapsto> ?x\<lparr>exclusive_locks := [], shared_locks := [], tx_state := ABORTED\<rparr>)" "released s1 t ?x s'"
    "ts_pool s' = ts_pool s1" "table_objects s' = table_objects s1" "catalog_tables s' = catalog_tables s1" "t \<notin> set (active_txs s')"
    "tables_kept s1 s'"
    by (rule finish_run[OF x1, of ABORTED], rule that)
  have "tm_abort (Some t) s = (Inr (), s')"
    using assms x0 f(1) by (simp add: tm_abort_def bind_op_def tx_op_def modify_op_def tx_undo_def)
  then show ?thesis
  proof (rule that)
    show "transactions s' = (transactions s)(t \<mapsto> x\<lparr>exclusive_locks := [], shared_locks := [], tx_state := ABORTED\<rparr>)"
      using f(2) k(1) assms(1) by simp
    show "released s t x s'" using f(3) k(2) by (simp add: released_def)
  qed (use f in simp_all)
qed

lemma commit_run:
  fixes s :: db
  assumes "transactions s t = Some x"
  obtains s' where "tm_commit (Some t) s = (Inr (), s')"
    "transactions s' = (transactions s)(t \<mapsto> x\<lparr>exclusive_locks := [], shared_locks := [], tx_state := COMMITTED\<rparr>)"
    "released s t x s'" "ts_pool s' = ts_pool s" "catalog_tables s' = catalog_tables s" "t \<notin> set (active_txs s')" "tables_kept s s'"
proof -
  let ?s0 = "set_state t SHRINKING s" and ?x = "x\<lparr>tx_state := SHRINKING\<rparr>"
  have x0: "transactions ?s0 t = Some ?x" using assms by simp
  have k: "tables_kept s ?s0" by (rule tables_kept_same) (simp add: same_data_def same_data_more)
  obtain s' where f: "bind_op (unlock_all (Some t)) (\<lambda>_. bind_op (modify_op (set_state t COMMITTED)) (\<lambda>_. tm_finish t)) ?s0 = (Inr (), s')"
    "transactions s' = (transactions ?s0)(t \<mapsto> ?x\<lparr>exclusive_locks := [], shared_locks := [], tx_state := COMMITTED\<rparr>)"
    "released ?s0 t ?x s'" "ts_pool s' = ts_pool ?s0" "table_objects s' = table_objects ?s0"
    "catalog_tables s' = catalog_tables ?s0" "t \<notin> set (active_txs s')" "tables_kept ?s0 s'"
    by (rule finish_run[OF x0, of COMMITTED], rule that)
  have "tm_commit (Some t) s = (Inr (), s')"
    using assms x0 f(1) by (simp add: tm_commit_def bind_op_def tx_op_def modify_op_def)
  moreover have "released s t x s'" using f(3) by (simp add: released_def)
  ultimately show ?thesis
    using that[of s'] f(2,4,6,7) tables_kept_trans[OF k f(8)] assms by simp
qed

lemma abort_fails:
  fixes s :: db
  assumes "transactions s t = Some x" "undo_all (rev (undo_log x)) (set_state t SHRINKING s) = (Inl e, s1)"
  shows "tm_abort (Some t) s = (Inl e, s1)" "transactions s1 t = Some (x\<lparr>tx_state := SHRINKING\<rparr>)" "queue_of s1 = queue_of s"
  using assms keeps_locksD[OF keeps_locks_undo_all assms(2)]
  by (simp_all add: tm_abort_def bind_op_def tx_op_def modify_op_def tx_undo_def)

lemma lock_free_other: "lock_free s (Some t) r \<longleftrightarrow> (\<exists>x. transactions s t = Some x \<and> tx_state x = GROWING) \<and> other_locks s (Some t) r = {}"
  by (auto simp: lock_free_def other_locks_def)

lemma undo_delete_run:
  fixes s :: db
  assumes "table_at s h tb ps" "rid_page_id r \<in> set ps" "pool_room (Suc k) (ts_pool s)"
  obtains s' where "undo_one (Delete_Undo_Record h r) s = (Inr (), s')" "table_at s' h tb ps"
    "rows_at s' ps = (rows_at s ps)(r := None)" "heap_frame {rid_page_id r} (ts_pool s) (ts_pool s')"
    "pool_used (ts_pool s') = pool_used (ts_pool s)" "tables_kept s s'"
proof -
  have tb: "table_objects s h = Some tb" "columns (tb_schema tb) \<noteq> []" "heap_inv (ts_pool s) (tb_first_page tb) ps"
    using assms(1) by (simp_all add: table_at_def)
  obtain p where d: "heap_delete_tuple r (ts_pool s) = (Inr (heap_map (pool_page (ts_pool s)) ps r \<noteq> None), p)"
    "heap_inv p (tb_first_page tb) ps" "heap_frame {rid_page_id r} (ts_pool s) p" "pool_used p = pool_used (ts_pool s)"
    "disk_space (pool_disk p) = disk_space (pool_disk (ts_pool s))"
    "heap_map (pool_page p) ps = (heap_map (pool_page (ts_pool s)) ps)(r := None)"
    by (rule heap_delete_spec[OF tb(3) assms(2,3)], rule that)
  have "undo_one (Delete_Undo_Record h r) s = (Inr (), s\<lparr>ts_pool := p\<rparr>)"
    using tb(1) d(1) by (simp add: bind_op_def table_op_def on_pool_def ret_op_def)
  then show ?thesis by (rule that) (use tb d in \<open>simp_all add: table_at_def rows_at_def tables_kept_def\<close>)
qed

lemma undo_restore_run:
  fixes s :: db
  assumes "table_at s h tb ps" "rid_page_id r \<in> set ps" "pool_room (Suc k) (ts_pool s)" "pool_dirty (ts_pool s) (rid_page_id r)"
    "rows_at s ps r = None" "unat (rid_slot_num r) < pg_count (pool_page (ts_pool s) (rid_page_id r))"
    "int (length raw) \<le> pg_room (pool_page (ts_pool s) (rid_page_id r))"
  obtains s' where "undo_one (Restore_Undo_Record h r raw) s = (Inr (), s')" "table_at s' h tb ps"
    "rows_at s' ps = (rows_at s ps)(r \<mapsto> raw)" "heap_frame {rid_page_id r} (ts_pool s) (ts_pool s')"
    "catalog_tables s' = catalog_tables s"
proof -
  have tb: "table_objects s h = Some tb" "columns (tb_schema tb) \<noteq> []" "heap_inv (ts_pool s) (tb_first_page tb) ps"
    using assms(1) by (simp_all add: table_at_def)
  have none: "heap_map (pool_page (ts_pool s)) ps r = None" using assms(5) by (simp add: rows_at_def)
  obtain p where d: "heap_restore_tuple r raw (ts_pool s) = (Inr (), p)" "heap_inv p (tb_first_page tb) ps"
    "heap_frame {rid_page_id r} (ts_pool s) p"
    "pool_used p = pool_used (ts_pool s)" "heap_map (pool_page p) ps = (heap_map (pool_page (ts_pool s)) ps)(r \<mapsto> raw)"
    by (rule heap_restore_spec[OF tb(3) assms(2,3,4) none assms(6,7)], rule that)
  have "undo_one (Restore_Undo_Record h r raw) s = (Inr (), s\<lparr>ts_pool := p\<rparr>)"
    using tb(1) d(1) by (simp add: bind_op_def table_op_def on_pool_def)
  then show ?thesis by (rule that) (use tb d in \<open>simp_all add: table_at_def rows_at_def\<close>)
qed

definition ended :: "transaction_state \<Rightarrow> transaction_id \<Rightarrow> db \<Rightarrow> bool" where
  \<comment> \<open>the transaction has reached its last state and holds no lock\<close>
  "ended st t s \<longleftrightarrow> t \<notin> set (active_txs s) \<and>
     (\<exists>x. transactions s t = Some x \<and> tx_state x = st \<and> exclusive_locks x = [] \<and> shared_locks x = [])"

section \<open>Many insertions\<close>

fun insert_all :: "(db \<Rightarrow> db) \<Rightarrow> nat \<Rightarrow> transaction_id option \<Rightarrow> tuple list \<Rightarrow> (db, rid option list) op" where
  \<comment> \<open>a caller that inserts these tuples, one after the other\<close>
  "insert_all others h tx [] = ret_op []"
| "insert_all others h tx (t # ts) =
     bind_op (table_insert_tuple (ret_op ()) others h t tx) (\<lambda>r.
     bind_op (insert_all others h tx ts) (\<lambda>rs. ret_op (r # rs)))"

definition storable_rows :: "table \<Rightarrow> tuple list \<Rightarrow> byte list list \<Rightarrow> bool" where
  \<comment> \<open>the tuples have the schema of the table and fit a page; \<open>raws\<close> are their bytes\<close>
  "storable_rows tb tus raws \<longleftrightarrow>
     list_all2 (\<lambda>t raw. t_schema t = tb_schema tb \<and> tuple_serialize t = Inr raw \<and> length raw \<le> MAX_TUPLE_SIZE) tus raws"

lemma insert_all_run:
  fixes s :: db
  assumes "storable_rows tb tus raws" "table_at s h tb ps" "transactions s t = Some x" "tx_state x = GROWING" "nodes_old s"
    "\<forall>q. rows_at s ps q = None \<longrightarrow> other_locks s (Some t) q = {}"
    "pool_room 2 (ts_pool s)" "card (pool_used (ts_pool s)) + length tus < 2 ^ 32 - 2"
  shows "\<exists>rs s' ns y. insert_all others h (Some t) tus s = (Inr (map Some rs), s') \<and> table_at s' h tb (ps @ ns) \<and>
    length rs = length tus \<and> distinct rs \<and> (\<forall>r\<in>set rs. rows_at s ps r = None \<and> rid_page_id r \<in> set (ps @ ns)) \<and>
    rows_at s' (ps @ ns) = (rows_at s ps)(rs [\<mapsto>] raws) \<and> transactions s' t = Some y \<and> tx_state y = GROWING \<and>
    undo_log y = undo_log x @ map (Delete_Undo_Record h) rs \<and> nodes_old s' \<and> other_locks s' (Some t) = other_locks s (Some t) \<and>
    pool_room 2 (ts_pool s') \<and> set ns \<inter> pool_used (ts_pool s) = {} \<and> pool_used (ts_pool s') = pool_used (ts_pool s) \<union> set ns \<and>
    heap_frame (set (ps @ ns)) (ts_pool s) (ts_pool s') \<and> tables_kept s s'"
  using assms
proof (induction tus arbitrary: raws s ps x)
  case Nil
  then show ?case by (intro exI[of _ "[]"] exI[of _ s] exI[of _ x]) (simp add: ret_op_def storable_rows_def heap_frame_refl tables_kept_def)
next
  case (Cons tu tus)
  obtain raw raws' where raws: "raws = raw # raws'" "t_schema tu = tb_schema tb" "tuple_serialize tu = Inr raw" "length raw \<le> MAX_TUPLE_SIZE"
    "storable_rows tb tus raws'"
    using Cons.prems(1) by (auto simp: storable_rows_def list_all2_Cons1)
  have lf: "lock_free s (Some t) q" if "rows_at s ps q = None" for q
    using Cons.prems(3,4,6) that by (auto simp: lock_free_other)
  have alloc: "disk_alloc (pool_disk (ts_pool s))" by (rule alloc_room) (use Cons.prems(8) in simp)
  obtain r s1 ns where i: "table_insert_tuple (ret_op ()) others h tu (Some t) s = (Inr (Some r), s1)" "table_at s1 h tb (ps @ ns)"
    "rows_at s ps r = None" "rows_at s1 (ps @ ns) = (rows_at s ps)(r \<mapsto> raw)" "rid_page_id r \<in> set (ps @ ns)"
    "heap_frame (set (ps @ ns)) (ts_pool s) (ts_pool s1)" "pool_used (ts_pool s1) = pool_used (ts_pool s) \<union> set ns"
    "tx_log s1 (Some t) = tx_log s (Some t) @ (if Some t = None then [] else [Delete_Undo_Record h r])" "tx_holds s1 (Some t) r"
    "length ns \<le> 1" "nodes_old s \<Longrightarrow> other_locks s1 (Some t) = other_locks s (Some t) \<and> nodes_old s1"
    "set ns \<inter> pool_used (ts_pool s) = {}" "table_objects s1 = table_objects s" "table_state.more s1 = table_state.more s" "next_table s1 = next_table s"
    by (rule table_insert_spec[OF Cons.prems(2) raws(2-4) Cons.prems(7) alloc, where tx = "Some t" and others = others], rule lf, assumption, rule that)
  obtain x1 where x1: "transactions s1 t = Some x1" "tx_state x1 = GROWING" using i(9) by (auto simp: tx_holds_some)
  have log1: "undo_log x1 = undo_log x @ [Delete_Undo_Record h r]" using i(8) Cons.prems(3) x1(1) by (simp add: tx_log_def)
  have n1: "nodes_old s1" "other_locks s1 (Some t) = other_locks s (Some t)" using i(11) Cons.prems(5) by simp_all
  have free1: "\<forall>q. rows_at s1 (ps @ ns) q = None \<longrightarrow> other_locks s1 (Some t) q = {}" using Cons.prems(6) i(4) n1(2) by simp
  have room1: "pool_room 2 (ts_pool s1)" using i(6) Cons.prems(7) by (simp add: heap_frame_def)
  have "card (set ns) \<le> 1" using card_length[of ns] i(10) by linarith
  then have "card (pool_used (ts_pool s1)) \<le> card (pool_used (ts_pool s)) + 1"
    using card_Un_le[of "pool_used (ts_pool s)" "set ns"] i(7) by simp
  then have c1: "card (pool_used (ts_pool s1)) + length tus < 2 ^ 32 - 2" using Cons.prems(8) by simp
  from Cons.IH[OF raws(5) i(2) x1 n1(1) free1 room1 c1] obtain rs s' ns' y where
    j: "insert_all others h (Some t) tus s1 = (Inr (map Some rs), s')" "table_at s' h tb ((ps @ ns) @ ns')"
      "length rs = length tus" "distinct rs" "\<forall>r\<in>set rs. rows_at s1 (ps @ ns) r = None \<and> rid_page_id r \<in> set ((ps @ ns) @ ns')"
      "rows_at s' ((ps @ ns) @ ns') = (rows_at s1 (ps @ ns))(rs [\<mapsto>] raws')" "transactions s' t = Some y" "tx_state y = GROWING"
      "undo_log y = undo_log x1 @ map (Delete_Undo_Record h) rs" "nodes_old s'" "other_locks s' (Some t) = other_locks s1 (Some t)"
      "pool_room 2 (ts_pool s')" "set ns' \<inter> pool_used (ts_pool s1) = {}" "pool_used (ts_pool s') = pool_used (ts_pool s1) \<union> set ns'"
      "heap_frame (set ((ps @ ns) @ ns')) (ts_pool s1) (ts_pool s')" "tables_kept s1 s'" by blast
  have "tables_kept s s'" by (rule tables_kept_trans[OF tables_keptI[OF i(13-15)] j(16)])
  moreover have "heap_frame (set (ps @ (ns @ ns'))) (ts_pool s) (ts_pool s')"
    by (rule heap_frame_mono[OF heap_frame_trans[OF i(6) j(15)]]) auto
  moreover have "set (ns @ ns') \<inter> pool_used (ts_pool s) = {}" "pool_used (ts_pool s') = pool_used (ts_pool s) \<union> set (ns @ ns')"
    using i(7,12) j(13,14) by auto
  moreover have "insert_all others h (Some t) (tu # tus) s = (Inr (map Some (r # rs)), s')"
    using i(1) j(1) by (simp add: bind_op_def ret_op_def)
  moreover have "distinct (r # rs)" using j(4,5) i(4) by auto
  moreover have "\<forall>q\<in>set (r # rs). rows_at s ps q = None \<and> rid_page_id q \<in> set (ps @ (ns @ ns'))"
    using i(3-5) j(5) by (auto split: if_splits)
  moreover have "rows_at s' (ps @ (ns @ ns')) = (rows_at s ps)(r # rs [\<mapsto>] raws)" using i(4) j(6) raws(1) by simp
  moreover have "undo_log y = undo_log x @ map (Delete_Undo_Record h) (r # rs)" using j(9) log1 by simp
  ultimately show ?case using j(2,3,7,8,10,11,12) n1(2) by (intro exI[of _ "r # rs"] exI[of _ s'] exI[of _ "ns @ ns'"] exI[of _ y]) simp
qed

lemma undo_deletes_run:
  fixes s :: db
  assumes "table_at s h tb ps" "\<forall>r\<in>set rs. rid_page_id r \<in> set ps" "pool_room (Suc k) (ts_pool s)"
  shows "\<exists>s'. undo_all (map (Delete_Undo_Record h) rs) s = (Inr (), s') \<and> table_at s' h tb ps \<and>
    rows_at s' ps = (\<lambda>q. if q \<in> set rs then None else rows_at s ps q) \<and> heap_frame (set ps) (ts_pool s) (ts_pool s') \<and>
    pool_used (ts_pool s') = pool_used (ts_pool s) \<and> tables_kept s s'"
  using assms
proof (induction rs arbitrary: s)
  case Nil
  then show ?case by (auto simp: ret_op_def heap_frame_refl tables_kept_def)
next
  case (Cons r rs)
  have r: "rid_page_id r \<in> set ps" using Cons.prems(2) by simp
  obtain s1 where a: "undo_one (Delete_Undo_Record h r) s = (Inr (), s1)" "table_at s1 h tb ps"
    "rows_at s1 ps = (rows_at s ps)(r := None)" "heap_frame {rid_page_id r} (ts_pool s) (ts_pool s1)"
    "pool_used (ts_pool s1) = pool_used (ts_pool s)" "tables_kept s s1"
    by (rule undo_delete_run[OF Cons.prems(1) r Cons.prems(3)])
  have room: "pool_room (Suc k) (ts_pool s1)" using a(4) Cons.prems(3) by (simp add: heap_frame_def)
  from Cons.IH[OF a(2) _ room] Cons.prems(2) obtain s' where b: "undo_all (map (Delete_Undo_Record h) rs) s1 = (Inr (), s')"
    "table_at s' h tb ps" "rows_at s' ps = (\<lambda>q. if q \<in> set rs then None else rows_at s1 ps q)"
    "heap_frame (set ps) (ts_pool s1) (ts_pool s')" "pool_used (ts_pool s') = pool_used (ts_pool s1)" "tables_kept s1 s'" by auto
  have "heap_frame (set ps) (ts_pool s) (ts_pool s')"
    by (rule heap_frame_mono[OF heap_frame_trans[OF a(4) b(4)]]) (use r in auto)
  moreover have "tables_kept s s'" by (rule tables_kept_trans[OF a(6) b(6)])
  moreover have "undo_all (map (Delete_Undo_Record h) (r # rs)) s = (Inr (), s')"
    using a(1) b(1) by (simp add: bind_op_def del: undo_one.simps)
  moreover have "rows_at s' ps = (\<lambda>q. if q \<in> set (r # rs) then None else rows_at s ps q)" using a(3) b(3) by (auto simp: fun_eq_iff)
  ultimately show ?case using a(5) b(2,5) by auto
qed

lemma abort_inserts:
  fixes s :: db
  assumes "table_at s h tb ps" "transactions s t = Some x" "undo_log x = map (Delete_Undo_Record h) rs @ [Restore_Undo_Record h r raw]"
    "rid_page_id r \<in> set ps" "\<forall>q\<in>set rs. rid_page_id q \<in> set ps" "pool_room (Suc k) (ts_pool s)" "pool_dirty (ts_pool s) (rid_page_id r)"
    "rows_at s ps r = None" "unat (rid_slot_num r) < pg_count (pool_page (ts_pool s) (rid_page_id r))"
    "int (length raw) \<le> pg_room (pool_page (ts_pool s) (rid_page_id r))"
  obtains s' where "tm_abort (Some t) s = (Inr (), s')" "table_at s' h tb ps"
    "rows_at s' ps = (\<lambda>q. if q \<in> set rs then None else ((rows_at s ps)(r \<mapsto> raw)) q)" "ended ABORTED t s'" "released s t x s'"
proof -
  let ?s0 = "set_state t SHRINKING s"
  have h0: "table_at ?s0 h tb ps" "pool_room (Suc k) (ts_pool ?s0)" "pool_dirty (ts_pool ?s0) (rid_page_id r)"
    "rows_at ?s0 ps r = None" "unat (rid_slot_num r) < pg_count (pool_page (ts_pool ?s0) (rid_page_id r))"
    "int (length raw) \<le> pg_room (pool_page (ts_pool ?s0) (rid_page_id r))"
    using assms by simp_all
  obtain s1 where a: "undo_one (Restore_Undo_Record h r raw) ?s0 = (Inr (), s1)" "table_at s1 h tb ps"
    "rows_at s1 ps = (rows_at ?s0 ps)(r \<mapsto> raw)" "heap_frame {rid_page_id r} (ts_pool ?s0) (ts_pool s1)"
    by (rule undo_restore_run[OF h0(1) assms(4) h0(2-6)])
  have room: "pool_room (Suc k) (ts_pool s1)" using a(4) h0(2) by (simp add: heap_frame_def)
  have rs: "\<forall>q\<in>set (rev rs). rid_page_id q \<in> set ps" using assms(5) by simp
  from undo_deletes_run[OF a(2) rs room] obtain s2 where b: "undo_all (map (Delete_Undo_Record h) (rev rs)) s1 = (Inr (), s2)"
    "table_at s2 h tb ps" "rows_at s2 ps = (\<lambda>q. if q \<in> set rs then None else rows_at s1 ps q)" by auto
  have u: "undo_all (rev (undo_log x)) ?s0 = (Inr (), s2)"
    using a(1) b(1) by (simp add: assms(3) bind_op_def rev_map del: undo_one.simps)
  obtain s' where c: "tm_abort (Some t) s = (Inr (), s')"
    "transactions s' = (transactions s)(t \<mapsto> x\<lparr>exclusive_locks := [], shared_locks := [], tx_state := ABORTED\<rparr>)"
    "released s t x s'" "ts_pool s' = ts_pool s2" "table_objects s' = table_objects s2" "catalog_tables s' = catalog_tables s2"
    "t \<notin> set (active_txs s')"
    by (rule abort_run[OF assms(2) u], rule that)
  have "rows_at s' ps = rows_at s2 ps" using c(4) by (simp add: rows_at_def)
  then have rows: "rows_at s' ps = (\<lambda>q. if q \<in> set rs then None else ((rows_at s ps)(r \<mapsto> raw)) q)"
    using a(3) b(3) by (simp add: fun_eq_iff)
  have at: "table_at s' h tb ps" using b(2) c(4,5) by (simp add: table_at_def)
  have "ended ABORTED t s'" using c(2,7) by (simp add: ended_def)
  then show ?thesis by (rule that[OF c(1) at rows _ c(3)])
qed

lemma inserts_delete_abort:
  fixes s :: db
  assumes "table_at s h tb ps" "transactions s t = Some x" "tx_state x = GROWING" "undo_log x = []" "nodes_old s"
    "\<forall>q. q = r \<or> rows_at s ps q = None \<longrightarrow> other_locks s (Some t) q = {}" "storable_rows tb tus raws"
    "rid_page_id r \<in> set ps" "rows_at s ps r = Some old" "old \<noteq> []"
    "pool_room 2 (ts_pool s)" "card (pool_used (ts_pool s)) + length tus < 2 ^ 32 - 2"
  obtains rs s1 s2 s' ns where "insert_all others h (Some t) tus s = (Inr (map Some rs), s1)"
    "table_delete_tuple others h r (Some t) s1 = (Inr True, s2)" "length rs = length tus" "distinct rs" "\<forall>q\<in>set rs. rows_at s ps q = None"
    "rows_at s2 (ps @ ns) = ((rows_at s ps)(rs [\<mapsto>] raws))(r := None)"
    "tm_abort (Some t) s2 = (Inr (), s')" "table_at s' h tb (ps @ ns)" "rows_at s' (ps @ ns) = rows_at s ps" "ended ABORTED t s'"
proof -
  have free: "\<forall>q. rows_at s ps q = None \<longrightarrow> other_locks s (Some t) q = {}" using assms(6) by blast
  from insert_all_run[OF assms(7,1,2,3,5) free assms(11,12), of others] obtain rs s1 ns x1 where
    i: "insert_all others h (Some t) tus s = (Inr (map Some rs), s1)" "table_at s1 h tb (ps @ ns)" "length rs = length tus" "distinct rs"
      "\<forall>r\<in>set rs. rows_at s ps r = None \<and> rid_page_id r \<in> set (ps @ ns)" "rows_at s1 (ps @ ns) = (rows_at s ps)(rs [\<mapsto>] raws)"
      "transactions s1 t = Some x1" "tx_state x1 = GROWING" "undo_log x1 = undo_log x @ map (Delete_Undo_Record h) rs"
      "other_locks s1 (Some t) = other_locks s (Some t)" "pool_room 2 (ts_pool s1)" by blast
  have ne: "r \<notin> set rs" using i(5) assms(9) by auto
  have f: "rid_page_id r \<in> set (ps @ ns)" "pool_room (Suc 1) (ts_pool s1)" "rows_at s1 (ps @ ns) r = Some old" "lock_free s1 (Some t) r"
    using assms(6,8,9) ne i(6-8,10,11) by (simp_all add: numeral_2_eq_2 lock_free_other)
  obtain s2 where d: "table_delete_tuple others h r (Some t) s1 = (Inr True, s2)" "table_at s2 h tb (ps @ ns)"
    "rows_at s2 (ps @ ns) = (rows_at s1 (ps @ ns))(r := None)" "heap_frame {rid_page_id r} (ts_pool s1) (ts_pool s2)"
    "tx_log s2 (Some t) = tx_log s1 (Some t) @ (if Some t = None then [] else [Restore_Undo_Record h r old])" "tx_holds s2 (Some t) r"
    "pool_dirty (ts_pool s2) (rid_page_id r)" "unat (rid_slot_num r) < pg_count (pool_page (ts_pool s2) (rid_page_id r))"
    "int (length old) \<le> pg_room (pool_page (ts_pool s2) (rid_page_id r))"
    by (rule table_delete_spec[OF i(2) f(1-3) assms(10) f(4), of others], rule that)
  obtain y where y: "transactions s2 t = Some y" using d(6) by (auto simp: tx_holds_some)
  have log: "undo_log y = map (Delete_Undo_Record h) rs @ [Restore_Undo_Record h r old]"
    using d(5) i(7,9) assms(4) y by (simp add: tx_log_def)
  have room: "pool_room (Suc 1) (ts_pool s2)" using d(4) f(2) by (simp add: heap_frame_def)
  have none: "rows_at s2 (ps @ ns) r = None" using d(3) by simp
  have rs: "\<forall>q\<in>set rs. rid_page_id q \<in> set (ps @ ns)" using i(5) by blast
  obtain s' where a: "tm_abort (Some t) s2 = (Inr (), s')" "table_at s' h tb (ps @ ns)"
    "rows_at s' (ps @ ns) = (\<lambda>q. if q \<in> set rs then None else ((rows_at s2 (ps @ ns))(r \<mapsto> old)) q)" "ended ABORTED t s'"
    by (rule abort_inserts[OF d(2) y log f(1) rs room d(7) none d(8,9)])
  have "rows_at s' (ps @ ns) = rows_at s ps"
  proof (rule ext)
    fix q
    show "rows_at s' (ps @ ns) q = rows_at s ps q"
      using a(3) d(3) i(5,6) assms(9) by (cases "q \<in> set rs"; cases "q = r") simp_all
  qed
  moreover have "\<forall>q\<in>set rs. rows_at s ps q = None" using i(5) by blast
  ultimately show ?thesis using that[OF i(1) d(1) i(3,4) _ _ a(1,2) _ a(4)] d(3) i(6) by simp
qed

end
