(* ===== verification/Transaction_Spec.thy ===== *)
theory Transaction_Spec
  imports Transaction_Laws
begin

text \<open>
  Properties of tables and transactions: the rows of a table are what was inserted, a rollback restores them and releases the
  locks, an undo that throws keeps the locks, \<open>commit\<close> does not look at the state, and a lock upgrade gives up the shared
  lock first, so that another transaction can overwrite what was read.
\<close>

section \<open>A small database\<close>

definition sample_table :: table where
  "sample_table = \<lparr>tb_name = ''ducks'', tb_first_page = 1, tb_schema = sample_schema\<rparr>"

definition sample_tuple :: tuple where
  "sample_tuple = \<lparr>t_schema = sample_schema, t_values = sample_values\<rparr>"

definition sample_raw :: "byte list" where
  "sample_raw = [4, 7, 0, 0, 0, 0, 0, 0, 0, 4, 0] @ string_bytes ''duck'' @ [0, 0, 0, 0, 1]"

definition sample_db :: "pool \<Rightarrow> transaction \<Rightarrow> db" where
  \<comment> \<open>one table whose pages are in the pool, one transaction, no locks\<close>
  "sample_db p x =
     \<lparr>lock_table = Map.empty, transactions = [7 \<mapsto> x], next_request = 0, ts_pool = p, table_objects = [0 \<mapsto> sample_table],
      next_table = 1, catalog_table = 0, catalog_tables = Map.empty, next_tx_id = 8, active_txs = [7]\<rparr>"

lemma sample_db:
  "transactions (sample_db p x) = [7 \<mapsto> x]" "ts_pool (sample_db p x) = p" "rows_at (sample_db p x) = heap_map (pool_page p)"
  "other_locks (sample_db p x) (Some 7) r = {}" "nodes_old (sample_db p x)" "lock_free (sample_db p x) None r"
  "heap_inv p 1 ps \<Longrightarrow> table_at (sample_db p x) 0 sample_table ps" "queue_of (sample_db p x) r = []"
  by (simp_all add: sample_db_def rows_at_def fun_eq_iff other_locks_def nodes_old_def queue_of_def lock_free_def table_at_def
      sample_table_def sample_schema_def)

lemma sample_tuple:
  "tuple_of sample_values sample_schema = Inr sample_tuple" "tuple_serialize sample_tuple = Inr sample_raw"
  "length sample_raw \<le> MAX_TUPLE_SIZE" "t_schema sample_tuple = tb_schema sample_table"
  "\<forall>i < length (columns sample_schema). char_ok (columns sample_schema ! i) (sample_values ! i)"
  "map value_canon sample_values = sample_values" "tb_schema sample_table = sample_schema"
proof -
  show "tuple_of sample_values sample_schema = Inr sample_tuple"
    by (simp add: tuple_of_def sample_schema_def sample_values_def sample_tuple_def schema_column_count_def value_of_def value_null_def)
  show "tuple_serialize sample_tuple = Inr sample_raw" using sample_bytes by (simp add: sample_tuple_def sample_raw_def)
  show "length sample_raw \<le> MAX_TUPLE_SIZE"
    by (simp add: sample_raw_def MAX_TUPLE_SIZE_def kPAGE_SIZE_def sizeof_PageHeader_def sizeof_Slot_def)
  show "\<forall>i < length (columns sample_schema). char_ok (columns sample_schema ! i) (sample_values ! i)"
    by (auto simp: char_ok_def sample_schema_def sample_values_def value_null_def less_Suc_eq_0_disj)
  show "map value_canon sample_values = sample_values"
    by (simp add: sample_values_def value_canon_def value_of_def value_null_def)
qed (simp_all add: sample_tuple_def sample_table_def)

section \<open>Properties\<close>

text \<open>
  C12: a table keeps what is inserted. A tuple of the schema of the table, if its bytes fit a page, is stored at a record
  identifier that was free; every other row stays as it was, and \<open>get_tuple\<close> gives back the values and the nulls
  that were inserted.
\<close>

theorem table_insert_get:
  fixes s :: db
  assumes "table_at s h tb ps" "tuple_of vs (tb_schema tb) = Inr t" "tuple_serialize t = Inr raw" "length raw \<le> MAX_TUPLE_SIZE"
    "\<forall>i < length (columns (tb_schema tb)). char_ok (columns (tb_schema tb) ! i) (vs ! i)"
    "pool_room 2 (ts_pool s)" "disk_alloc (pool_disk (ts_pool s))"
  shows "\<exists>r s1 ns. table_insert_tuple (ret_op ()) others h t None s = (Inr (Some r), s1) \<and> table_at s1 h tb (ps @ ns) \<and>
    rows_at s ps r = None \<and> rows_at s1 (ps @ ns) = (rows_at s ps)(r \<mapsto> raw) \<and>
    fst (table_get_tuple others h r None s1) = Inr (Some \<lparr>t_schema = tb_schema tb, t_values = map value_canon vs\<rparr>)"
proof -
  note t = tuple_of_fields[OF assms(2,5)]
  have sch: "t_schema t = tb_schema tb" using t(1) by simp
  have ne: "raw \<noteq> []"
    by (rule serialize_nonempty[OF assms(3)]) (use t assms(1) in \<open>simp_all add: table_at_def\<close>)
  have lf: "lock_free s None q" for q by (simp add: lock_free_def)
  obtain r s1 ns where i: "table_insert_tuple (ret_op ()) others h t None s = (Inr (Some r), s1)" "table_at s1 h tb (ps @ ns)"
    "rows_at s ps r = None" "rows_at s1 (ps @ ns) = (rows_at s ps)(r \<mapsto> raw)" "rid_page_id r \<in> set (ps @ ns)"
    "heap_frame (set (ps @ ns)) (ts_pool s) (ts_pool s1)"
    by (rule table_insert_spec[OF assms(1) sch assms(3,4,6,7), where tx = None and others = others], rule lf, rule that)
  have room: "pool_room (Suc 1) (ts_pool s1)" using i(6) assms(6) by (simp add: heap_frame_def numeral_2_eq_2)
  have raw: "rows_at s1 (ps @ ns) r = Some raw" using i(4) by simp
  obtain s2 where "table_get_tuple others h r None s1 = (map_sum id Some (tuple_of_bytes raw (tb_schema tb)), s2)"
    by (rule table_get_spec[OF i(2,5) room raw ne, of others])
  moreover have "length raw < 65536" using assms(4) by (simp add: MAX_TUPLE_SIZE_def kPAGE_SIZE_def)
  ultimately have "fst (table_get_tuple others h r None s1) = Inr (Some \<lparr>t_schema = tb_schema tb, t_values = map value_canon vs\<rparr>)"
    using tuple_read_back[OF assms(2,3) _ assms(5)] by simp
  with i show ?thesis by blast
qed

theorem table_insert_get_witness:
  "\<exists>(s :: db) r s1. table_insert_tuple (ret_op ()) id 0 sample_tuple None s = (Inr (Some r), s1) \<and>
     fst (table_get_tuple id 0 r None s1) = Inr (Some sample_tuple)"
proof -
  obtain p where p: "heap_inv p 1 [1]" "pool_room 2 p" "disk_alloc (pool_disk p)" by (rule small_heap)
  let ?s = "sample_db p (tx_new 7)"
  have t: "tuple_of sample_values (tb_schema sample_table) = Inr sample_tuple"
    "\<forall>i < length (columns (tb_schema sample_table)). char_ok (columns (tb_schema sample_table) ! i) (sample_values ! i)"
    "\<lparr>t_schema = tb_schema sample_table, t_values = map value_canon sample_values\<rparr> = sample_tuple"
    using sample_tuple(1,5-7) by (simp_all add: sample_tuple_def)
  have room: "pool_room 2 (ts_pool ?s)" "disk_alloc (pool_disk (ts_pool ?s))" using p(2,3) by (simp_all add: sample_db)
  from table_insert_get[OF sample_db(7)[OF p(1)] t(1) sample_tuple(2,3) t(2) room, of id]
  show ?thesis unfolding t(3) by blast
qed

text \<open>
  C2: rollback. A transaction that inserts any number of tuples and then deletes a row, with nobody else holding locks on the
  rows it touches, is undone by \<open>abort\<close> exactly: the insertions give distinct new identifiers, the rows change as they
  should, and afterwards the table has the rows it had at the beginning, the transaction is aborted and holds no lock.
\<close>

theorem rollback_restores:
  fixes s :: db
  assumes "table_at s h tb ps" "transactions s t = Some x" "tx_state x = GROWING" "undo_log x = []" "nodes_old s"
    "\<forall>q. q = r \<or> rows_at s ps q = None \<longrightarrow> other_locks s (Some t) q = {}" "storable_rows tb tus raws"
    "rid_page_id r \<in> set ps" "rows_at s ps r = Some old" "old \<noteq> []"
    "pool_room 2 (ts_pool s)" "card (pool_used (ts_pool s)) + length tus < 2 ^ 32 - 2"
  shows "\<exists>rs s1 s2 s' ns. insert_all others h (Some t) tus s = (Inr (map Some rs), s1) \<and>
    table_delete_tuple others h r (Some t) s1 = (Inr True, s2) \<and> length rs = length tus \<and> distinct rs \<and> (\<forall>q\<in>set rs. rows_at s ps q = None) \<and>
    rows_at s2 (ps @ ns) = ((rows_at s ps)(rs [\<mapsto>] raws))(r := None) \<and>
    tm_abort (Some t) s2 = (Inr (), s') \<and> table_at s' h tb (ps @ ns) \<and> rows_at s' (ps @ ns) = rows_at s ps \<and> ended ABORTED t s'"
  by (rule inserts_delete_abort[OF assms, of others]) blast

theorem rollback_restores_witness:
  "\<exists>s rs s1 s2 s' ns. insert_all id 0 (Some 7) [sample_tuple, sample_tuple] s = (Inr (map Some rs), s1) \<and> length rs = 2 \<and>
    table_delete_tuple id 0 \<lparr>rid_page_id = 1, rid_slot_num = 0\<rparr> (Some 7) s1 = (Inr True, s2) \<and>
    tm_abort (Some 7) s2 = (Inr (), s') \<and> rows_at s' (1 # ns) \<lparr>rid_page_id = 1, rid_slot_num = 0\<rparr> = Some [1, 2] \<and>
    ended ABORTED 7 s'"
proof -
  obtain p where p: "heap_inv p 1 [1]" "heap_map (pool_page p) [1] \<lparr>rid_page_id = 1, rid_slot_num = 0\<rparr> = Some [1, 2]"
    "pool_room 2 p" "disk_alloc (pool_disk p)" "heap_list (pool_page p) [1] = [(\<lparr>rid_page_id = 1, rid_slot_num = 0\<rparr>, [1, 2])]" "pool_used p = {1, 2}"
    by (rule small_heap_tuple)
  let ?s = "sample_db p (tx_new 7)" and ?r = "\<lparr>rid_page_id = 1, rid_slot_num = 0\<rparr> :: rid"
  have x: "transactions ?s 7 = Some (tx_new 7)" "tx_state (tx_new 7) = GROWING" "undo_log (tx_new 7) = []"
    by (simp_all add: sample_db tx_new_def)
  have free: "\<forall>q. q = ?r \<or> rows_at ?s [1] q = None \<longrightarrow> other_locks ?s (Some 7) q = {}" by (simp add: sample_db)
  have tus: "storable_rows sample_table [sample_tuple, sample_tuple] [sample_raw, sample_raw]"
    using sample_tuple(2-4) by (simp add: storable_rows_def)
  have r: "rid_page_id ?r \<in> set [1]" "rows_at ?s [1] ?r = Some [1, 2]" "[1 :: byte, 2] \<noteq> []"
    using p(2) by (simp_all add: sample_db)
  have room: "pool_room 2 (ts_pool ?s)" "card (pool_used (ts_pool ?s)) + length [sample_tuple, sample_tuple] < 2 ^ 32 - 2"
    using p(3,6) by (simp_all add: sample_db)
  from rollback_restores[OF sample_db(7)[OF p(1)] x sample_db(5) free tus r room, of id] obtain rs s1 s2 s' ns where
    a: "insert_all id 0 (Some 7) [sample_tuple, sample_tuple] ?s = (Inr (map Some rs), s1)"
      "table_delete_tuple id 0 ?r (Some 7) s1 = (Inr True, s2)" "length rs = length [sample_tuple, sample_tuple]"
      "tm_abort (Some 7) s2 = (Inr (), s')" "rows_at s' ([1] @ ns) = rows_at ?s [1]" "ended ABORTED 7 s'" by blast
  have "length rs = 2" using a(3) by simp
  moreover have "rows_at s' (1 # ns) ?r = Some [1, 2]" using a(5) r(2) by simp
  ultimately show ?thesis using a(1,2,4,6) by blast
qed

text \<open>
  C35: a rollback that fails. Rolling back undoes the log from the last record to the first. When every record can be undone, the
  transaction ends aborted, its locks are given back and the pages are those the undoing left; when one throws, the
  exception leaves \<open>abort\<close> at once: the transaction stays in the shrinking phase and keeps all its locks.
\<close>

theorem abort_outcome:
  fixes s :: db
  assumes "transactions s t = Some x"
  shows "case undo_all (rev (undo_log x)) (set_state t SHRINKING s) of
      (Inr _, s1) \<Rightarrow> \<exists>s'. tm_abort (Some t) s = (Inr (), s') \<and> ended ABORTED t s' \<and> released s t x s' \<and>
        ts_pool s' = ts_pool s1 \<and> catalog_tables s' = catalog_tables s1
    | (Inl e, s1) \<Rightarrow> tm_abort (Some t) s = (Inl e, s1) \<and> transactions s1 t = Some (x\<lparr>tx_state := SHRINKING\<rparr>) \<and>
        queue_of s1 = queue_of s"
proof (cases "undo_all (rev (undo_log x)) (set_state t SHRINKING s)")
  case (Pair y s1)
  show ?thesis
  proof (cases y)
    case (Inl e)
    then show ?thesis using abort_fails[OF assms, of e s1] Pair by simp
  next
    case (Inr u)
    then have run: "undo_all (rev (undo_log x)) (set_state t SHRINKING s) = (Inr (), s1)" using Pair by simp
    show ?thesis by (rule abort_run[OF assms run]) (auto simp: run ended_def)
  qed
qed

theorem abort_outcome_witness:
  "\<exists>s s1. tm_abort (Some 7) s = (Inl Undefined_Behaviour, s1) \<and>
     transactions s1 7 = Some ((tx_new 7)\<lparr>undo_log := [Delete_Undo_Record 1 \<lparr>rid_page_id = 1, rid_slot_num = 0\<rparr>], tx_state := SHRINKING\<rparr>)"
proof -
  obtain p where p: "heap_inv p 1 [1]" by (rule small_heap)
  let ?x = "(tx_new 7)\<lparr>undo_log := [Delete_Undo_Record 1 \<lparr>rid_page_id = 1, rid_slot_num = 0\<rparr>]\<rparr>"
  let ?s1 = "set_state 7 SHRINKING (sample_db p ?x)"
  have x: "transactions (sample_db p ?x) 7 = Some ?x" by (simp add: sample_db)
  have u: "undo_all (rev (undo_log ?x)) ?s1 = (Inl Undefined_Behaviour, ?s1)"
    by (simp add: bind_op_def table_op_def) (simp add: sample_db_def)
  have "tm_abort (Some 7) (sample_db p ?x) = (Inl Undefined_Behaviour, ?s1) \<and>
      transactions ?s1 7 = Some (?x\<lparr>tx_state := SHRINKING\<rparr>)"
    using abort_outcome[OF x] unfolding u by simp
  then show ?thesis by blast
qed

text \<open>
  C39: commit does not look at the state. Committing a transaction that a lock timeout has aborted returns as for any
  other: the transaction ends committed, its locks are given back and everything it wrote stays, nothing is undone.
\<close>

theorem commit_ignores_abort:
  fixes s :: db
  assumes "transactions s t = Some x" "tx_state x = ABORTED"
  shows "\<exists>s'. tm_commit (Some t) s = (Inr (), s') \<and> ended COMMITTED t s' \<and> released s t x s' \<and>
    ts_pool s' = ts_pool s \<and> catalog_tables s' = catalog_tables s"
  by (rule commit_run[OF assms(1)]) (auto simp: ended_def)

theorem commit_ignores_abort_witness:
  "\<exists>s s'. map_option tx_state (transactions s 7) = Some ABORTED \<and> tm_commit (Some 7) s = (Inr (), s') \<and> ended COMMITTED 7 s'"
proof -
  obtain p where "heap_inv p 1 [1]" by (rule small_heap)
  let ?s = "sample_db p ((tx_new 7)\<lparr>tx_state := ABORTED\<rparr>)"
  have x: "transactions ?s 7 = Some ((tx_new 7)\<lparr>tx_state := ABORTED\<rparr>)" by (simp add: sample_db)
  from commit_ignores_abort[OF x] obtain s' where "tm_commit (Some 7) ?s = (Inr (), s')" "ended COMMITTED 7 s'" by auto
  moreover have "map_option tx_state (transactions ?s 7) = Some ABORTED" using x by simp
  ultimately show ?thesis by blast
qed

section \<open>The upgrade of a lock\<close>

definition overwrites :: "transaction_id \<Rightarrow> rid \<Rightarrow> db \<Rightarrow> db" where
  \<comment> \<open>another thread: its transaction takes the exclusive lock if it is free, and commits\<close>
  "overwrites t r s =
     (case lock_exclusive id (Some t) r s of
        (Inr True, s') \<Rightarrow> snd (tm_commit (Some t) s')
      | _ \<Rightarrow> s)"

lemma one_mode:
  assumes "lk_inv s" "transactions s t = Some x" "r \<in> set (shared_locks x)"
  shows "r \<notin> set (exclusive_locks x)"
proof
  assume "r \<in> set (exclusive_locks x)"
  then obtain a where a: "a \<in> set (queue_of s r)" "req_tx a = t" "req_mode a = EXCLUSIVE"
    using lk_invD(5)[OF assms(1,2), of r EXCLUSIVE] by auto
  obtain b where b: "b \<in> set (queue_of s r)" "req_tx b = t" "req_mode b = SHARED"
    using lk_invD(5)[OF assms(1,2), of r SHARED] assms(3) by auto
  have "a = b" by (rule unique_request[OF assms(1) a(1) b(1)]) (simp add: a(2) b(2))
  then show False using a(3) b(3) by simp
qed

lemma upgrade_run:
  assumes "transactions s t = Some x" "tx_state x = GROWING" "r \<in> set (shared_locks x)" "r \<notin> set (exclusive_locks x)"
  shows "lock_exclusive others (Some t) r s = lm_request others t r EXCLUSIVE (lm_drop_shared t r s)"
  using assms by (simp add: lock_exclusive_def bind_op_def tx_op_def modify_op_def)

lemma request_granted:
  assumes "\<forall>q\<in>set (queue_of s r). req_granted q \<longrightarrow> req_tx q = t"
  shows "lm_request others t r m s = (Inr True, lm_grant r (fst (lm_enqueue t r m s)) (snd (lm_enqueue t r m s)))"
  using assms by (simp add: lm_request_def case_prod_beta lm_wait_def can_grant_iff)

lemma drop_shared_sel:
  "queue_of (lm_drop_shared t r s) r = filter (\<lambda>q. req_tx q \<noteq> t) (queue_of s r)"
  "transactions (lm_drop_shared t r s) = (transactions s)(t := map_option (\<lambda>x. x\<lparr>shared_locks := remove1 r (shared_locks x)\<rparr>) (transactions s t))"
  "next_request (lm_drop_shared t r s) = next_request s"
  by (simp_all add: lm_drop_shared_def)

lemma grant_node: "q \<in> set (queue_of s r) \<Longrightarrow> req_node q \<noteq> req_node p \<Longrightarrow> q \<in> set (queue_of (lm_grant r p s) r)"
  by (force simp: lm_grant_def)

lemma grant_others:
  "x \<in> set (queue_of (lm_grant r p s) r) \<Longrightarrow> req_granted x \<Longrightarrow> req_node x \<noteq> req_node p \<Longrightarrow> x \<in> set (queue_of s r)"
  by (auto simp: lm_grant_def split: if_splits)

lemma grant_same: "x \<in> set (queue_of (lm_grant r p s) r) \<Longrightarrow> \<exists>y\<in>set (queue_of s r). req_node x = req_node y \<and> req_tx x = req_tx y"
proof -
  assume "x \<in> set (queue_of (lm_grant r p s) r)"
  then obtain y where "y \<in> set (queue_of s r)" "x = (if req_node y = req_node p then y\<lparr>req_granted := True\<rparr> else y)"
    unfolding lm_grant_def update_tx_sel queue_of_put by auto
  then show ?thesis by (intro bexI[of _ y]) simp_all
qed

lemma overwrites_run:
  fixes u :: db
  assumes "transactions u t = Some x" "tx_state x = GROWING" "r \<in> set (shared_locks x)" "lk_inv u"
    "\<forall>q\<in>set (queue_of u r). req_granted q \<longrightarrow> req_tx q = t" "p \<in> set (queue_of u r)" "req_tx p \<noteq> t"
  obtains v where "overwrites t r u = v" "p \<in> set (queue_of v r)" "\<forall>q\<in>set (queue_of v r). \<not> req_granted q"
    "map_option tx_state (transactions v t) = Some COMMITTED" "\<And>t'. t' \<noteq> t \<Longrightarrow> transactions v t' = transactions u t'"
proof -
  let ?d = "lm_drop_shared t r u"
  let ?q = "fst (lm_enqueue t r EXCLUSIVE ?d)" and ?e = "snd (lm_enqueue t r EXCLUSIVE ?d)"
  let ?g = "lm_grant r ?q ?e" and ?x = "add_lock EXCLUSIVE r (x\<lparr>shared_locks := remove1 r (shared_locks x)\<rparr>)"
  have "\<forall>q\<in>set (queue_of ?d r). req_granted q \<longrightarrow> req_tx q = t" using assms(5) by (simp add: drop_shared_sel)
  then have run: "lock_exclusive id (Some t) r u = (Inr True, ?g)"
    unfolding upgrade_run[OF assms(1-3) one_mode[OF assms(4,1,3)]] by (rule request_granted)
  have tr: "transactions ?g = (transactions u)(t \<mapsto> ?x)" using assms(1) by (simp add: lm_grant_def drop_shared_sel)
  then have "transactions ?g t = Some ?x" by simp
  then obtain v where c: "tm_commit (Some t) ?g = (Inr (), v)"
    "transactions v = (transactions ?g)(t \<mapsto> ?x\<lparr>exclusive_locks := [], shared_locks := [], tx_state := COMMITTED\<rparr>)" "released ?g t ?x v"
    by (rule commit_run)
  have v: "queue_of v r = filter (\<lambda>q. req_tx q \<noteq> t) (queue_of ?g r)" using c(3) by (simp add: released_def add_lock_def)
  have n: "req_node ?q = next_request u" by (simp add: drop_shared_sel)
  have "p \<in> set (queue_of ?e r)" using assms(6,7) by (simp add: drop_shared_sel)
  then have "p \<in> set (queue_of ?g r)" using lk_invD(2)[OF assms(4,6)] n by (intro grant_node) simp_all
  then have p: "p \<in> set (queue_of v r)" using assms(7) v by simp
  have none: "\<not> req_granted a" if a: "a \<in> set (queue_of v r)" for a
  proof
    assume g: "req_granted a"
    have a': "a \<in> set (queue_of ?g r)" "req_tx a \<noteq> t" using a v by simp_all
    show False
    proof (cases "req_node a = req_node ?q")
      case True
      obtain b where b: "b \<in> set (queue_of ?e r)" "req_node a = req_node b" "req_tx a = req_tx b" using grant_same[OF a'(1)] by blast
      then have "b \<notin> set (queue_of u r)" using True n lk_invD(2)[OF assms(4), of b r] by auto
      then have "req_tx b = t" using b(1) by (auto simp: drop_shared_sel)
      then show ?thesis using a'(2) b(3) by simp
    next
      case False
      have "a \<in> set (queue_of ?e r)" by (rule grant_others[OF a'(1) g False])
      then have "a \<in> set (queue_of u r)" using g by (auto simp: drop_shared_sel)
      then show ?thesis using assms(5) g a'(2) by blast
    qed
  qed
  have o: "overwrites t r u = v" using run c(1) by (simp add: overwrites_def)
  have s: "map_option tx_state (transactions v t) = Some COMMITTED" "\<And>t'. t' \<noteq> t \<Longrightarrow> transactions v t' = transactions u t'"
    using c(2) tr by simp_all
  show ?thesis by (rule that[OF o p _ s]) (use none in blast)
qed

text \<open>
  C40: upgrading a lock is not protected. Two transactions have read a row under shared locks, and nobody else has it. The first asks for the
  exclusive lock, and while it waits the second one does the same (\<open>overwrites\<close>): the second one gets it, although it came later
  and the first one has not ended, and commits; then the first one gets it too and goes on growing. What it read may have been
  overwritten in between, in spite of its shared lock.
\<close>

theorem upgrade_not_protected:
  fixes s :: db
  assumes "lk_inv s" "t1 \<noteq> t2" "transactions s t1 = Some x1" "transactions s t2 = Some x2" "tx_state x1 = GROWING" "tx_state x2 = GROWING"
    "r \<in> set (shared_locks x1)" "r \<in> set (shared_locks x2)"
    "\<forall>t x. t \<noteq> t1 \<longrightarrow> t \<noteq> t2 \<longrightarrow> transactions s t = Some x \<longrightarrow> r \<notin> set (shared_locks x)"
  shows "\<exists>s' y1 y2. lock_exclusive (overwrites t2 r) (Some t1) r s = (Inr True, s') \<and>
    transactions s' t1 = Some y1 \<and> tx_state y1 = GROWING \<and> r \<in> set (exclusive_locks y1) \<and>
    transactions s' t2 = Some y2 \<and> tx_state y2 = COMMITTED"
proof -
  let ?d = "lm_drop_shared t1 r s"
  let ?p = "fst (lm_enqueue t1 r EXCLUSIVE ?d)" and ?u = "snd (lm_enqueue t1 r EXCLUSIVE ?d)"
  let ?y = "x1\<lparr>shared_locks := remove1 r (shared_locks x1)\<rparr>"
  note d = drop_shared_inv[OF assms(1,3,7)]
  have u: "lk_inv ?u" by (rule enqueue_inv[OF d(1,3,2)])
  have held: "req_tx q \<in> {t1, t2} \<and> req_mode q = SHARED" if q: "q \<in> set (queue_of s r)" "req_granted q" for q
  proof -
    obtain a where a: "a \<in> set (queue_of s r)" "req_tx a = t1" "req_granted a" "req_mode a = SHARED"
      using lk_invD(5)[OF assms(1,3), of r SHARED] assms(7) by auto
    have m: "req_mode q = SHARED"
      using unique_request[OF assms(1) q(1) a(1)] lk_invD(6)[OF assms(1) q(1) a(1) q(2) a(3)] a(4) by (cases "req_tx q = req_tx a") auto
    then show ?thesis using lk_invD(4)[OF assms(1) q(1)] q(2) assms(9) by auto
  qed
  have p: "?p \<in> set (queue_of ?u r)" "req_tx ?p \<noteq> t2" using assms(2) by simp_all
  have u2: "transactions ?u t2 = Some x2" using assms(2,4) by (simp add: drop_shared_sel)
  have g: "\<forall>q\<in>set (queue_of ?u r). req_granted q \<longrightarrow> req_tx q = t2" using held by (auto simp: drop_shared_sel)
  obtain v where v: "overwrites t2 r ?u = v" "?p \<in> set (queue_of v r)" "\<forall>q\<in>set (queue_of v r). \<not> req_granted q"
    "map_option tx_state (transactions v t2) = Some COMMITTED" "\<And>t'. t' \<noteq> t2 \<Longrightarrow> transactions v t' = transactions ?u t'"
    by (rule overwrites_run[OF u2 assms(6,8) u g p], rule that)
  obtain b where b: "b \<in> set (queue_of s r)" "req_tx b = t2" "req_granted b"
    using lk_invD(5)[OF assms(1,4), of r SHARED] assms(8) by auto
  then have "b \<in> set (queue_of ?u r)" using assms(2) by (simp add: drop_shared_sel)
  then have wait: "\<not> can_grant (queue_of ?u r) ?p" using b assms(2) by (force simp: can_grant_iff)
  have "can_grant (queue_of v r) ?p" using v(3) by (simp add: can_grant_iff)
  then have "lm_wait (overwrites t2 r) r ?p ?u = (Inr True, lm_grant r ?p v)"
    using wait v(1) imageI[OF v(2), of req_node] by (simp add: lm_wait_def Let_def del: enqueue_sel)
  then have run: "lock_exclusive (overwrites t2 r) (Some t1) r s = (Inr True, lm_grant r ?p v)"
    unfolding upgrade_run[OF assms(3,5,7) one_mode[OF assms(1,3,7)]] by (simp add: lm_request_def case_prod_beta del: enqueue_sel)
  have "transactions v t1 = Some ?y" using v(5)[OF assms(2)] assms(3) by (simp add: drop_shared_sel)
  then have t: "transactions (lm_grant r ?p v) t1 = Some (add_lock EXCLUSIVE r ?y)" "transactions (lm_grant r ?p v) t2 = transactions v t2"
    using assms(2) by (simp_all add: lm_grant_def)
  show ?thesis
    using run t v(4) assms(5) by (auto simp: add_lock_def)
qed

theorem upgrade_not_protected_witness:
  "\<exists>(s :: db) s'. map_option (\<lambda>x. set (shared_locks x)) (transactions s 1) = Some {\<lparr>rid_page_id = 1, rid_slot_num = 0\<rparr>} \<and>
     lock_exclusive (overwrites 2 \<lparr>rid_page_id = 1, rid_slot_num = 0\<rparr>) (Some 1) \<lparr>rid_page_id = 1, rid_slot_num = 0\<rparr> s = (Inr True, s') \<and>
     map_option tx_state (transactions s' 2) = Some COMMITTED"
proof -
  let ?r = "\<lparr>rid_page_id = 1, rid_slot_num = 0\<rparr> :: rid"
  let ?x = "\<lambda>t. (tx_new t)\<lparr>shared_locks := [?r]\<rparr>"
  let ?q = "\<lambda>n t. \<lparr>req_node = n, req_tx = t, req_mode = SHARED, req_granted = True\<rparr>"
  obtain p where "heap_inv p 1 [1]" by (rule small_heap)
  define s where "s = (sample_db p (tx_new 7))\<lparr>lock_table := [?r \<mapsto> [?q 0 1, ?q 1 2]], next_request := 2, transactions := [1 \<mapsto> ?x 1, 2 \<mapsto> ?x 2]\<rparr>"
  have q: "queue_of s r = (if r = ?r then [?q 0 1, ?q 1 2] else [])" for r by (simp add: s_def queue_of_def)
  have t: "transactions s = [1 \<mapsto> ?x 1, 2 \<mapsto> ?x 2]" "next_request s = 2" by (simp_all add: s_def)
  have l: "r \<in> locks_of m (?x t) \<longleftrightarrow> r = ?r \<and> m = SHARED" for r m t by (cases m) (auto simp: tx_new_def)
  have "lk_inv s"
  proof (rule lk_invI, goal_cases)
    case (4 r x)
    then consider "r = ?r" "x = ?q 0 1" | "r = ?r" "x = ?q 1 2" by (auto simp: q split: if_splits)
    then show ?case by cases (simp_all add: t l)
  next
    case (5 u tx m r)
    then consider "u = 1" "tx = ?x 1" | "u = 2" "tx = ?x 2" by (auto simp: t split: if_splits)
    then show ?case using 5(2) by cases (simp_all add: l q)
  next
    case (7 u tx)
    then consider "u = 1" "tx = ?x 1" | "u = 2" "tx = ?x 2" by (auto simp: t split: if_splits)
    then show ?case by cases (simp_all add: tx_new_def)
  qed (auto simp: q t split: if_splits)
  from upgrade_not_protected[OF this, of 1 2 "?x 1" "?x 2" ?r] obtain s' y2 where
    "lock_exclusive (overwrites 2 ?r) (Some 1) ?r s = (Inr True, s')" "transactions s' 2 = Some y2" "tx_state y2 = COMMITTED"
    by (simp add: t tx_new_def) blast
  then show ?thesis by (intro exI[of _ s] exI[of _ s']) (simp add: t tx_new_def)
qed

end
