(* ===== verification/Executor.thy ===== *)
theory Executor
  imports Table Expression
begin

text \<open>
  The query executor (\<open>src/execution/executor.cpp\<close>, \<open>src/execution/query_result.cpp\<close>,
  \<open>src/execution/operator\<close>): operators that give one row per call of \<open>next\<close>. The operator classes are the
  constructors of \<open>operator\<close>; the call returns the operator with its cursor moved.
\<close>

datatype operator =
    Sequential_Scan nat "transaction_id option" table_scan
  | Filter operator expr
  | Projection operator "nat list" schema

definition seq_scan_new :: "nat \<Rightarrow> transaction_id option \<Rightarrow> ('a table_state_scheme, operator) op" where
  "seq_scan_new h tx = bind_op (table_scan_begin h tx) (\<lambda>sc. ret_op (Sequential_Scan h tx sc))"

fun output_schema :: "operator \<Rightarrow> ('a table_state_scheme, schema) op" where
  "output_schema (Sequential_Scan h tx sc) = bind_op (table_op h) (\<lambda>tb. ret_op (tb_schema tb))"
| "output_schema (Filter child cond) = output_schema child"
| "output_schema (Projection child idxs s) = ret_op s"

definition projection_new :: "operator \<Rightarrow> nat list \<Rightarrow> ('a table_state_scheme, operator) op" where
  "projection_new child idxs =
     bind_op (output_schema child) (\<lambda>s.
     bind_op (lift_op (schema_projected s idxs)) (\<lambda>s'. ret_op (Projection child idxs s')))"

fun operator_init :: "operator \<Rightarrow> ('a table_state_scheme, unit) op" where
  "operator_init (Sequential_Scan h tx sc) = ret_op ()"
| "operator_init (Filter child cond) = operator_init child"
| "operator_init (Projection child idxs s) = operator_init child"

definition filter_keeps :: "expr \<Rightarrow> row \<Rightarrow> bool res" where
  \<comment> \<open>the assertion, then neither unknown nor false\<close>
  "filter_keeps cond r =
     bind_res (evaluate cond r) (\<lambda>comp.
     bind_res (assert_that (v_type comp = VT_BOOL)) (\<lambda>_.
       if v_is_null comp then Inr False else as_bool comp))"

definition project_row :: "nat list \<Rightarrow> row \<Rightarrow> row res" where
  "project_row idxs r = bind_res (map_res (row_get r) idxs) (\<lambda>vs. Inr \<lparr>r_values = vs\<rparr>)"

fun filter_next ::
  "('op \<Rightarrow> ('s, row option \<times> 'op) op) \<Rightarrow> expr \<Rightarrow> nat \<Rightarrow> 'op \<Rightarrow> ('s, row option \<times> 'op) op" where
  \<comment> \<open>the loop of \<open>FilterOperator::next\<close> over the \<open>next\<close> of its child\<close>
  "filter_next child_next cond 0 child = throw_op Diverges"
| "filter_next child_next cond (Suc n) child =
     bind_op (child_next child) (\<lambda>(record, child').
       case record of
         None \<Rightarrow> ret_op (None, child')
       | Some r \<Rightarrow>
           bind_op (lift_op (filter_keeps cond r)) (\<lambda>keep.
             if keep then ret_op (Some r, child') else filter_next child_next cond n child'))"

primrec op_cursor :: "operator \<Rightarrow> table_scan" where
  \<comment> \<open>the only part of a tree of operators that moves: the cursor of its leaf\<close>
  "op_cursor (Sequential_Scan h tx sc) = sc"
| "op_cursor (Filter child cond) = op_cursor child"
| "op_cursor (Projection child idxs s) = op_cursor child"

primrec with_cursor :: "table_scan \<Rightarrow> operator \<Rightarrow> operator" where
  "with_cursor sc' (Sequential_Scan h tx sc) = Sequential_Scan h tx sc'"
| "with_cursor sc' (Filter child cond) = Filter (with_cursor sc' child) cond"
| "with_cursor sc' (Projection child idxs s) = Projection (with_cursor sc' child) idxs s"

primrec next_from ::
  "'a waiting_env \<Rightarrow> nat \<Rightarrow> operator \<Rightarrow> table_scan \<Rightarrow> ('a table_state_scheme, row option \<times> table_scan) op" where
  \<comment> \<open>\<open>next\<close> of the three operators, with the cursor where \<open>sc\<close> is; \<open>n\<close> bounds the rows one call of a
     filter can skip\<close>
  "next_from others n (Sequential_Scan h tx _) sc =
     bind_op (table_scan_next others sc) (\<lambda>(result, sc').
     ret_op (map_option (\<lambda>x. \<lparr>r_values = t_values (snd x)\<rparr>) result, sc'))"
| "next_from others n (Filter child cond) sc = filter_next (next_from others n child) cond n sc"
| "next_from others n (Projection child idxs s) sc =
     bind_op (next_from others n child sc) (\<lambda>(record, sc').
       case record of
         None \<Rightarrow> ret_op (None, sc')
       | Some r \<Rightarrow> bind_op (lift_op (project_row idxs r)) (\<lambda>r'. ret_op (Some r', sc')))"

definition operator_next ::
  "'a waiting_env \<Rightarrow> nat \<Rightarrow> operator \<Rightarrow> ('a table_state_scheme, row option \<times> operator) op" where
  "operator_next others n q =
     bind_op (next_from others n q (op_cursor q)) (\<lambda>(record, sc'). ret_op (record, with_cursor sc' q))"

fun operator_end :: "operator \<Rightarrow> ('a table_state_scheme, unit) op" where
  \<comment> \<open>the destructors\<close>
  "operator_end (Sequential_Scan h tx sc) = table_scan_end sc"
| "operator_end (Filter child cond) = operator_end child"
| "operator_end (Projection child idxs s) = operator_end child"

definition executor_execute :: "operator \<Rightarrow> ('a table_state_scheme, operator) op" where
  "executor_execute root = bind_op (operator_init root) (\<lambda>_. ret_op root)"

definition query_next :: "'a waiting_env \<Rightarrow> nat \<Rightarrow> operator \<Rightarrow> ('a table_state_scheme, row option \<times> operator) op" where
  "query_next = operator_next"

definition query_output_schema :: "operator \<Rightarrow> ('a table_state_scheme, schema) op" where
  "query_output_schema = output_schema"

fun query_collect :: "'a waiting_env \<Rightarrow> nat \<Rightarrow> nat \<Rightarrow> operator \<Rightarrow> ('a table_state_scheme, row list \<times> operator) op" where
  \<comment> \<open>a caller that asks for rows until there is none\<close>
  "query_collect others n 0 q = throw_op Diverges"
| "query_collect others n (Suc k) q =
     bind_op (query_next others n q) (\<lambda>(record, q').
       case record of
         None \<Rightarrow> ret_op ([], q')
       | Some r \<Rightarrow> bind_op (query_collect others n k q') (\<lambda>(rs, q''). ret_op (r # rs, q'')))"

end
