(* ===== verification/Executor_Laws.thy ===== *)
theory Executor_Laws
  imports Table_Laws Executor Expression_Spec
begin

text \<open>
  Queries as cursors. The locale \<open>row_cursor\<close> is the contract of \<open>next\<close>; the scan of a table satisfies it
  (interpretation \<open>tscan\<close>), filters and projections pass it on, so every tree of operators is a cursor over the rows
  of the relational expression \<open>op_rows\<close>. \<open>op_type\<close> says when a tree is well typed.
  The scan may belong to a transaction: then it takes a shared lock on every record, which \<open>shared_free\<close> says it gets
  at once, and \<open>scan_state\<close> says that it changes nothing but the cache and the locks.
\<close>

section \<open>Row cursors\<close>

text \<open>
  The contract of \<open>next\<close>: a cursor stands before a list of rows, gives them one by one and then none. It is
  what an operator relies on of its child and what it gives to its parent.
\<close>

locale row_cursor =
  fixes at :: "'s \<Rightarrow> 'c \<Rightarrow> 'r list \<Rightarrow> bool"
    and pull :: "'c \<Rightarrow> ('s, 'r option \<times> 'c) op"
  assumes pull_none: "at s c [] \<Longrightarrow> \<exists>s' c'. pull c s = (Inr (None, c'), s') \<and> at s' c' []"
    and pull_some: "at s c (x # xs) \<Longrightarrow> \<exists>s' c'. pull c s = (Inr (Some x, c'), s') \<and> at s' c' xs"
begin

lemma mapped:
  assumes "\<And>x. ok x \<Longrightarrow> f x = Inr (g x)"
  shows "row_cursor (\<lambda>s c ys. \<exists>xs. at s c xs \<and> (\<forall>x\<in>set xs. ok x) \<and> ys = map g xs)
    (\<lambda>c. bind_op (pull c) (\<lambda>(r, c'). case r of None \<Rightarrow> ret_op (None, c')
      | Some x \<Rightarrow> bind_op (lift_op (f x)) (\<lambda>y. ret_op (Some y, c'))))"
proof
  fix s c
  assume "\<exists>xs. at s c xs \<and> (\<forall>x\<in>set xs. ok x) \<and> [] = map g xs"
  then have "at s c []" by auto
  from pull_none[OF this]
  show "\<exists>s' c'. bind_op (pull c) (\<lambda>(r, c'). case r of None \<Rightarrow> ret_op (None, c')
      | Some x \<Rightarrow> bind_op (lift_op (f x)) (\<lambda>y. ret_op (Some y, c'))) s = (Inr (None, c'), s') \<and>
      (\<exists>xs. at s' c' xs \<and> (\<forall>x\<in>set xs. ok x) \<and> [] = map g xs)"
    by (auto simp: bind_op_def ret_op_def)
next
  fix s c y ys
  assume "\<exists>xs. at s c xs \<and> (\<forall>x\<in>set xs. ok x) \<and> y # ys = map g xs"
  then obtain x xs where x: "at s c (x # xs)" "ok x" "\<forall>x\<in>set xs. ok x" "y = g x" "ys = map g xs" by auto
  from pull_some[OF x(1)] x(2-5) assms[OF x(2)]
  show "\<exists>s' c'. bind_op (pull c) (\<lambda>(r, c'). case r of None \<Rightarrow> ret_op (None, c')
      | Some x \<Rightarrow> bind_op (lift_op (f x)) (\<lambda>y. ret_op (Some y, c'))) s = (Inr (Some y, c'), s') \<and>
      (\<exists>xs. at s' c' xs \<and> (\<forall>x\<in>set xs. ok x) \<and> ys = map g xs)"
    by (fastforce simp: bind_op_def ret_op_def lift_op_def)
qed

end

lemma filter_next_run:
  assumes "row_cursor at pull" "at s c xs" "length xs < n" "\<forall>x\<in>set xs. filter_keeps cond x = Inr (keep x)"
  shows "\<exists>s' c'. filter_next pull cond n c s = (Inr (case filter keep xs of [] \<Rightarrow> None | x # _ \<Rightarrow> Some x, c'), s') \<and>
    at s' c' (tl (dropWhile (\<lambda>x. \<not> keep x) xs))"
  using assms(2-4)
proof (induction n arbitrary: s c xs)
  case 0
  then show ?case by simp
next
  case (Suc n)
  note rc = row_cursor.pull_none[OF assms(1)] row_cursor.pull_some[OF assms(1)]
  show ?case
  proof (cases xs)
    case Nil
    with rc(1)[of s c] Suc.prems(1) show ?thesis by (auto simp: bind_op_def ret_op_def)
  next
    case (Cons x ys)
    from rc(2)[of s c x ys] Suc.prems(1) Cons obtain s1 c1 where
      p: "pull c s = (Inr (Some x, c1), s1)" "at s1 c1 ys" by auto
    have k: "filter_keeps cond x = Inr (keep x)" using Suc.prems(3) Cons by simp
    show ?thesis
    proof (cases "keep x")
      case True
      then show ?thesis using p k Cons by (auto simp: bind_op_def ret_op_def lift_op_def)
    next
      case False
      from Suc.IH[OF p(2)] Suc.prems(2,3) Cons obtain s2 c2 where
        "filter_next pull cond n c1 s1 = (Inr (case filter keep ys of [] \<Rightarrow> None | x # _ \<Rightarrow> Some x, c2), s2)"
        "at s2 c2 (tl (dropWhile (\<lambda>x. \<not> keep x) ys))" by auto
      then show ?thesis using p(1) k Cons False by (auto simp: bind_op_def lift_op_def)
    qed
  qed
qed

lemma filter_first: "filter P (dropWhile (\<lambda>x. \<not> P x) xs) = filter P xs" "filter P (tl (dropWhile (\<lambda>x. \<not> P x) xs)) = tl (filter P xs)"
  by (induction xs) auto

lemma length_after_drop: "length (tl (dropWhile P xs)) \<le> length xs"
  by (metis diff_le_self length_dropWhile_le length_tl order_trans)

lemma set_after_drop: "x \<in> set (tl (dropWhile P xs)) \<Longrightarrow> x \<in> set xs"
  by (metis list.set_sel(2) set_dropWhileD tl_Nil)

lemma filtered:
  assumes "row_cursor at pull"
  shows "row_cursor (\<lambda>s c ys. \<exists>xs. at s c xs \<and> length xs < n \<and> (\<forall>x\<in>set xs. filter_keeps cond x = Inr (keep x)) \<and> ys = filter keep xs)
    (filter_next pull cond n)"
proof
  fix s c
  assume "\<exists>xs. at s c xs \<and> length xs < n \<and> (\<forall>x\<in>set xs. filter_keeps cond x = Inr (keep x)) \<and> [] = filter keep xs"
  then obtain xs where x: "at s c xs" "length xs < n" "\<forall>x\<in>set xs. filter_keeps cond x = Inr (keep x)" "filter keep xs = []"
    by auto
  let ?r = "tl (dropWhile (\<lambda>x. \<not> keep x) xs)"
  have r: "filter keep ?r = []" "length ?r < n" "\<forall>x\<in>set ?r. filter_keeps cond x = Inr (keep x)"
    using filter_first(2)[of keep xs] length_after_drop[of "\<lambda>x. \<not> keep x" xs] x set_after_drop by (simp, simp, fast)
  obtain s' c' where "filter_next pull cond n c s = (Inr (None, c'), s')" "at s' c' ?r"
    using filter_next_run[OF assms x(1-3)] x(4) by auto
  then show "\<exists>s' c'. filter_next pull cond n c s = (Inr (None, c'), s') \<and>
      (\<exists>xs. at s' c' xs \<and> length xs < n \<and> (\<forall>x\<in>set xs. filter_keeps cond x = Inr (keep x)) \<and> [] = filter keep xs)"
    using r by (intro exI conjI) auto
next
  fix s c y ys
  assume "\<exists>xs. at s c xs \<and> length xs < n \<and> (\<forall>x\<in>set xs. filter_keeps cond x = Inr (keep x)) \<and> y # ys = filter keep xs"
  then obtain xs where x: "at s c xs" "length xs < n" "\<forall>x\<in>set xs. filter_keeps cond x = Inr (keep x)" "filter keep xs = y # ys"
    by auto
  let ?r = "tl (dropWhile (\<lambda>x. \<not> keep x) xs)"
  have r: "filter keep ?r = ys" "length ?r < n" "\<forall>x\<in>set ?r. filter_keeps cond x = Inr (keep x)"
    using filter_first(2)[of keep xs] length_after_drop[of "\<lambda>x. \<not> keep x" xs] x set_after_drop by (simp, simp, fast)
  obtain s' c' where "filter_next pull cond n c s = (Inr (Some y, c'), s')" "at s' c' ?r"
    using filter_next_run[OF assms x(1-3)] x(4) by auto
  then show "\<exists>s' c'. filter_next pull cond n c s = (Inr (Some y, c'), s') \<and>
      (\<exists>xs. at s' c' xs \<and> length xs < n \<and> (\<forall>x\<in>set xs. filter_keeps cond x = Inr (keep x)) \<and> ys = filter keep xs)"
    using r by (intro exI conjI) auto
qed

section \<open>The scan of a table\<close>

definition row_of :: "schema \<Rightarrow> rid \<times> byte list \<Rightarrow> rid \<times> tuple" where
  "row_of s x = (fst x, case tuple_of_bytes (snd x) s of Inr t \<Rightarrow> t | Inl e \<Rightarrow> \<lparr>t_schema = s, t_values = []\<rparr>)"

definition readable :: "schema \<Rightarrow> rid \<times> byte list \<Rightarrow> bool" where
  "readable s x \<longleftrightarrow> (\<exists>t. tuple_of_bytes (snd x) s = Inr t)"

definition scan_rows :: "transaction_id option \<Rightarrow> pool \<Rightarrow> pool \<Rightarrow> table_scan \<Rightarrow> (rid \<times> tuple) list \<Rightarrow> bool" where
  \<comment> \<open>a cursor of this transaction, opened when the pool was \<open>p0\<close>, that still has these rows to give\<close>
  "scan_rows tx p0 p sc rows \<longleftrightarrow>
     (\<exists>q qs. scan_at p0 p (ts_heap_scan sc) q qs \<and> length qs < kCHAIN_FUEL \<and> ts_tx sc = tx \<and>
       (\<forall>x\<in>set (scan_rest p0 (ts_heap_scan sc) q qs). readable (ts_schema sc) x) \<and>
       rows = map (row_of (ts_schema sc)) (scan_rest p0 (ts_heap_scan sc) q qs))"

lemma scan_rows_step:
  fixes s :: "'a table_state_scheme"
  assumes "scan_rows tx p0 (ts_pool s) sc rows" "shared_free s tx"
  obtains p' sc' s1 where
    "table_scan_next others sc s = (Inr (case rows of [] \<Rightarrow> None | x # _ \<Rightarrow> Some x, sc'), s1\<lparr>ts_pool := p'\<rparr>)"
    "scan_rows tx p0 p' sc' (tl rows)" "same_data s s1" "shared_free s1 tx" "tx_log s1 tx = tx_log s tx" "tx = None \<Longrightarrow> s1 = s"
proof -
  from assms(1) obtain q qs where a: "scan_at p0 (ts_pool s) (ts_heap_scan sc) q qs" "length qs < kCHAIN_FUEL"
    "ts_tx sc = tx" "\<forall>x\<in>set (scan_rest p0 (ts_heap_scan sc) q qs). readable (ts_schema sc) x"
    "rows = map (row_of (ts_schema sc)) (scan_rest p0 (ts_heap_scan sc) q qs)"
    by (auto simp: scan_rows_def)
  let ?rest = "scan_rest p0 (ts_heap_scan sc) q qs"
  obtain s1 where l: "locked_shared others tx (heap_scan_next_rid (ts_heap_scan sc)) s = (Inr True, s1)" "same_data s s1" "shared_free s1 tx"
    "tx_log s1 tx = tx_log s tx" "tx = None \<Longrightarrow> s1 = s"
    by (rule locked_shared_free[OF assms(2), of others "heap_scan_next_rid (ts_heap_scan sc)"], rule that)
  have pool: "ts_pool s1 = ts_pool s" by (rule same_dataD(1)[OF l(2)])
  from scan_next_spec[OF a(1,2)] obtain hs p' q' qs' where n:
    "heap_scan_next (ts_heap_scan sc) (ts_pool s) = (Inr (case ?rest of [] \<Rightarrow> None | x # xs \<Rightarrow> Some x, hs), p')"
    "scan_at p0 p' hs q' qs'" "scan_rest p0 hs q' qs' = tl ?rest" "length qs' \<le> length qs"
    unfolding heap_scan_next_def by blast
  have st: "scan_rows tx p0 p' (sc\<lparr>ts_heap_scan := hs\<rparr>) (tl rows)"
    unfolding scan_rows_def
    by (rule exI[of _ q'], rule exI[of _ qs'])
      (use a n in \<open>auto simp: map_tl dest: list.set_sel(2)[rotated] split: list.splits\<close>)
  have run: "table_scan_next others sc s =
      (Inr (case rows of [] \<Rightarrow> None | x # _ \<Rightarrow> Some x, sc\<lparr>ts_heap_scan := hs\<rparr>), s1\<lparr>ts_pool := p'\<rparr>)"
  proof (cases ?rest)
    case Nil
    then show ?thesis using a l(1) n(1) pool by (simp add: table_scan_next_def bind_op_def ret_op_def on_pool_def)
  next
    case (Cons x xs)
    then obtain t where "tuple_of_bytes (snd x) (ts_schema sc) = Inr t" using a(4) by (auto simp: readable_def)
    then show ?thesis using a l(1) n(1) pool Cons
      by (cases x) (simp add: table_scan_next_def bind_op_def ret_op_def on_pool_def lift_op_def row_of_def)
  qed
  show ?thesis by (rule that[OF run st l(2-5)])
qed

lemma table_scan_begin_run:
  fixes s :: "'a table_state_scheme"
  assumes "table_at s h tb ps" "\<forall>x\<in>set (heap_list (pool_page (ts_pool s)) ps). readable (tb_schema tb) x" "pool_room 2 (ts_pool s)"
  obtains p sc where "table_scan_begin h tx s = (Inr sc, s\<lparr>ts_pool := p\<rparr>)"
    "scan_rows tx (ts_pool s) p sc (map (row_of (tb_schema tb)) (heap_list (pool_page (ts_pool s)) ps))" "ts_schema sc = tb_schema tb"
proof -
  have tb: "table_objects s h = Some tb" "heap_inv (ts_pool s) (tb_first_page tb) ps" using assms(1) by (simp_all add: table_at_def)
  note hi = heap_invD[OF tb(2)]
  have room: "pool_room (Suc (Suc 0)) (ts_pool s)" using assms(3) by (simp add: numeral_2_eq_2)
  obtain hs p qs where b: "heap_scan_begin (tb_first_page tb) (ts_pool s) = (Inr hs, p)" "scan_at (ts_pool s) p hs (tb_first_page tb) qs"
    "ps = tb_first_page tb # qs" "scan_rest (ts_pool s) hs (tb_first_page tb) qs = heap_list (pool_page (ts_pool s)) ps"
    by (rule scan_begin_spec[OF tb(2) room])
  have l: "length qs < kCHAIN_FUEL" using chain_length[OF hi(4) heap_chain_valid[OF hi(2)]] b(3) by simp
  let ?sc = "\<lparr>ts_heap_scan = hs, ts_schema = tb_schema tb, ts_tx = tx\<rparr>"
  have "table_scan_begin h tx s = (Inr ?sc, s\<lparr>ts_pool := p\<rparr>)"
    using tb(1) b(1) by (simp add: table_scan_begin_def bind_op_def table_op_def on_pool_def ret_op_def)
  moreover have "scan_rows tx (ts_pool s) p ?sc (map (row_of (tb_schema tb)) (heap_list (pool_page (ts_pool s)) ps))"
    unfolding scan_rows_def
    by (rule exI[of _ "tb_first_page tb"], rule exI[of _ qs]) (use b l assms(2) in simp)
  ultimately show ?thesis by (rule that) simp
qed

lemma table_scan_end_run:
  fixes s :: "'a table_state_scheme"
  assumes "scan_rows tx p0 (ts_pool s) sc rows" "heap_inv p0 q ps"
  obtains p where "table_scan_end sc s = (Inr (), s\<lparr>ts_pool := p\<rparr>)" "heap_inv p q ps"
    "heap_map (pool_page p) ps = heap_map (pool_page p0) ps" "heap_frame {} p0 p" "pool_used p = pool_used p0"
proof -
  from assms(1) obtain q' qs' where d: "scan_at p0 (ts_pool s) (ts_heap_scan sc) q' qs'" by (auto simp: scan_rows_def)
  obtain p where e: "heap_scan_end (ts_heap_scan sc) (ts_pool s) = (Inr (), p)" "pool_st page_view {} p" "heap_frame {} p0 p"
    "pool_used p = pool_used p0"
    by (rule scan_end_spec[OF d])
  have v: "page_view (pool_page p x) = page_view (pool_page p0 x)" for x using e(3) by (simp add: heap_frame_def)
  note w = heap_view_cong[of ps "pool_page p" "pool_page p0", OF v]
  have "heap_inv p q ps" using e heap_invD[OF assms(2)] w(1) by (simp add: heap_inv_def)
  then show ?thesis
    by (rule that[rotated]) (use e w(2) in \<open>simp_all add: table_scan_end_def on_pool_def\<close>)
qed

definition scan_state :: "transaction_id option \<Rightarrow> 'a table_state_scheme \<Rightarrow> 'a table_state_scheme \<Rightarrow> bool" where
  \<comment> \<open>what a scan changes: the cache of the pool, and the locks of its transaction\<close>
  "scan_state tx s0 s \<longleftrightarrow>
     same_data (s0\<lparr>ts_pool := ts_pool s\<rparr>) s \<and> shared_free s tx \<and> tx_log s tx = tx_log s0 tx \<and> (tx = None \<longrightarrow> s = s0\<lparr>ts_pool := ts_pool s\<rparr>)"

lemma scan_state_step:
  fixes s :: "'a table_state_scheme"
  assumes "scan_state tx s0 s" "same_data s s1" "shared_free s1 tx" "tx_log s1 tx = tx_log s tx" "tx = None \<Longrightarrow> s1 = s"
  shows "scan_state tx s0 (s1\<lparr>ts_pool := p\<rparr>)"
proof -
  have "same_data (s0\<lparr>ts_pool := ts_pool s\<rparr>) s1" using assms(1,2) by (simp add: scan_state_def same_data_def)
  from same_dataD[OF this] have d: "same_data (s0\<lparr>ts_pool := p\<rparr>) (s1\<lparr>ts_pool := p\<rparr>)"
    by (cases s0; cases s1) (simp add: same_data_def lock_state.defs table_state.defs)
  have "tx = None \<Longrightarrow> s1\<lparr>ts_pool := p\<rparr> = s0\<lparr>ts_pool := p\<rparr>"
    using assms(1,5) by (cases s0; cases s1; cases s) (simp add: scan_state_def)
  then show ?thesis using d assms(1,3,4) by (auto simp: scan_state_def)
qed

lemma scan_state_start: "shared_free s tx \<Longrightarrow> scan_state tx s (s\<lparr>ts_pool := p\<rparr>)"
  by (simp add: scan_state_def same_data_def)

definition scan_cursor ::
  "transaction_id option \<Rightarrow> 'a table_state_scheme \<Rightarrow> 'a table_state_scheme \<Rightarrow> table_scan \<Rightarrow> (rid \<times> tuple) list \<Rightarrow> bool" where
  \<comment> \<open>the same in a state that a scan has reached\<close>
  "scan_cursor tx s0 s sc rows \<longleftrightarrow> scan_state tx s0 s \<and> scan_rows tx (ts_pool s0) (ts_pool s) sc rows"

lemma scan_cursor_step:
  assumes "scan_cursor tx s0 s sc rows"
  shows "\<exists>s' sc'. table_scan_next others sc s = (Inr (case rows of [] \<Rightarrow> None | x # _ \<Rightarrow> Some x, sc'), s') \<and> scan_cursor tx s0 s' sc' (tl rows)"
proof -
  from assms have s: "scan_state tx s0 s" "scan_rows tx (ts_pool s0) (ts_pool s) sc rows" by (simp_all add: scan_cursor_def)
  have free: "shared_free s tx" using s(1) by (simp add: scan_state_def)
  obtain p' sc' s1 where
    n: "table_scan_next others sc s = (Inr (case rows of [] \<Rightarrow> None | x # _ \<Rightarrow> Some x, sc'), s1\<lparr>ts_pool := p'\<rparr>)"
    "scan_rows tx (ts_pool s0) p' sc' (tl rows)" "same_data s s1" "shared_free s1 tx" "tx_log s1 tx = tx_log s tx" "tx = None \<Longrightarrow> s1 = s"
    by (rule scan_rows_step[OF s(2) free, of others], rule that)
  then have "scan_cursor tx s0 (s1\<lparr>ts_pool := p'\<rparr>) sc' (tl rows)"
    using scan_state_step[OF s(1) n(3-6), of p'] by (simp add: scan_cursor_def)
  with n(1) show ?thesis by blast
qed

interpretation tscan: row_cursor "scan_cursor tx s0" "table_scan_next others" for tx and s0 :: "'a table_state_scheme" and others
proof
  fix s sc
  assume "scan_cursor tx s0 s sc []"
  from scan_cursor_step[OF this, of others]
  show "\<exists>s' c'. table_scan_next others sc s = (Inr (None, c'), s') \<and> scan_cursor tx s0 s' c' []" by simp
next
  fix s sc x xs
  assume "scan_cursor tx s0 s sc (x # xs)"
  from scan_cursor_step[OF this, of others]
  show "\<exists>s' c'. table_scan_next others sc s = (Inr (Some x, c'), s') \<and> scan_cursor tx s0 s' c' xs" by simp
qed

section \<open>Operators\<close>

definition selects :: "expr \<Rightarrow> row \<Rightarrow> bool" where
  \<comment> \<open>the condition is true of the row: neither false nor unknown\<close>
  "selects cond r \<longleftrightarrow> evaluate cond r = Inr (value_of (V_bool True))"

primrec op_rows :: "operator \<Rightarrow> row list \<Rightarrow> row list" where
  \<comment> \<open>the query as relational algebra: selection by the rows whose condition is true, projection by the columns\<close>
  "op_rows (Sequential_Scan h tx sc) rows = rows"
| "op_rows (Filter child cond) rows = filter (selects cond) (op_rows child rows)"
| "op_rows (Projection child idxs s) rows = map (\<lambda>r. \<lparr>r_values = map (\<lambda>i. r_values r ! i) idxs\<rparr>) (op_rows child rows)"

primrec op_at :: "transaction_id option \<Rightarrow> 'a table_state_scheme \<Rightarrow> nat \<Rightarrow> operator \<Rightarrow> 'a table_state_scheme \<Rightarrow> table_scan \<Rightarrow> row list \<Rightarrow> bool" where
  "op_at tx s0 n (Sequential_Scan h tx' sc0) = (\<lambda>s c ys. \<exists>xs. scan_cursor tx s0 s c xs \<and> (\<forall>x\<in>set xs. True) \<and>
     ys = map (\<lambda>x. \<lparr>r_values = t_values (snd x)\<rparr>) xs)"
| "op_at tx s0 n (Filter child cond) = (\<lambda>s c ys. \<exists>xs. op_at tx s0 n child s c xs \<and> length xs < n \<and>
     (\<forall>x\<in>set xs. filter_keeps cond x = Inr (selects cond x)) \<and> ys = filter (selects cond) xs)"
| "op_at tx s0 n (Projection child idxs sch) = (\<lambda>s c ys. \<exists>xs. op_at tx s0 n child s c xs \<and>
     (\<forall>x\<in>set xs. \<forall>i\<in>set idxs. i < length (r_values x)) \<and> ys = map (\<lambda>r. \<lparr>r_values = map (\<lambda>i. r_values r ! i) idxs\<rparr>) xs)"

lemma project_row_ok:
  "\<forall>i\<in>set idxs. i < length (r_values r) \<Longrightarrow> project_row idxs r = Inr \<lparr>r_values = map (\<lambda>i. r_values r ! i) idxs\<rparr>"
  using map_res_Inr[of idxs "row_get r" "\<lambda>i. r_values r ! i"] by (simp add: project_row_def row_get_def)

lemma operator_cursor: "row_cursor (op_at tx s0 n q) (next_from others n q)"
proof (induction q)
  case (Sequential_Scan h tx' sc)
  have "next_from others n (Sequential_Scan h tx' sc) = (\<lambda>c. bind_op (table_scan_next others c) (\<lambda>(r, c'). case r of None \<Rightarrow> ret_op (None, c')
      | Some x \<Rightarrow> bind_op (lift_op (Inr \<lparr>r_values = t_values (snd x)\<rparr>)) (\<lambda>y. ret_op (Some y, c'))))"
    by (auto simp: fun_eq_iff bind_op_def ret_op_def lift_op_def split: prod.split sum.split option.split)
  then show ?case
    using tscan.mapped[of "\<lambda>_. True" "\<lambda>x. Inr \<lparr>r_values = t_values (snd x)\<rparr>" "\<lambda>x. \<lparr>r_values = t_values (snd x)\<rparr>" tx s0 others] by simp
next
  case (Filter child cond)
  show ?case unfolding op_at.simps next_from.simps by (rule filtered[OF Filter])
next
  case (Projection child idxs sch)
  from row_cursor.mapped[OF Projection, of "\<lambda>x. \<forall>i\<in>set idxs. i < length (r_values x)" "project_row idxs"
      "\<lambda>r. \<lparr>r_values = map (\<lambda>i. r_values r ! i) idxs\<rparr>", OF project_row_ok]
  show ?case by simp
qed

lemma next_from_with [simp]: "next_from others n (with_cursor sc q) = next_from others n q"
  by (induction q) (rule ext, simp)+

lemma cursor_simps [simp]:
  "op_cursor (with_cursor sc q) = sc" "op_at tx s0 n (with_cursor sc q) = op_at tx s0 n q"
  "with_cursor sc (with_cursor sc' q) = with_cursor sc q"
  "op_rows (with_cursor sc q) = op_rows q" "operator_init q s = (Inr (), s)" "operator_end q = table_scan_end (op_cursor q)"
  by (induction q) (auto simp: fun_eq_iff ret_op_def)

lemma op_at_scan: "op_at tx s0 n q s c rows \<Longrightarrow> \<exists>xs. scan_cursor tx s0 s c xs"
  by (induction q arbitrary: rows) auto

lemma query_collect_run:
  assumes "op_at tx s0 n q s (op_cursor q) rows" "length rows < k"
  shows "\<exists>c' s'. query_collect others n k q s = (Inr (rows, with_cursor c' q), s') \<and> op_at tx s0 n q s' c' []"
  using assms
proof (induction k arbitrary: q s rows)
  case (Suc k)
  note rc = row_cursor.pull_none[OF operator_cursor] row_cursor.pull_some[OF operator_cursor]
  show ?case
  proof (cases rows)
    case Nil
    with rc(1)[of tx s0 n q s "op_cursor q" others] Suc.prems(1) show ?thesis
      by (auto simp: bind_op_def ret_op_def query_next_def operator_next_def)
  next
    case (Cons x xs)
    with rc(2)[of tx s0 n q s "op_cursor q" x xs others] Suc.prems(1) obtain s1 c1 where
      p: "next_from others n q (op_cursor q) s = (Inr (Some x, c1), s1)" "op_at tx s0 n q s1 c1 xs" by auto
    have "op_at tx s0 n (with_cursor c1 q) s1 (op_cursor (with_cursor c1 q)) xs" using p(2) by simp
    from Suc.IH[OF this] Suc.prems(2) Cons obtain c2 s2 where
      "query_collect others n k (with_cursor c1 q) s1 = (Inr (xs, with_cursor c2 q), s2)" "op_at tx s0 n q s2 c2 []" by auto
    then show ?thesis using p(1) Cons by (auto simp: bind_op_def ret_op_def query_next_def operator_next_def)
  qed
qed simp

section \<open>Well-typed queries\<close>

inductive op_type :: "value_type list \<Rightarrow> operator \<Rightarrow> value_type list \<Rightarrow> bool" for ts where
  Scan: "op_type ts (Sequential_Scan h tx sc) ts"
| Select: "op_type ts child us \<Longrightarrow> expr_type us cond VT_BOOL \<Longrightarrow> op_type ts (Filter child cond) us"
| Project: "op_type ts child us \<Longrightarrow> \<forall>i\<in>set idxs. i < length us \<Longrightarrow> op_type ts (Projection child idxs s) (map (\<lambda>i. us ! i) idxs)"

lemma filter_keeps_typed:
  assumes "expr_type us cond VT_BOOL" "row_ok us r"
  shows "filter_keeps cond r = Inr (selects cond r)"
proof -
  obtain v where v: "evaluate cond r = Inr v" "v_type v = VT_BOOL" "value_wf v" using evaluate_typed[OF assms] by blast
  show ?thesis
  proof (cases "v_is_null v")
    case True
    then have "v \<noteq> value_of (V_bool True)" by (auto simp: value_of_def)
    then show ?thesis using True v by (simp add: filter_keeps_def selects_def assert_that_def)
  next
    case False
    from as_bool_of[OF v(3) False v(2)] obtain b where "as_bool v = Inr b" "v = value_of (V_bool b)" by blast
    then show ?thesis using False v(1,2) by (simp add: filter_keeps_def selects_def assert_that_def value_of_def)
  qed
qed

lemma op_rows_typed:
  "op_type ts q us \<Longrightarrow> \<forall>r\<in>set rows. row_ok ts r \<Longrightarrow> \<forall>r\<in>set (op_rows q rows). row_ok us r"
  by (induction rule: op_type.induct) (auto simp: row_ok_def list_all2_conv_all_nth)

lemma op_rows_length: "length (op_rows q rows) \<le> length rows"
  by (induction q) (auto intro: order_trans[OF length_filter_le])

lemma op_at_typed:
  assumes "op_type ts q us" "scan_cursor tx s0 s c xs" "\<forall>r\<in>set (map (\<lambda>x. \<lparr>r_values = t_values (snd x)\<rparr>) xs). row_ok ts r" "length xs < n"
  shows "op_at tx s0 n q s c (op_rows q (map (\<lambda>x. \<lparr>r_values = t_values (snd x)\<rparr>) xs))"
  using assms(1)
proof induction
  case (Scan h tx' sc)
  then show ?case using assms(2) by auto
next
  case (Select child us cond)
  let ?rows = "map (\<lambda>x. \<lparr>r_values = t_values (snd x)\<rparr>) xs"
  have "\<forall>r\<in>set (op_rows child ?rows). row_ok us r" by (rule op_rows_typed[OF Select(1) assms(3)])
  moreover have "length (op_rows child ?rows) < n" using op_rows_length[of child ?rows] assms(4) by simp
  ultimately show ?case using Select(3) filter_keeps_typed[OF Select(2)] by auto
next
  case (Project child us idxs sch)
  let ?rows = "map (\<lambda>x. \<lparr>r_values = t_values (snd x)\<rparr>) xs"
  have "\<forall>r\<in>set (op_rows child ?rows). row_ok us r" by (rule op_rows_typed[OF Project(1) assms(3)])
  then have "\<forall>r\<in>set (op_rows child ?rows). \<forall>i\<in>set idxs. i < length (r_values r)"
    using Project(2) by (metis list_all2_lengthD row_ok_def)
  then show ?case using Project(3) by auto
qed

section \<open>A query over a table\<close>

definition run_query ::
  "'a waiting_env \<Rightarrow> nat \<Rightarrow> nat \<Rightarrow> transaction_id option \<Rightarrow> operator \<Rightarrow> ('a table_state_scheme, row list) op" where
  \<comment> \<open>opening the scan under the tree \<open>q\<close>, executing, asking for all rows, and the destructors\<close>
  "run_query others n h tx q =
     bind_op (seq_scan_new h tx) (\<lambda>leaf.
     bind_op (executor_execute (with_cursor (op_cursor leaf) q)) (\<lambda>root.
     bind_op (query_collect others n n root) (\<lambda>(rows, root').
     bind_op (operator_end root') (\<lambda>_. ret_op rows))))"

definition table_rows :: "'a table_state_scheme \<Rightarrow> table \<Rightarrow> page_id list \<Rightarrow> row list" where
  \<comment> \<open>the rows of a table, in the order of pages and slots\<close>
  "table_rows s tb ps =
     map (\<lambda>x. \<lparr>r_values = t_values (snd (row_of (tb_schema tb) x))\<rparr>) (heap_list (pool_page (ts_pool s)) ps)"

lemma query_run:
  fixes s :: "'a table_state_scheme"
  assumes "table_at s h tb ps" "op_type ts q us" "\<forall>x\<in>set (heap_list (pool_page (ts_pool s)) ps). readable (tb_schema tb) x"
    "\<forall>r\<in>set (table_rows s tb ps). row_ok ts r" "length (table_rows s tb ps) < n" "pool_room 2 (ts_pool s)" "shared_free s tx"
  obtains s' where "run_query others n h tx q s = (Inr (op_rows q (table_rows s tb ps)), s')" "scan_state tx s s'"
    "table_at s' h tb ps" "rows_at s' ps = rows_at s ps" "heap_frame {} (ts_pool s) (ts_pool s')"
proof -
  have tb: "table_objects s h = Some tb" "columns (tb_schema tb) \<noteq> []" "heap_inv (ts_pool s) (tb_first_page tb) ps"
    using assms(1) by (simp_all add: table_at_def)
  let ?xs = "map (row_of (tb_schema tb)) (heap_list (pool_page (ts_pool s)) ps)"
  obtain p1 sc where b: "table_scan_begin h tx s = (Inr sc, s\<lparr>ts_pool := p1\<rparr>)" "scan_rows tx (ts_pool s) p1 sc ?xs" "ts_schema sc = tb_schema tb"
    by (rule table_scan_begin_run[OF assms(1,3,6)])
  let ?s1 = "s\<lparr>ts_pool := p1\<rparr>"
  have new: "seq_scan_new h tx s = (Inr (Sequential_Scan h tx sc), ?s1)"
    using b(1) by (simp add: seq_scan_new_def bind_op_def ret_op_def)
  have "scan_cursor tx s ?s1 sc ?xs" using b(2) scan_state_start[OF assms(7)] by (simp add: scan_cursor_def)
  moreover have rows: "map (\<lambda>x. \<lparr>r_values = t_values (snd x)\<rparr>) ?xs = table_rows s tb ps"
    by (simp add: table_rows_def)
  moreover have "length ?xs < n" using assms(5) by (simp add: table_rows_def)
  ultimately have "op_at tx s n q ?s1 sc (op_rows q (table_rows s tb ps))"
    using op_at_typed[OF assms(2), of tx s ?s1 sc ?xs n] assms(4) by metis
  then have at: "op_at tx s n (with_cursor sc q) ?s1 (op_cursor (with_cursor sc q)) (op_rows q (table_rows s tb ps))" by simp
  have "length (op_rows q (table_rows s tb ps)) < n" using op_rows_length[of q "table_rows s tb ps"] assms(5) by simp
  from query_collect_run[OF at this, of others] obtain c2 s2 where
    c: "query_collect others n n (with_cursor sc q) ?s1 = (Inr (op_rows q (table_rows s tb ps), with_cursor c2 q), s2)"
      "op_at tx s n q s2 c2 []" by auto
  from op_at_scan[OF c(2)] obtain xs where d: "scan_state tx s s2" "scan_rows tx (ts_pool s) (ts_pool s2) c2 xs"
    by (auto simp: scan_cursor_def)
  obtain p3 where e: "table_scan_end c2 s2 = (Inr (), s2\<lparr>ts_pool := p3\<rparr>)" "heap_inv p3 (tb_first_page tb) ps"
    "heap_map (pool_page p3) ps = heap_map (pool_page (ts_pool s)) ps" "heap_frame {} (ts_pool s) p3"
    by (rule table_scan_end_run[OF d(2) tb(3)])
  let ?s3 = "s2\<lparr>ts_pool := p3\<rparr>"
  have "run_query others n h tx q s = (Inr (op_rows q (table_rows s tb ps)), ?s3)"
    using new c(1) e(1) by (simp add: run_query_def bind_op_def executor_execute_def ret_op_def)
  moreover have st: "scan_state tx s ?s3"
    by (rule scan_state_step[OF d(1)]) (use d(1) in \<open>simp_all add: same_data_def scan_state_def\<close>)
  moreover have "table_objects ?s3 = table_objects s"
    using same_dataD(2)[of "s\<lparr>ts_pool := p3\<rparr>" ?s3] st by (simp add: scan_state_def)
  ultimately show ?thesis using that[of ?s3] tb(1,2) e(2-4) by (simp add: table_at_def rows_at_def)
qed

end
