(* ===== verification/Executor_Spec.thy ===== *)
theory Executor_Spec
  imports Executor_Laws Transaction_Spec
begin

text \<open>
  The property of the executor: a query over a table computes its relational expression.
\<close>

definition sample_query :: operator where
  \<comment> \<open>the name column of the rows whose number is 7\<close>
  "sample_query =
     Projection (Filter (Sequential_Scan 0 None \<lparr>ts_heap_scan = \<lparr>current_rid = \<lparr>rid_page_id = 1, rid_slot_num = 0\<rparr>, current_page = None\<rparr>, ts_schema = sample_schema, ts_tx = None\<rparr>)
       (Comparison_Expression (Column_Expression 0) Op_EQUAL (Constant_Expression (value_of (V_int64 7)))))
       [1] sample_schema"

text \<open>
  C3: queries. A well-typed tree of filters and projections over the scan of a table, asked for rows until there is none, outside
  any transaction or in a growing one when no other transaction holds a record exclusively, throws nothing and gives
  exactly the rows of the relational expression it stands for (a selection keeps the rows of which the condition is true, neither
  false nor unknown), in the order of pages and slots. The rows have the types of the query, and nothing has changed but the
  cache of the pool and the locks of the transaction.
\<close>

theorem query_relational:
  fixes s :: db
  assumes "table_at s h tb ps" "op_type ts q us" "\<forall>x\<in>set (heap_list (pool_page (ts_pool s)) ps). readable (tb_schema tb) x"
    "\<forall>r\<in>set (table_rows s tb ps). row_ok ts r" "length (table_rows s tb ps) < n" "pool_room 2 (ts_pool s)" "shared_free s tx"
  shows "\<exists>s'. run_query others n h tx q s = (Inr (op_rows q (table_rows s tb ps)), s') \<and>
    (\<forall>r\<in>set (op_rows q (table_rows s tb ps)). row_ok us r) \<and>
    scan_state tx s s' \<and> table_at s' h tb ps \<and> rows_at s' ps = rows_at s ps \<and> heap_frame {} (ts_pool s) (ts_pool s')"
  using op_rows_typed[OF assms(2,4)] by (auto intro: query_run[OF assms, of others])

theorem query_relational_witness:
  "\<exists>(s :: db) s'. run_query id 5 0 (Some 7) sample_query s = (Inr [\<lparr>r_values = [value_of (V_string ''duck'')]\<rparr>], s')"
proof -
  have "length sample_raw = 20" by (simp add: sample_raw_def)
  then have fits: "pg_fits fresh_page (length sample_raw)" by (simp only: fresh_page_room)
  have ne: "sample_raw \<noteq> []" by (simp add: sample_raw_def)
  obtain p where p: "heap_inv p 1 [1]" "pool_room 2 p" "heap_list (pool_page p) [1] = [(\<lparr>rid_page_id = 1, rid_slot_num = 0\<rparr>, sample_raw)]"
    by (rule heap_with_tuple[OF fits ne])
  let ?s = "sample_db p (tx_new 7)" and ?ts = "[VT_INT64, VT_STRING, VT_STRING, VT_BOOL]"
  have dec: "tuple_of_bytes sample_raw sample_schema = Inr sample_tuple"
    using tuple_read_back[OF sample_tuple(1,2) _ sample_tuple(5)] \<open>length sample_raw = 20\<close>
    by (simp add: sample_tuple_def sample_tuple(6))
  have rows: "table_rows ?s sample_table [1] = [\<lparr>r_values = sample_values\<rparr>]"
    using p(3) dec by (simp add: table_rows_def sample_db row_of_def sample_tuple(7)) (simp add: sample_tuple_def)
  have ok: "\<forall>r\<in>set (table_rows ?s sample_table [1]). row_ok ?ts r"
    unfolding rows by (simp add: row_ok_def sample_values_def value_of_def value_null_def value_wf_def)
  have read: "\<forall>x\<in>set (heap_list (pool_page (ts_pool ?s)) [1]). readable (tb_schema sample_table) x"
    using p(3) dec by (simp add: sample_db readable_def sample_tuple(7))
  have ty: "op_type ?ts sample_query [VT_STRING]"
  proof -
    let ?c = "Comparison_Expression (Column_Expression 0) Op_EQUAL (Constant_Expression (value_of (V_int64 7)))"
    have "expr_type ?ts (Column_Expression 0) (?ts ! 0)" by (rule expr_type.Column) simp
    moreover have "expr_type ?ts (Constant_Expression (value_of (V_int64 7))) (v_type (value_of (V_int64 7)))"
      by (rule expr_type.Constant) (simp add: value_wf_def value_of_def)
    ultimately have "expr_type ?ts ?c VT_BOOL" by (rule expr_type.Comparison)
    then show ?thesis unfolding sample_query_def
      using op_type.Project[OF op_type.Select[OF op_type.Scan], of ?ts ?c "[1]"] by simp
  qed
  have out: "op_rows sample_query [\<lparr>r_values = sample_values\<rparr>] = [\<lparr>r_values = [value_of (V_string ''duck'')]\<rparr>]"
    by (simp add: sample_query_def sample_values_def selects_def row_get_def value_of_def compare_def is_integral_def is_floating_def is_numeric_def
        compare_integral_def as_integral_def get_defs as_int64_def as_bool_def value_of_def compare_generic_def)
  have room: "pool_room 2 (ts_pool ?s)" using p(2) by (simp add: sample_db)
  have n: "length (table_rows ?s sample_table [1]) < 5" unfolding rows by simp
  have free: "shared_free ?s (Some 7)" using sample_db(5) by (simp add: shared_free_def sample_db tx_new_def)
  from query_relational[OF sample_db(7)[OF p(1)] ty read ok n room free, of id] show ?thesis
    unfolding rows out by blast
qed

end
