(* ===== verification/Handles.thy ===== *)
theory Handles
  imports Table_Heap
begin

text \<open>
  The handles that own a pin: \<open>PinnedPage\<close> (\<open>include/duck/buffer/pinned_page.hpp\<close>) and the cursor
  \<open>TableHeap::Scan\<close> (\<open>include/duck/table/table_heap.hpp\<close>), how they are moved and destroyed. Handles are kept by address,
  so that an assignment to itself is seen.
\<close>

section \<open>Pinned pages\<close>

record pinned_page =
  pp_page :: "frame_id option"
  pp_dirty :: bool

definition make_pinned :: "frame_id option \<Rightarrow> pinned_page" where
  "make_pinned page = \<lparr>pp_page = page, pp_dirty = False\<rparr>"

definition pp_valid :: "pinned_page \<Rightarrow> bool" where
  "pp_valid h \<longleftrightarrow> pp_page h \<noteq> None"

definition pp_mark_dirty :: "pinned_page \<Rightarrow> pinned_page" where
  "pp_mark_dirty h = h\<lparr>pp_dirty := True\<rparr>"

definition pp_end :: "pinned_page \<Rightarrow> (pool, unit) op" where
  \<comment> \<open>the destructor\<close>
  "pp_end h = (if pp_valid h then pinned_destroy (pp_page h) (pp_dirty h) else ret_op ())"

definition pp_move :: "pinned_page \<Rightarrow> pinned_page \<times> pinned_page" where
  \<comment> \<open>the move constructor: the new handle, and what is left of the other one\<close>
  "pp_move other = (\<lparr>pp_page = pp_page other, pp_dirty = False\<rparr>, other\<lparr>pp_page := None\<rparr>)"

definition pp_assign :: "nat \<Rightarrow> nat \<Rightarrow> (nat \<Rightarrow> pinned_page) \<Rightarrow> (pool, nat \<Rightarrow> pinned_page) op" where
  \<comment> \<open>the move assignment, of the handle at address \<open>b\<close> to the one at \<open>a\<close>\<close>
  "pp_assign a b hs =
     (if a = b then ret_op hs
      else
        bind_op (if pp_valid (hs a) then pinned_destroy (pp_page (hs a)) (pp_dirty (hs a)) else ret_op ()) (\<lambda>_.
        ret_op (hs(a := \<lparr>pp_page = pp_page (hs b), pp_dirty = pp_dirty (hs b)\<rparr>, b := (hs b)\<lparr>pp_page := None\<rparr>))))"

section \<open>Cursors\<close>

definition heap_scan_move :: "heap_scan \<Rightarrow> heap_scan \<times> heap_scan" where
  "heap_scan_move other = (\<lparr>current_rid = current_rid other, current_page = current_page other\<rparr>, other\<lparr>current_page := None\<rparr>)"

definition heap_scan_assign :: "nat \<Rightarrow> nat \<Rightarrow> (nat \<Rightarrow> heap_scan) \<Rightarrow> (pool, nat \<Rightarrow> heap_scan) op" where
  "heap_scan_assign a b hs =
     (if a = b then ret_op hs
      else
        bind_op (case current_page (hs a) of None \<Rightarrow> ret_op () | Some f \<Rightarrow> pinned_destroy (Some f) False) (\<lambda>_.
        ret_op (hs(a := \<lparr>current_rid = current_rid (hs b), current_page = current_page (hs b)\<rparr>, b := (hs b)\<lparr>current_page := None\<rparr>))))"

definition heap_scan_eq :: "heap_scan \<Rightarrow> heap_scan \<Rightarrow> bool" where
  "heap_scan_eq x y \<longleftrightarrow> current_rid x = current_rid y"

section \<open>Who gives the pin back\<close>

lemma bind_ret: "bind_op (ret_op x) f = f x"
  by (simp add: bind_op_def ret_op_def fun_eq_iff)

text \<open>Moving a handle and destroying both ends gives the pin back once, but as if the page had not been written\<close>

lemma pp_move_end:
  assumes "pp_move h = (new, old)"
  shows "bind_op (pp_end old) (\<lambda>_. pp_end new) = pinned_destroy (pp_page h) False" "\<not> pp_dirty new"
  using assms by (cases h; cases "pp_page h"; auto simp: pp_move_def pp_end_def pp_valid_def pinned_destroy_def bind_ret)+

text \<open>Assigning a handle to another gives back the pin of the old page at once and the other one later, as it was marked\<close>

lemma pp_assign_end:
  assumes "a \<noteq> b" "pp_page (hs a) = Some f" "pinned_destroy (Some f) (pp_dirty (hs a)) s = (Inr (), s')"
  obtains hs' where "pp_assign a b hs s = (Inr hs', s')"
    "bind_op (pp_end (hs' b)) (\<lambda>_. pp_end (hs' a)) = pp_end (hs b)" "\<And>c. c \<noteq> a \<Longrightarrow> c \<noteq> b \<Longrightarrow> hs' c = hs c"
proof -
  let ?hs = "hs(a := \<lparr>pp_page = pp_page (hs b), pp_dirty = pp_dirty (hs b)\<rparr>, b := (hs b)\<lparr>pp_page := None\<rparr>)"
  have "pp_assign a b hs s = (Inr ?hs, s')" using assms by (simp add: pp_assign_def pp_valid_def bind_op_def ret_op_def)
  moreover have "bind_op (pp_end (?hs b)) (\<lambda>_. pp_end (?hs a)) = pp_end (hs b)"
    using assms(1) by (cases "pp_page (hs b)") (simp_all add: pp_end_def pp_valid_def bind_ret)
  ultimately show ?thesis using that[of ?hs] by simp
qed

text \<open>A moved cursor goes on where the other one stood, and gives its page back once\<close>

lemma heap_scan_move_end:
  assumes "heap_scan_move sc = (new, old)"
  shows "heap_scan_next new = heap_scan_next sc" "bind_op (heap_scan_end old) (\<lambda>_. heap_scan_end new) = heap_scan_end sc"
    "heap_scan_eq new sc"
proof -
  have n: "new = sc" "current_page old = None" using assms by (cases sc, auto simp: heap_scan_move_def)
  show "heap_scan_next new = heap_scan_next sc" "heap_scan_eq new sc" using n(1) by (simp_all add: heap_scan_eq_def)
  show "bind_op (heap_scan_end old) (\<lambda>_. heap_scan_end new) = heap_scan_end sc"
    using n by (simp add: heap_scan_end_def[of old] pinned_destroy_def bind_ret)
qed

end
