(* ===== verification/Catalog_Laws.thy ===== *)
theory Catalog_Laws
  imports Executor_Laws Catalog
begin

text \<open>
  The catalog as a map from names to tables. \<open>tables_of\<close> is the map in memory, \<open>catalog_rows\<close> says that the rows
  stored on the pages of the catalog describe the same tables; \<open>cat_inv\<close> that every entry owns its object. Loading
  computes the map from the rows, creating a table keeps the two in step.
\<close>

section \<open>The bytes of a catalog row\<close>

definition entry_values :: "string \<Rightarrow> page_id \<Rightarrow> schema \<Rightarrow> val list" where
  "entry_values name first_page sch =
     [value_of (V_string name), value_of (V_uint32 first_page), value_of (V_bytes (schema_serialize sch))]"

definition storable :: "schema \<Rightarrow> bool" where
  \<comment> \<open>the schemas that \<open>Schema::serialize\<close> writes without loss\<close>
  "storable sch \<longleftrightarrow> (\<forall>c\<in>set (columns sch). column_ok c) \<and> length (schema_serialize sch) < 65536 \<and> length (columns sch) < 65536"

definition entry_bytes :: "string \<Rightarrow> page_id \<Rightarrow> schema \<Rightarrow> byte list \<Rightarrow> bool" where
  "entry_bytes name first_page sch raw \<longleftrightarrow>
     tuple_serialize \<lparr>t_schema = catalog_schema, t_values = entry_values name first_page sch\<rparr> = Inr raw \<and> length raw < 65536 \<and> storable sch"

lemma catalog_entry_eq: "catalog_entry name first_page sch = Inr \<lparr>t_schema = catalog_schema, t_values = entry_values name first_page sch\<rparr>"
  by (simp add: catalog_entry_def tuple_of_def catalog_schema_def schema_column_count_def value_of_def entry_values_def)

lemma entry_read:
  assumes "entry_bytes name first_page sch raw"
  shows "tuple_of_bytes raw catalog_schema = Inr \<lparr>t_schema = catalog_schema, t_values = entry_values name first_page sch\<rparr>"
proof -
  have t: "tuple_of (entry_values name first_page sch) catalog_schema = Inr \<lparr>t_schema = catalog_schema, t_values = entry_values name first_page sch\<rparr>"
    using catalog_entry_eq[of name first_page sch] by (simp add: catalog_entry_def entry_values_def)
  have ok: "\<forall>i < length (columns catalog_schema). char_ok (columns catalog_schema ! i) (entry_values name first_page sch ! i)"
    by (auto simp: char_ok_def catalog_schema_def less_Suc_eq_0_disj)
  have "map value_canon (entry_values name first_page sch) = entry_values name first_page sch"
    by (simp add: entry_values_def value_canon_def value_of_def)
  then show ?thesis using tuple_read_back[OF t _ _ ok, of raw] assms by (simp add: entry_bytes_def)
qed

section \<open>The tables by name\<close>

definition tables_of :: "db \<Rightarrow> string \<Rightarrow> (rid \<times> table) option" where
  "tables_of s name =
     (case catalog_tables s name of None \<Rightarrow> None | Some e \<Rightarrow> map_option (Pair (te_rid e)) (table_objects s (te_table e)))"

definition cat_inv :: "db \<Rightarrow> bool" where
  \<comment> \<open>every entry owns an object of its own\<close>
  "cat_inv s \<longleftrightarrow>
     (\<forall>m n d e. catalog_tables s m = Some d \<longrightarrow> catalog_tables s n = Some e \<longrightarrow> te_table d = te_table e \<longrightarrow> m = n) \<and>
     (\<forall>n e. catalog_tables s n = Some e \<longrightarrow>
        te_table e \<noteq> catalog_table s \<and> te_table e < next_table s \<and> table_objects s (te_table e) \<noteq> None) \<and>
     catalog_table s < next_table s"

lemma add_table_run:
  assumes "cat_inv s"
  obtains h s' where "add_table name r tb s = (Inr h, s')" "cat_inv s'" "tables_of s' = (tables_of s)(name \<mapsto> (r, tb))"
    "ts_pool s' = ts_pool s" "catalog_table s' = catalog_table s" "table_objects s' (catalog_table s) = table_objects s (catalog_table s)"
    "transactions s' = transactions s" "queue_of s' = queue_of s" "table_objects s' h = Some tb" "catalog_tables s' name = Some \<lparr>te_rid = r, te_table = h\<rparr>"
proof -
  let ?h = "next_table s" and ?e = "\<lparr>te_rid = r, te_table = next_table s\<rparr>"
  define objs where "objs = (case catalog_tables s name of
      None \<Rightarrow> (table_objects s)(?h \<mapsto> tb) | Some e \<Rightarrow> (table_objects s)(?h \<mapsto> tb, te_table e := None))"
  let ?s = "s\<lparr>table_objects := objs, next_table := Suc ?h, catalog_tables := (catalog_tables s)(name \<mapsto> ?e)\<rparr>"
  have run: "add_table name r tb s = (Inr ?h, ?s)"
    by (cases "catalog_tables s name")
      (simp_all add: add_table_def new_table_object_def bind_op_def modify_op_def ret_op_def objs_def)
  have i: "\<And>m n d e. catalog_tables s m = Some d \<Longrightarrow> catalog_tables s n = Some e \<Longrightarrow> te_table d = te_table e \<Longrightarrow> m = n"
    "\<And>n e. catalog_tables s n = Some e \<Longrightarrow> te_table e \<noteq> catalog_table s \<and> te_table e < ?h \<and> table_objects s (te_table e) \<noteq> None"
    "catalog_table s < ?h" using assms unfolding cat_inv_def by blast+
  have new: "objs ?h = Some tb" using i(2)[of name] by (cases "catalog_tables s name") (auto simp: objs_def)
  have old: "objs (te_table e) = table_objects s (te_table e)" if "catalog_tables s n = Some e" "n \<noteq> name" for n e
    using i(1)[OF that(1)] i(2)[OF that(1)] that(2) by (cases "catalog_tables s name") (auto simp: objs_def)
  have cat: "objs (catalog_table s) = table_objects s (catalog_table s)"
    using i(2)[of name] i(3) by (cases "catalog_tables s name") (auto simp: objs_def)
  show ?thesis
  proof (rule that[OF run])
    have c1: "m = n" if "((catalog_tables s)(name \<mapsto> ?e)) m = Some d" "((catalog_tables s)(name \<mapsto> ?e)) n = Some e" "te_table d = te_table e" for m n d e
    proof (cases "m = name"; cases "n = name")
      assume "m = name" "n \<noteq> name"
      then show ?thesis using that i(2)[of n e] by auto
    next
      assume "m \<noteq> name" "n = name"
      then show ?thesis using that i(2)[of m d] by auto
    next
      assume "m \<noteq> name" "n \<noteq> name"
      then show ?thesis using that i(1)[of m d n e] by simp
    qed simp
    have c2: "te_table e \<noteq> catalog_table s \<and> te_table e < Suc ?h \<and> objs (te_table e) \<noteq> None"
      if "((catalog_tables s)(name \<mapsto> ?e)) n = Some e" for n e
    proof (cases "n = name")
      case True
      then have "e = ?e" using that by simp
      then show ?thesis using i(3) new by simp
    next
      case False
      then show ?thesis using that i(2)[of n e] old[of n e] by simp
    qed
    have sel: "catalog_tables ?s = (catalog_tables s)(name \<mapsto> ?e)" "catalog_table ?s = catalog_table s" "next_table ?s = Suc ?h"
      "table_objects ?s = objs" by simp_all
    show "cat_inv ?s" unfolding cat_inv_def sel using c1 c2 i(3) less_SucI by blast
    show "tables_of ?s = (tables_of s)(name \<mapsto> (r, tb))"
    proof (rule ext)
      fix n
      show "tables_of ?s n = ((tables_of s)(name \<mapsto> (r, tb))) n"
      proof (cases "n = name")
        case True
        then show ?thesis using new by (simp add: tables_of_def)
      next
        case False
        then show ?thesis using old[of n] by (cases "catalog_tables s n") (simp_all add: tables_of_def)
      qed
    qed
  qed (use new cat in \<open>simp_all add: queue_of_def fun_eq_iff\<close>)
qed

section \<open>Loading\<close>

lemma load_table_run:
  assumes "cat_inv s" "storable sch"
  obtains s' where "load_table r \<lparr>t_schema = catalog_schema, t_values = entry_values name first_page sch\<rparr> s = (Inr (), s')" "cat_inv s'"
    "tables_of s' = (tables_of s)(name \<mapsto> (r, \<lparr>tb_name = name, tb_first_page = first_page, tb_schema = sch\<rparr>))"
    "ts_pool s' = ts_pool s" "catalog_table s' = catalog_table s" "table_objects s' (catalog_table s) = table_objects s (catalog_table s)"
proof -
  let ?tb = "\<lparr>tb_name = name, tb_first_page = first_page, tb_schema = sch\<rparr>"
  obtain h s' where a: "add_table name r ?tb s = (Inr h, s')" "cat_inv s'" "tables_of s' = (tables_of s)(name \<mapsto> (r, ?tb))"
    "ts_pool s' = ts_pool s" "catalog_table s' = catalog_table s" "table_objects s' (catalog_table s) = table_objects s (catalog_table s)"
    by (rule add_table_run[OF assms(1), of name r ?tb], rule that)
  have "schema_of_bytes (schema_serialize sch) = Inr sch"
    using schema_codec[of sch "[]"] assms(2) by (simp add: storable_def)
  then have "load_table r \<lparr>t_schema = catalog_schema, t_values = entry_values name first_page sch\<rparr> s = (Inr (), s')"
    using a(1)
    by (simp add: load_table_def tuple_get_def entry_values_def lift_op_def bind_op_def value_of_def ret_op_def get_defs
        as_string_def as_bytes_def as_uint32_def)
  then show ?thesis by (rule that) (use a in simp_all)
qed

section \<open>All rows of a heap\<close>

lemma heap_list_map:
  "(r, raw) \<in> set (heap_list pc ps) \<longleftrightarrow> heap_map pc ps r = Some raw"
proof
  assume "(r, raw) \<in> set (heap_list pc ps)"
  then obtain q j where q: "q \<in> set ps" "j < pg_count (pc q)" "pg_tuple (pc q) j = Some raw" "r = \<lparr>rid_page_id = q, rid_slot_num = of_nat j\<rparr>"
    by (auto simp: heap_list_def page_rest_def)
  have "j < 65536" using q(2) pg_count_lt[of "pc q"] by simp
  then show "heap_map pc ps r = Some raw" using q by (simp add: heap_map_def unat_of_nat16)
next
  assume a: "heap_map pc ps r = Some raw"
  let ?q = "rid_page_id r" and ?j = "unat (rid_slot_num r)"
  have q: "?q \<in> set ps" "pg_tuple (pc ?q) ?j = Some raw" using a by (auto simp: heap_map_def split: if_splits)
  have j: "?j < pg_count (pc ?q)" using q(2) by (auto simp: pg_tuple_def pg_live_def split: if_splits)
  have r: "r = \<lparr>rid_page_id = ?q, rid_slot_num = of_nat ?j\<rparr>" by (cases r) simp
  have "(r, raw) \<in> set (page_rest ?q (pc ?q) 0)"
    unfolding page_rest_def by (subst r) (use q(2) j in \<open>auto intro!: image_eqI[of _ _ ?j]\<close>)
  then show "(r, raw) \<in> set (heap_list pc ps)" using q(1) by (auto simp: heap_list_def)
qed

lemma heap_list_length: "length (heap_list pc ps) \<le> 65536 * length ps"
proof (induction ps)
  case (Cons q ps)
  have "length (page_rest q (pc q) 0) \<le> pg_count (pc q)"
    using length_filter_le[of "\<lambda>j. pg_tuple (pc q) j \<noteq> None" "[0..<pg_count (pc q)]"] by (simp add: page_rest_def)
  then have "length (page_rest q (pc q) 0) \<le> 65536" using pg_count_lt[of "pc q"] by simp
  then show ?case using Cons by (simp add: heap_list_def)
qed (simp add: heap_list_def)

lemma heap_list_fuel:
  assumes "heap_inv p q ps"
  shows "length (heap_list pc ps) < kSCAN_FUEL"
proof -
  note hi = heap_invD[OF assms]
  have "length ps + 1 \<le> kCHAIN_FUEL" by (rule chain_length[OF hi(4) heap_chain_valid[OF hi(2)]])
  then have "65536 * length ps < kSCAN_FUEL" by (simp add: kCHAIN_FUEL_def kSCAN_FUEL_def)
  then show ?thesis using heap_list_length[of pc ps] by simp
qed

section \<open>The loop\<close>

lemma cat_inv_pool [simp]: "cat_inv (s\<lparr>ts_pool := p\<rparr>) = cat_inv s" "tables_of (s\<lparr>ts_pool := p\<rparr>) = tables_of s"
  by (simp_all add: cat_inv_def tables_of_def fun_eq_iff split: option.split)

definition entry_row :: "rid \<times> table \<Rightarrow> rid \<times> tuple" where
  "entry_row x = (fst x, \<lparr>t_schema = catalog_schema, t_values = entry_values (tb_name (snd x)) (tb_first_page (snd x)) (tb_schema (snd x))\<rparr>)"

definition named :: "(rid \<times> table) list \<Rightarrow> (string \<Rightarrow> (rid \<times> table) option) \<Rightarrow> string \<Rightarrow> (rid \<times> table) option" where
  "named es m = fold (\<lambda>x m. m(tb_name (snd x) \<mapsto> x)) es m"

lemma load_from_run:
  assumes "cat_inv s" "scan_rows None p0 (ts_pool s) sc (map entry_row es)" "\<forall>x\<in>set es. storable (tb_schema (snd x))" "length es < n"
  shows "\<exists>s' sc'. load_from n sc s = (Inr sc', s') \<and> cat_inv s' \<and> tables_of s' = named es (tables_of s) \<and>
    scan_rows None p0 (ts_pool s') sc' [] \<and> catalog_table s' = catalog_table s \<and>
    table_objects s' (catalog_table s) = table_objects s (catalog_table s)"
  using assms
proof (induction n arbitrary: s sc es)
  case (Suc n)
  obtain p' sc' where a: "table_scan_next id sc s =
      (Inr (case map entry_row es of [] \<Rightarrow> None | x # _ \<Rightarrow> Some x, sc'), s\<lparr>ts_pool := p'\<rparr>)"
    "scan_rows None p0 p' sc' (tl (map entry_row es))"
    using scan_rows_step[OF Suc.prems(2) shared_free_none, of id] by metis
  let ?s = "s\<lparr>ts_pool := p'\<rparr>"
  show ?case
  proof (cases es)
    case Nil
    then show ?thesis using a Suc.prems(1) by (auto simp: bind_op_def ret_op_def named_def)
  next
    case (Cons x xs)
    obtain r tb where x: "x = (r, tb)" by (cases x)
    have inv: "cat_inv ?s" using Suc.prems(1) by simp
    have st: "storable (tb_schema tb)" using Suc.prems(3) Cons x by simp
    obtain s1 where l: "load_table r \<lparr>t_schema = catalog_schema, t_values = entry_values (tb_name tb) (tb_first_page tb) (tb_schema tb)\<rparr> ?s = (Inr (), s1)"
      "cat_inv s1" "tables_of s1 = (tables_of ?s)(tb_name tb \<mapsto> (r, \<lparr>tb_name = tb_name tb, tb_first_page = tb_first_page tb, tb_schema = tb_schema tb\<rparr>))"
      "ts_pool s1 = ts_pool ?s" "catalog_table s1 = catalog_table ?s"
      "table_objects s1 (catalog_table ?s) = table_objects ?s (catalog_table ?s)"
      by (rule load_table_run[OF inv st, of r "tb_name tb" "tb_first_page tb"])
    have sc: "scan_rows None p0 (ts_pool s1) sc' (map entry_row xs)" using a(2) l(4) Cons by simp
    from Suc.IH[OF l(2) sc] Suc.prems(3,4) Cons obtain s2 sc2 where r: "load_from n sc' s1 = (Inr sc2, s2)" "cat_inv s2"
      "tables_of s2 = named xs (tables_of s1)" "scan_rows None p0 (ts_pool s2) sc2 []" "catalog_table s2 = catalog_table s1"
      "table_objects s2 (catalog_table s1) = table_objects s1 (catalog_table s1)" by auto
    have "load_from (Suc n) sc s = (Inr sc2, s2)"
      using a(1) l(1) r(1) Cons x by (simp add: bind_op_def entry_row_def)
    moreover have "tables_of s2 = named es (tables_of s)" using r(3) l(3) Cons x by (cases tb) (simp add: named_def)
    ultimately show ?thesis using r l(5,6) by auto
  qed
qed simp

lemma named_other: "(\<And>x. x \<in> set es \<Longrightarrow> tb_name (snd x) \<noteq> n) \<Longrightarrow> named es m n = m n"
  unfolding named_def by (induction es arbitrary: m) auto

lemma named_consistent:
  assumes "\<And>x. x \<in> set es \<Longrightarrow> T (tb_name (snd x)) = Some x"
  shows "named es m n = (if n \<in> (tb_name \<circ> snd) ` set es then T n else m n)"
  using assms
proof (induction es arbitrary: m)
  case (Cons x es)
  show ?case
  proof (cases "n \<in> (tb_name \<circ> snd) ` set es")
    case True
    then show ?thesis using Cons by (simp add: named_def)
  next
    case False
    then have "named es (m(tb_name (snd x) \<mapsto> x)) n = (m(tb_name (snd x) \<mapsto> x)) n" by (intro named_other) auto
    then show ?thesis using Cons.prems[of x] False by (auto simp: named_def)
  qed
qed (simp add: named_def)

definition catalog_rows :: "(string \<Rightarrow> (rid \<times> table) option) \<Rightarrow> (rid \<Rightarrow> byte list option) \<Rightarrow> bool" where
  \<comment> \<open>the rows of the catalog are the tables, each with its name, first page and schema\<close>
  "catalog_rows T R \<longleftrightarrow>
     (\<forall>n r tb. T n = Some (r, tb) \<longrightarrow> tb_name tb = n \<and> (\<exists>raw. R r = Some raw \<and> entry_bytes n (tb_first_page tb) (tb_schema tb) raw)) \<and>
     (\<forall>r raw. R r = Some raw \<longrightarrow> (\<exists>n tb. T n = Some (r, tb)))"

lemma entry_name: "entry_bytes m f1 s1 raw \<Longrightarrow> entry_bytes n f2 s2 raw \<Longrightarrow> m = n"
  using entry_read[of m f1 s1 raw] entry_read[of n f2 s2 raw] by (simp add: entry_values_def value_of_def)

lemma catalog_load_run:
  assumes "cat_inv s" "table_at s (catalog_table s) ct ps" "tb_schema ct = catalog_schema" "catalog_tables s = Map.empty"
    "catalog_rows T (rows_at s ps)" "pool_room 2 (ts_pool s)"
  obtains s' where "catalog_load_existing_tables s = (Inr (), s')" "tables_of s' = T" "cat_inv s'" "rows_at s' ps = rows_at s ps"
    "catalog_table s' = catalog_table s" "table_at s' (catalog_table s') ct ps" "heap_frame {} (ts_pool s) (ts_pool s')"
    "pool_used (ts_pool s') = pool_used (ts_pool s)"
proof -
  let ?L = "heap_list (pool_page (ts_pool s)) ps"
  have inv: "heap_inv (ts_pool s) (tb_first_page ct) ps" using assms(2) by (simp add: table_at_def)
  have R: "rows_at s ps r = Some raw \<longleftrightarrow> (r, raw) \<in> set ?L" for r raw using heap_list_map by (simp add: rows_at_def)
  have "\<exists>tb. T (tb_name tb) = Some (fst x, tb) \<and> entry_bytes (tb_name tb) (tb_first_page tb) (tb_schema tb) (snd x)" if "x \<in> set ?L" for x
  proof -
    have Rx: "rows_at s ps (fst x) = Some (snd x)" using that R[of "fst x" "snd x"] by simp
    then obtain n tb where t: "T n = Some (fst x, tb)" using assms(5) unfolding catalog_rows_def by blast
    then show ?thesis using assms(5) Rx unfolding catalog_rows_def by fastforce
  qed
  then obtain g where g: "\<And>x. x \<in> set ?L \<Longrightarrow> T (tb_name (g x)) = Some (fst x, g x) \<and>
      entry_bytes (tb_name (g x)) (tb_first_page (g x)) (tb_schema (g x)) (snd x)" by metis
  define es where "es = map (\<lambda>x. (fst x, g x)) ?L"
  have dec: "tuple_of_bytes (snd x) catalog_schema = Inr (snd (entry_row (fst x, g x)))" if "x \<in> set ?L" for x
    using entry_read g[OF that] by (simp add: entry_row_def)
  have read: "\<forall>x\<in>set ?L. readable (tb_schema ct) x" using dec assms(3) by (auto simp: readable_def)
  have rows: "map (row_of (tb_schema ct)) ?L = map entry_row es"
    using dec assms(3) by (auto simp: es_def row_of_def entry_row_def)
  obtain p sc where b: "table_scan_begin (catalog_table s) None s = (Inr sc, s\<lparr>ts_pool := p\<rparr>)"
    "scan_rows None (ts_pool s) p sc (map entry_row es)"
    by (rule table_scan_begin_run[OF assms(2) read assms(6), unfolded rows])
  have st: "\<forall>x\<in>set es. storable (tb_schema (snd x))" using g by (auto simp: es_def entry_bytes_def)
  have n: "length es < kSCAN_FUEL" using heap_list_fuel[OF inv] by (simp add: es_def)
  have h1: "cat_inv (s\<lparr>ts_pool := p\<rparr>)" "scan_rows None (ts_pool s) (ts_pool (s\<lparr>ts_pool := p\<rparr>)) sc (map entry_row es)" using assms(1) b(2) by simp_all
  from load_from_run[OF h1 st n] obtain s2 sc2 where l: "load_from kSCAN_FUEL sc (s\<lparr>ts_pool := p\<rparr>) = (Inr sc2, s2)" "cat_inv s2"
    "tables_of s2 = named es (tables_of s)" "scan_rows None (ts_pool s) (ts_pool s2) sc2 []" "catalog_table s2 = catalog_table s"
    "table_objects s2 (catalog_table s) = table_objects s (catalog_table s)" by auto
  obtain p3 where e: "table_scan_end sc2 s2 = (Inr (), s2\<lparr>ts_pool := p3\<rparr>)" "heap_inv p3 (tb_first_page ct) ps"
    "heap_map (pool_page p3) ps = heap_map (pool_page (ts_pool s)) ps" "heap_frame {} (ts_pool s) p3" "pool_used p3 = pool_used (ts_pool s)"
    by (rule table_scan_end_run[OF l(4) inv])
  have T: "named es (tables_of s) = T"
  proof (rule ext)
    fix m
    have c: "named es (tables_of s) m = (if m \<in> (tb_name \<circ> snd) ` set es then T m else tables_of s m)"
      by (rule named_consistent) (use g in \<open>auto simp: es_def\<close>)
    have "m \<in> (tb_name \<circ> snd) ` set es" if Tm: "T m = Some (r, tb)" for r tb
    proof -
      obtain raw where raw: "rows_at s ps r = Some raw" "entry_bytes m (tb_first_page tb) (tb_schema tb) raw"
        using assms(5) Tm unfolding catalog_rows_def by blast
      then have x: "(r, raw) \<in> set ?L" using R by simp
      have "tb_name (g (r, raw)) = m" using g[OF x] raw(2) entry_name by fastforce
      then show ?thesis using x by (force simp: es_def)
    qed
    then show "named es (tables_of s) m = T m" using c assms(4) by (cases "T m") (auto simp: tables_of_def)
  qed
  have "catalog_load_existing_tables s = (Inr (), s2\<lparr>ts_pool := p3\<rparr>)"
    using b(1) l(1) e(1) by (simp add: catalog_load_existing_tables_def bind_op_def get_op_def)
  then show ?thesis by (rule that) (use l e T assms(2) in \<open>simp_all add: rows_at_def table_at_def\<close>)
qed

section \<open>What a row of the catalog needs\<close>

lemma entry_serialize:
  assumes "length name \<le> 128"
  shows "tuple_serialize \<lparr>t_schema = catalog_schema, t_values = entry_values name first_page sch\<rparr> =
    Inr ([0] @ le_bytes 2 (of_nat (length name) :: u16) @ string_bytes name @ le_bytes 4 first_page @
      le_bytes 2 (of_nat (length (schema_serialize sch)) :: u16) @ schema_serialize sch)"
  using assms
  by (simp add: tuple_serialize_def catalog_schema_def schema_column_count_def entry_values_def value_of_def nb_size_def Let_def
      tuple_append_def column_is_fixed_size_def column_fixed_size_def tuple_check_text_def value_serialized_size_def
      value_serialize_to_def get_defs)

definition catalog_fits :: "string \<Rightarrow> schema \<Rightarrow> bool" where
  "catalog_fits name sch \<longleftrightarrow>
     length name \<le> 128 \<and> storable sch \<and> columns sch \<noteq> [] \<and> 9 + length name + length (schema_serialize sch) \<le> MAX_TUPLE_SIZE"

lemma catalog_fits_bytes:
  assumes "catalog_fits name sch"
  obtains raw where "entry_bytes name first_page sch raw" "length raw \<le> MAX_TUPLE_SIZE"
proof -
  let ?raw = "[0] @ le_bytes 2 (of_nat (length name) :: u16) @ string_bytes name @ le_bytes 4 first_page @
      le_bytes 2 (of_nat (length (schema_serialize sch)) :: u16) @ schema_serialize sch"
  have "length ?raw = 9 + length name + length (schema_serialize sch)" by simp
  then have "length ?raw \<le> MAX_TUPLE_SIZE" using assms by (simp add: catalog_fits_def)
  moreover have "length ?raw < 65536" using calculation by (simp add: MAX_TUPLE_SIZE_def kPAGE_SIZE_def)
  ultimately show ?thesis
    using that[of ?raw] entry_serialize[of name first_page sch] assms by (simp add: entry_bytes_def catalog_fits_def)
qed

section \<open>Creating a table\<close>

lemma catalog_rows_add:
  assumes "catalog_rows T R" "T n = None" "R r = None" "entry_bytes n (tb_first_page tb) (tb_schema tb) raw" "tb_name tb = n"
  shows "catalog_rows (T(n \<mapsto> (r, tb))) (R(r \<mapsto> raw))"
  unfolding catalog_rows_def
proof (intro conjI allI impI)
  fix m x b
  assume m: "(T(n \<mapsto> (r, tb))) m = Some (x, b)"
  show "tb_name b = m"
    using m assms(1,5) by (cases "m = n") (auto simp: catalog_rows_def)
  show "\<exists>raw'. (R(r \<mapsto> raw)) x = Some raw' \<and> entry_bytes m (tb_first_page b) (tb_schema b) raw'"
  proof (cases "m = n")
    case True
    then show ?thesis using m assms(4) by auto
  next
    case False
    then obtain y where y: "R x = Some y" "entry_bytes m (tb_first_page b) (tb_schema b) y"
      using m assms(1) unfolding catalog_rows_def by (metis fun_upd_other)
    then show ?thesis using assms(3) by auto
  qed
next
  fix x y
  assume x: "(R(r \<mapsto> raw)) x = Some y"
  show "\<exists>m b. (T(n \<mapsto> (r, tb))) m = Some (x, b)"
  proof (cases "x = r")
    case True
    then show ?thesis by (intro exI[of _ n]) simp
  next
    case False
    then obtain m b where m: "T m = Some (x, b)" using x assms(1) unfolding catalog_rows_def by (metis fun_upd_other)
    then show ?thesis using assms(2) by (intro exI[of _ m]) auto
  qed
qed

lemma catalog_create_run:
  assumes "cat_inv s" "table_at s (catalog_table s) ct ps" "tb_schema ct = catalog_schema" "catalog_rows (tables_of s) (rows_at s ps)"
    "catalog_tables s name = None" "catalog_fits name sch" "pool_room 2 (ts_pool s)" "card (pool_used (ts_pool s)) < 2 ^ 32 - 3"
  obtains h q r s' ns where "catalog_create_table (ret_op ()) others name sch None s = (Inr h, s')" "cat_inv s'"
    "tables_of s' = (tables_of s)(name \<mapsto> (r, \<lparr>tb_name = name, tb_first_page = q, tb_schema = sch\<rparr>))"
    "catalog_tables s' name = Some \<lparr>te_rid = r, te_table = h\<rparr>" "catalog_table s' = catalog_table s"
    "table_at s' (catalog_table s') ct (ps @ ns)" "catalog_rows (tables_of s') (rows_at s' (ps @ ns))"
    "table_at s' h \<lparr>tb_name = name, tb_first_page = q, tb_schema = sch\<rparr> [q]" "rows_at s' [q] = Map.empty" "q \<notin> pool_used (ts_pool s)"
    "pool_room 2 (ts_pool s')" "q \<notin> set (ps @ ns)" "heap_frame (insert q (set (ps @ ns))) (ts_pool s) (ts_pool s')"
    "card (pool_used (ts_pool s')) \<le> card (pool_used (ts_pool s)) + 2"
proof -
  have ct: "table_objects s (catalog_table s) = Some ct" "columns catalog_schema \<noteq> []" "heap_inv (ts_pool s) (tb_first_page ct) ps"
    using assms(2,3) by (simp_all add: table_at_def)
  note hi = heap_invD[OF ct(3)]
  have room: "pool_room (Suc 1) (ts_pool s)" using assms(7) by (simp add: numeral_2_eq_2)
  have alloc: "disk_alloc (pool_disk (ts_pool s))" by (rule alloc_room) (use assms(8) in simp)
  obtain q p1 where c: "heap_create (ts_pool s) = (Inr q, p1)" "q \<notin> pool_used (ts_pool s)" "heap_inv p1 q [q]"
    "heap_map (pool_page p1) [q] = Map.empty" "heap_frame {q} (ts_pool s) p1" "pool_used p1 = insert q (pool_used (ts_pool s))"
    by (rule heap_create_spec[OF hi(1) alloc room], rule that)
  have qps: "q \<notin> set ps" using c(2) hi(5) by blast
  have v: "page_view (pool_page p1 x) = page_view (pool_page (ts_pool s) x)" if "x \<in> set ps" for x
    using c(5) qps that by (auto simp: heap_frame_def)
  note w = heap_view_cong[of ps "pool_page p1" "pool_page (ts_pool s)", OF v]
  let ?s1 = "s\<lparr>ts_pool := p1\<rparr>"
  have at1: "table_at ?s1 (catalog_table s) ct ps"
    using ct c(3,6) hi w(1) heap_invD(1)[OF c(3)] assms(3) by (auto simp: table_at_def heap_inv_def)
  have rows1: "rows_at ?s1 ps = rows_at s ps" using w(2) by (simp add: rows_at_def)
  obtain raw where raw: "entry_bytes name q sch raw" "length raw \<le> MAX_TUPLE_SIZE" by (rule catalog_fits_bytes[OF assms(6)])
  let ?t = "\<lparr>t_schema = catalog_schema, t_values = entry_values name q sch\<rparr>"
  have t: "t_schema ?t = tb_schema ct" "tuple_serialize ?t = Inr raw" using assms(3) raw by (simp_all add: entry_bytes_def)
  have room1: "pool_room 2 (ts_pool ?s1)" using c(5) assms(7) by (simp add: heap_frame_def)
  have "finite (pool_used (ts_pool s))" by simp
  then have card1: "card (pool_used p1) \<le> Suc (card (pool_used (ts_pool s)))" using c(6) by (simp add: card_insert_if)
  then have alloc1: "disk_alloc (pool_disk (ts_pool ?s1))" by (intro alloc_room) (use assms(8) in simp)
  have lf: "lock_free ?s1 None x" for x by (simp add: lock_free_def)
  obtain r s2 ns where i: "table_insert_tuple (ret_op ()) others (catalog_table s) ?t None ?s1 = (Inr (Some r), s2)"
    "table_at s2 (catalog_table s) ct (ps @ ns)"
    "rows_at ?s1 ps r = None" "rows_at s2 (ps @ ns) = (rows_at ?s1 ps)(r \<mapsto> raw)" "rid_page_id r \<in> set (ps @ ns)"
    "heap_frame (set (ps @ ns)) (ts_pool ?s1) (ts_pool s2)" "pool_used (ts_pool s2) = pool_used (ts_pool ?s1) \<union> set ns"
    "table_objects s2 = table_objects ?s1" "table_state.more s2 = table_state.more ?s1"
    "set ns \<inter> pool_used (ts_pool ?s1) = {}" "next_table s2 = next_table ?s1" "length ns \<le> 1"
    by (rule table_insert_spec[OF at1 t raw(2) room1 alloc1, where tx = None and others = others], rule lf, rule that)
  have more: "catalog_tables s2 = catalog_tables s" "catalog_table s2 = catalog_table s"
    using i(9) by (cases s; cases s2; simp add: table_state.defs)+
  have inv2: "cat_inv s2" "tables_of s2 = tables_of s"
    using assms(1) more i(8,11) by (simp_all add: cat_inv_def tables_of_def fun_eq_iff split: option.split)
  have q2: "q \<notin> set (ps @ ns)" using qps i(10) c(6) by auto
  have vq: "page_view (pool_page (ts_pool s2) x) = page_view (pool_page p1 x)" if "x \<in> set [q]" for x
    using i(6) q2 that by (auto simp: heap_frame_def)
  note wq = heap_view_cong[of "[q]" "pool_page (ts_pool s2)" "pool_page p1", OF vq]
  let ?tb = "\<lparr>tb_name = name, tb_first_page = q, tb_schema = sch\<rparr>"
  obtain h s' where a: "add_table name r ?tb s2 = (Inr h, s')" "cat_inv s'" "tables_of s' = (tables_of s2)(name \<mapsto> (r, ?tb))"
    "ts_pool s' = ts_pool s2" "catalog_table s' = catalog_table s2" "table_objects s' (catalog_table s2) = table_objects s2 (catalog_table s2)"
    "table_objects s' h = Some ?tb" "catalog_tables s' name = Some \<lparr>te_rid = r, te_table = h\<rparr>"
    by (rule add_table_run[OF inv2(1), of name r ?tb], rule that)
  show ?thesis
  proof (rule that)
    show "catalog_create_table (ret_op ()) others name sch None s = (Inr h, s')"
      using assms(5) c(1) i(1) a(1)
      by (simp add: catalog_create_table_def bind_op_def get_op_def on_pool_def lift_op_def catalog_entry_eq log_undo_def ret_op_def)
    show "table_at s' (catalog_table s') ct (ps @ ns)" using i(2) a(4-6) more by (simp add: table_at_def)
    have none: "tables_of s name = None" using assms(5) by (simp add: tables_of_def)
    have "(rows_at s ps)(r \<mapsto> raw) = rows_at s' (ps @ ns)" using i(4) rows1 a(4) by (simp add: rows_at_def)
    moreover have "rows_at s ps r = None" using i(3) rows1 by simp
    ultimately show "catalog_rows (tables_of s') (rows_at s' (ps @ ns))"
      using catalog_rows_add[OF assms(4) none, of r ?tb raw] raw(1) unfolding a(3) inv2(2) by simp
    show "table_at s' h ?tb [q]"
    proof -
      have "pool_st page_view {} (ts_pool s2)" using i(2) by (simp add: table_at_def heap_inv_def)
      then have "heap_inv (ts_pool s2) q [q]" using wq(1) c(3,6) i(7) by (auto simp: heap_inv_def)
      then show ?thesis using a(4,7) assms(6) by (simp add: table_at_def catalog_fits_def)
    qed
    show "heap_frame (insert q (set (ps @ ns))) (ts_pool s) (ts_pool s')" using heap_frame_trans[OF c(5), of "set (ps @ ns)" "ts_pool s'"] i(6) a(4) by simp
    show "pool_room 2 (ts_pool s')" using a(4) i(6) room1 by (simp add: heap_frame_def)
    have "card (set ns) \<le> 1" using card_length[of ns] i(12) by linarith
    then show "card (pool_used (ts_pool s')) \<le> card (pool_used (ts_pool s)) + 2"
      using card_Un_le[of "pool_used p1" "set ns"] card1 a(4) i(7) by simp
  qed (use a c wq more inv2 q2 in \<open>simp_all add: rows_at_def\<close>)
qed

end
