(* ===== verification/Catalog_Spec.thy ===== *)
theory Catalog_Spec
  imports Catalog_Laws Transaction_Spec
begin

text \<open>
  Properties of the catalog: creating a table adds it and keeps the pages and the memory in step, reopening the database gives back
  the same tables.
\<close>

definition catalog_db :: "pool \<Rightarrow> db" where
  \<comment> \<open>a database whose catalog has no table yet\<close>
  "catalog_db p =
     (sample_db p (tx_new 7))\<lparr>table_objects := [0 \<mapsto> \<lparr>tb_name = ''duck_catalog_'', tb_first_page = 1, tb_schema = catalog_schema\<rparr>]\<rparr>"

lemma catalog_db:
  assumes "heap_inv p 1 [1]" "heap_map (pool_page p) [1] = Map.empty"
  shows "cat_inv (catalog_db p)" "catalog_rows (tables_of (catalog_db p)) (rows_at (catalog_db p) [1])" "catalog_tables (catalog_db p) = Map.empty"
    "table_at (catalog_db p) (catalog_table (catalog_db p)) \<lparr>tb_name = ''duck_catalog_'', tb_first_page = 1, tb_schema = catalog_schema\<rparr> [1]"
    "ts_pool (catalog_db p) = p"
  using assms
  by (simp_all add: catalog_db_def sample_db_def cat_inv_def tables_of_def table_at_def rows_at_def catalog_rows_def catalog_schema_def)

lemma sample_fits: "catalog_fits ''ducks'' sample_schema"
  by (simp add: catalog_fits_def storable_def sample_schema_def schema_serialize_def schema_column_count_def Let_def column_ok_def
      column_serialize_def MAX_TUPLE_SIZE_def kPAGE_SIZE_def sizeof_PageHeader_def sizeof_Slot_def)

text \<open>
  C8: creating a table. For a new name whose catalog row fits a page, \<open>create_table\<close> returns the table: its first page
  was free and the table is empty, the catalog gets exactly this one more entry, and the rows on the pages of the catalog
  describe the tables in memory, as before.
\<close>

theorem catalog_create:
  assumes "cat_inv s" "table_at s (catalog_table s) ct ps" "tb_schema ct = catalog_schema" "catalog_rows (tables_of s) (rows_at s ps)"
    "catalog_tables s name = None" "catalog_fits name sch" "pool_room 2 (ts_pool s)" "card (pool_used (ts_pool s)) < 2 ^ 32 - 3"
  shows "\<exists>h q r s' ns. catalog_create_table (ret_op ()) others name sch None s = (Inr h, s') \<and> cat_inv s' \<and>
    tables_of s' = (tables_of s)(name \<mapsto> (r, \<lparr>tb_name = name, tb_first_page = q, tb_schema = sch\<rparr>)) \<and>
    fst (catalog_get_table name s') = Inr (Some h) \<and> q \<notin> pool_used (ts_pool s) \<and>
    table_at s' h \<lparr>tb_name = name, tb_first_page = q, tb_schema = sch\<rparr> [q] \<and> rows_at s' [q] = Map.empty \<and>
    table_at s' (catalog_table s') ct (ps @ ns) \<and> catalog_rows (tables_of s') (rows_at s' (ps @ ns))"
proof (rule catalog_create_run[OF assms, of others])
  fix h q r s' ns
  assume a: "catalog_create_table (ret_op ()) others name sch None s = (Inr h, s')" "cat_inv s'"
    "tables_of s' = (tables_of s)(name \<mapsto> (r, \<lparr>tb_name = name, tb_first_page = q, tb_schema = sch\<rparr>))"
    "catalog_tables s' name = Some \<lparr>te_rid = r, te_table = h\<rparr>"
    "table_at s' (catalog_table s') ct (ps @ ns)" "catalog_rows (tables_of s') (rows_at s' (ps @ ns))"
    "table_at s' h \<lparr>tb_name = name, tb_first_page = q, tb_schema = sch\<rparr> [q]" "rows_at s' [q] = Map.empty" "q \<notin> pool_used (ts_pool s)"
  have "fst (catalog_get_table name s') = Inr (Some h)" using a(4) by (simp add: catalog_get_table_def get_op_def)
  with a show ?thesis by blast
qed

theorem catalog_create_witness:
  "\<exists>s h s'. catalog_create_table (ret_op ()) id ''ducks'' sample_schema None s = (Inr h, s') \<and>
     fst (catalog_get_table ''ducks'' s') = Inr (Some h)"
proof -
  obtain p where p: "heap_inv p 1 [1]" "heap_map (pool_page p) [1] = Map.empty" "pool_room 2 p" "disk_alloc (pool_disk p)" "pool_used p = {1, 2}"
    by (rule small_heap)
  note c = catalog_db[OF p(1,2)]
  have h: "catalog_tables (catalog_db p) ''ducks'' = None" "pool_room 2 (ts_pool (catalog_db p))"
    "card (pool_used (ts_pool (catalog_db p))) < 2 ^ 32 - 3" using c(3,5) p(3,5) by simp_all
  from catalog_create[OF c(1,4) _ c(2) h(1) sample_fits h(2,3), of id] show ?thesis by auto
qed

text \<open>
  Reopening. When the rows stored on the pages of the catalog describe a set of tables, loading the catalog after a
  restart gives back exactly these tables, each with its name, its first page, its schema and the identifier of its row,
  and changes nothing on the pages.
\<close>

theorem catalog_reload:
  assumes "cat_inv s" "table_at s (catalog_table s) ct ps" "tb_schema ct = catalog_schema" "catalog_tables s = Map.empty"
    "catalog_rows T (rows_at s ps)" "pool_room 2 (ts_pool s)"
  shows "\<exists>s'. catalog_load_existing_tables s = (Inr (), s') \<and> tables_of s' = T \<and> cat_inv s' \<and> rows_at s' ps = rows_at s ps \<and>
    table_at s' (catalog_table s') ct ps \<and> heap_frame {} (ts_pool s) (ts_pool s')"
  by (rule catalog_load_run[OF assms]) blast

theorem catalog_reload_witness:
  "\<exists>s s' r q. catalog_load_existing_tables s = (Inr (), s') \<and> catalog_tables s = Map.empty \<and>
     tables_of s' = [''ducks'' \<mapsto> (r, \<lparr>tb_name = ''ducks'', tb_first_page = q, tb_schema = sample_schema\<rparr>)]"
proof -
  obtain p where p: "heap_inv p 1 [1]" "heap_map (pool_page p) [1] = Map.empty" "pool_room 2 p" "disk_alloc (pool_disk p)" "pool_used p = {1, 2}"
    by (rule small_heap)
  note c = catalog_db[OF p(1,2)]
  let ?ct = "\<lparr>tb_name = ''duck_catalog_'', tb_first_page = 1, tb_schema = catalog_schema\<rparr>"
  have h: "tb_schema ?ct = catalog_schema" "catalog_tables (catalog_db p) ''ducks'' = None" "pool_room 2 (ts_pool (catalog_db p))"
    "card (pool_used (ts_pool (catalog_db p))) < 2 ^ 32 - 3" using c(3,5) p(3,5) by simp_all
  show ?thesis
  proof (rule catalog_create_run[OF c(1,4) h(1) c(2) h(2) sample_fits h(3,4), of id])
    fix h q r s ns
    assume a: "cat_inv s" "tables_of s = (tables_of (catalog_db p))(''ducks'' \<mapsto> (r, \<lparr>tb_name = ''ducks'', tb_first_page = q, tb_schema = sample_schema\<rparr>))"
      "table_at s (catalog_table s) ?ct ([1] @ ns)" "catalog_rows (tables_of s) (rows_at s ([1] @ ns))" "pool_room 2 (ts_pool s)"
    let ?s = "s\<lparr>catalog_tables := Map.empty\<rparr>"
    have r: "cat_inv ?s" "table_at ?s (catalog_table ?s) ?ct ([1] @ ns)" "catalog_tables ?s = Map.empty"
      "catalog_rows (tables_of s) (rows_at ?s ([1] @ ns))" "pool_room 2 (ts_pool ?s)"
      using a by (simp_all add: cat_inv_def table_at_def rows_at_def)
    have "tables_of (catalog_db p) = Map.empty" using c(3) by (simp add: tables_of_def fun_eq_iff)
    then have T: "tables_of s = [''ducks'' \<mapsto> (r, \<lparr>tb_name = ''ducks'', tb_first_page = q, tb_schema = sample_schema\<rparr>)]" using a(2) by simp
    obtain s' where s': "catalog_load_existing_tables ?s = (Inr (), s')" "tables_of s' = tables_of s"
      using catalog_reload[OF r(1,2) h(1) r(3,4,5)] by blast
    show ?thesis
      by (rule exI[of _ ?s], rule exI[of _ s'], rule exI[of _ r], rule exI[of _ q]) (use s' T in simp)
  qed
qed

end
