(* ===== verification/Database_Laws.thy ===== *)
theory Database_Laws
  imports Catalog_Laws
begin

text \<open>
  The catalog of an open database, on the pages and in memory, and what dropping a table does to it: the row is deleted, the
  pages of the table are given back one by one, the object is destroyed.
\<close>

definition catalog_at :: "db \<Rightarrow> table \<Rightarrow> page_id list \<Rightarrow> bool" where
  \<comment> \<open>the catalog is the table that starts on page 1, and its rows describe the tables in memory\<close>
  "catalog_at s ct ps \<longleftrightarrow>
     cat_inv s \<and> table_at s (catalog_table s) ct ps \<and>
     ct = \<lparr>tb_name = ''duck_catalog_'', tb_first_page = kCATALOG_FIRST_PAGE_ID, tb_schema = catalog_schema\<rparr> \<and>
     catalog_rows (tables_of s) (rows_at s ps)"

lemma catalog_atD:
  assumes "catalog_at s ct ps"
  shows "cat_inv s" "table_at s (catalog_table s) ct ps" "tb_schema ct = catalog_schema" "tb_first_page ct = kCATALOG_FIRST_PAGE_ID"
    "catalog_rows (tables_of s) (rows_at s ps)" "heap_inv (ts_pool s) kCATALOG_FIRST_PAGE_ID ps"
    "ct = \<lparr>tb_name = ''duck_catalog_'', tb_first_page = kCATALOG_FIRST_PAGE_ID, tb_schema = catalog_schema\<rparr>"
  using assms unfolding catalog_at_def by (force simp: table_at_def)+

lemma initial_room: "k \<le> n \<Longrightarrow> k < 2 ^ 32 - 1 \<Longrightarrow> pool_room k (bpm_initial d n)"
  by (simp add: pool_room_def pool_pins_def bpm_initial_def)

lemma heap_first_page: "heap_inv s p ps \<Longrightarrow> p \<in> pool_used s"
  by (cases ps) (auto simp: heap_inv_def)

lemma used_page: "p \<in> pool_used s \<Longrightarrow> p \<noteq> 0 \<and> p < disk_capacity (pool_disk s)"
  by (auto simp: pool_used_def disk_in_use_def)

lemma map_single:
  assumes "\<And>k v. m k = Some v \<longleftrightarrow> (k, v) \<in> {(a, b)}"
  shows "m = [a \<mapsto> b]"
proof (rule ext)
  fix k
  show "m k = [a \<mapsto> b] k" using assms[of k b] assms[of k "the (m k)"] by (cases "m k") auto
qed

section \<open>The entry of a dropped table\<close>

lemma erase_table_run:
  assumes "cat_inv s" "catalog_tables s name = Some e"
  shows "cat_inv (erase_table name e s)" "tables_of (erase_table name e s) = (tables_of s)(name := None)"
    "table_objects (erase_table name e s) (catalog_table s) = table_objects s (catalog_table s)"
proof -
  have i: "\<And>m d. catalog_tables s m = Some d \<Longrightarrow> m \<noteq> name \<Longrightarrow> te_table d \<noteq> te_table e" "te_table e \<noteq> catalog_table s"
    using assms unfolding cat_inv_def by metis+
  let ?s = "erase_table name e s"
  have sel: "catalog_tables ?s = (catalog_tables s)(name := None)" "catalog_table ?s = catalog_table s" "next_table ?s = next_table s"
    "table_objects ?s = (table_objects s)(te_table e := None)" by (simp_all add: erase_table_def)
  show "cat_inv ?s" using assms(1) i(1) unfolding cat_inv_def sel by (simp split: if_splits)
  show "tables_of ?s = (tables_of s)(name := None)"
  proof (rule ext)
    fix m
    show "tables_of ?s m = ((tables_of s)(name := None)) m"
      using i(1)[of m] by (cases "m = name"; cases "catalog_tables s m") (simp_all add: tables_of_def sel)
  qed
  show "table_objects ?s (catalog_table s) = table_objects s (catalog_table s)" using i(2) sel by simp
qed

lemma catalog_rows_remove:
  assumes "catalog_rows T R" "T n = Some (r, tb)"
  shows "catalog_rows (T(n := None)) (R(r := None))"
proof -
  have inj: "m = n" if m: "T m = Some (r, b)" for m b
  proof -
    obtain raw where "R r = Some raw" "entry_bytes m (tb_first_page b) (tb_schema b) raw"
      using assms(1) m unfolding catalog_rows_def by blast
    moreover obtain raw' where "R r = Some raw'" "entry_bytes n (tb_first_page tb) (tb_schema tb) raw'"
      using assms unfolding catalog_rows_def by blast
    ultimately show ?thesis using entry_name by simp
  qed
  show ?thesis
    unfolding catalog_rows_def
  proof (intro conjI allI impI)
    fix m x b
    assume m: "(T(n := None)) m = Some (x, b)"
    then have m': "T m = Some (x, b)" "m \<noteq> n" by (auto split: if_splits)
    show "tb_name b = m" using m'(1) assms(1) by (auto simp: catalog_rows_def)
    have "x \<noteq> r" using inj m' by blast
    then show "\<exists>raw. (R(r := None)) x = Some raw \<and> entry_bytes m (tb_first_page b) (tb_schema b) raw"
      using m'(1) assms(1) unfolding catalog_rows_def by simp
  next
    fix x raw
    assume "(R(r := None)) x = Some raw"
    then have "R x = Some raw" "x \<noteq> r" by (auto split: if_splits)
    then obtain m b where "T m = Some (x, b)" using assms(1) unfolding catalog_rows_def by blast
    then show "\<exists>m b. (T(n := None)) m = Some (x, b)" using assms(2) \<open>x \<noteq> r\<close> by (intro exI[of _ m]) auto
  qed
qed

section \<open>Dropping a table\<close>

lemma entry_bytes_ne: "entry_bytes name p sch raw \<Longrightarrow> raw \<noteq> []"
  using serialize_nonempty[of "\<lparr>t_schema = catalog_schema, t_values = entry_values name p sch\<rparr>" raw]
  by (simp add: entry_bytes_def entry_values_def catalog_schema_def)

lemma catalog_drop_run:
  assumes "catalog_at s ct ps" "tables_of s name = Some (r, tb)" "heap_inv (ts_pool s) (tb_first_page tb) qs"
    "set ps \<inter> set qs = {}" "\<forall>q\<in>set qs. pool_pins (ts_pool s) q = 0" "pool_room 2 (ts_pool s)"
  obtains s' where "catalog_drop_table others name s = (Inr True, s')" "catalog_at s' ct ps" "tables_of s' = (tables_of s)(name := None)"
    "rows_at s' ps = (rows_at s ps)(r := None)" "heap_frame (insert (rid_page_id r) (set qs)) (ts_pool s) (ts_pool s')"
    "pages_dropped (set qs) (ts_pool s) (ts_pool s')"
proof -
  note c = catalog_atD[OF assms(1)]
  obtain e where e: "catalog_tables s name = Some e" "te_rid e = r" "table_objects s (te_table e) = Some tb"
    using assms(2) by (auto simp: tables_of_def split: option.splits)
  obtain raw where raw: "rows_at s ps r = Some raw" "entry_bytes name (tb_first_page tb) (tb_schema tb) raw"
    using c(5) assms(2) unfolding catalog_rows_def by blast
  have rps: "rid_page_id r \<in> set ps" using raw(1) by (auto simp: rows_at_def heap_map_def split: if_splits)
  have ne: "raw \<noteq> []" using raw(2) by (rule entry_bytes_ne)
  have room: "pool_room (Suc 1) (ts_pool s)" using assms(6) by (simp add: numeral_2_eq_2)
  have lf: "lock_free s None r" by (simp add: lock_free_def)
  obtain s1 where d: "table_delete_tuple others (catalog_table s) r None s = (Inr True, s1)" "table_at s1 (catalog_table s) ct ps"
    "rows_at s1 ps = (rows_at s ps)(r := None)" "heap_frame {rid_page_id r} (ts_pool s) (ts_pool s1)"
    "table_objects s1 = table_objects s" "table_state.more s1 = table_state.more s" "pool_used (ts_pool s1) = pool_used (ts_pool s)"
    "disk_space (pool_disk (ts_pool s1)) = disk_space (pool_disk (ts_pool s))" "next_table s1 = next_table s"
    by (rule table_delete_spec[OF c(2) rps room raw(1) ne lf, of others], rule that)
  have more: "catalog_tables s1 = catalog_tables s" "catalog_table s1 = catalog_table s"
    using d(6) by (cases s; cases s1; simp add: table_state.defs)+
  have inv1: "cat_inv s1" "tables_of s1 = tables_of s"
    using c(1) more d(5,9) by (simp_all add: cat_inv_def tables_of_def fun_eq_iff split: option.split)
  have v: "page_view (pool_page (ts_pool s1) x) = page_view (pool_page (ts_pool s) x)" if "x \<in> set qs" for x
  proof -
    have "x \<noteq> rid_page_id r" using rps assms(4) that by blast
    then show ?thesis using d(4) by (simp add: heap_frame_def)
  qed
  have "pool_st page_view {} (ts_pool s1)" using d(2) by (simp add: table_at_def heap_inv_def)
  then have q1: "table_objects s1 (te_table e) = Some tb" "heap_inv (ts_pool s1) (tb_first_page tb) qs"
    using heap_view_cong(1)[of qs, OF v] heap_invD[OF assms(3)] d(5,7) e(3) by (simp_all add: heap_inv_def)
  have pins: "\<forall>q\<in>set qs. pool_pins (ts_pool s1) q = 0" and room1: "pool_room (Suc 1) (ts_pool s1)"
    using d(4) assms(5) room by (simp_all add: heap_frame_def)
  obtain p where p: "table_drop_pages (te_table e) s1 = (Inr (0, DROP_SUCCESS), s1\<lparr>ts_pool := p\<rparr>)" "pool_st page_view {} p"
    "heap_frame (set qs) (ts_pool s1) p" "pages_dropped (set qs) (ts_pool s1) p"
    by (rule table_drop_run[OF q1 room1 pins])
  let ?s2 = "s1\<lparr>ts_pool := p\<rparr>"
  have e2: "cat_inv ?s2" "catalog_tables ?s2 name = Some e" using inv1 more e(1) by simp_all
  note er = erase_table_run[OF e2]
  let ?s' = "erase_table name e ?s2"
  have sp: "ts_pool ?s' = p" "catalog_table ?s' = catalog_table s" using more by (simp_all add: erase_table_def)
  have "heap_inv (ts_pool s1) (tb_first_page ct) ps" using d(2) by (simp add: table_at_def)
  note h1 = heap_invD[OF this]
  have vp: "page_view (pool_page p x) = page_view (pool_page (ts_pool s1) x)" if "x \<in> set ps" for x
    using p(3) assms(4) that by (auto simp: heap_frame_def)
  note w = heap_view_cong[of ps "pool_page p" "pool_page (ts_pool s1)", OF vp]
  have "set ps \<subseteq> pool_used p" using p(4) h1(5) assms(4) by (auto simp: pages_dropped_def)
  then have at: "table_at ?s' (catalog_table ?s') ct ps"
    using d(2) er(3) sp more h1 w(1) p(2) by (simp add: table_at_def heap_inv_def)
  have rows: "rows_at ?s' ps = (rows_at s ps)(r := None)" using d(3) w(2) sp by (simp add: rows_at_def)
  have T: "tables_of ?s' = (tables_of s)(name := None)" using er(2) inv1(2) by simp
  have "catalog_at ?s' ct ps"
    using er(1) at c(7) catalog_rows_remove[OF c(5) assms(2)] unfolding catalog_at_def T rows by simp
  moreover have "catalog_drop_table others name s = (Inr True, ?s')"
    using e(1,2) d(1) p(1) by (simp add: catalog_drop_table_def bind_op_def get_op_def modify_op_def ret_op_def)
  moreover have "heap_frame (insert (rid_page_id r) (set qs)) (ts_pool s) (ts_pool ?s')"
    using heap_frame_trans[OF d(4) p(3)] sp by simp
  moreover have "pages_dropped (set qs) (ts_pool s) (ts_pool ?s')" using p(4) d(7,8) sp by (simp add: pages_dropped_def disk_space_def)
  ultimately show ?thesis using that T rows by blast
qed

end
