(* ===== verification/Duck_Main.thy ===== *)
theory Duck_Main
  imports Executor Transaction
begin

text \<open>
  The example program (\<open>src/main.cpp\<close>): it opens the database \<open>test.db\<close>, runs one query on a table in a transaction
  that it rolls back, and prints the rows. What it prints is kept beside the state of the database.

  The texts of the exceptions of the standard library are a parameter, \<open>what\<close>.
\<close>

type_synonym console = "db \<times> string list"

definition on_db :: "(db, 'a) op \<Rightarrow> (console, 'a) op" where
  "on_db m = (\<lambda>(s, out). case m s of (r, s') \<Rightarrow> (r, (s', out)))"

definition println :: "string \<Rightarrow> (console, unit) op" where
  "println line = modify_op (\<lambda>(s, out). (s, out @ [line]))"

definition main_schema :: "schema res" where
  "main_schema = schema_of
     [\<lparr>col_name = ''id'', col_type = T_UINT32, col_length = 0\<rparr>,
      \<lparr>col_name = ''username'', col_type = T_VARCHAR, col_length = 3000\<rparr>]"

definition main_tuple :: "tuple res" where
  \<comment> \<open>built, but not stored: the call is commented out\<close>
  "main_tuple = bind_res main_schema (tuple_of [value_of (V_uint32 233), value_of (V_string ''Sava'')])"

definition main_condition :: expr where
  \<comment> \<open>the double next to 233.000000001 is the last constant\<close>
  "main_condition =
     Binary_Expression
       (Comparison_Expression
         (Constant_Expression (value_of (V_string ''test string!''))) Op_GREATER_EQ (Constant_Expression (value_of (V_string ''test string''))))
       Op_AND
       (Comparison_Expression (Column_Expression 0) Op_LESS (Constant_Expression (value_of (V_double 0x406D200000008970))))"

definition main_query :: "nat \<Rightarrow> transaction_id option \<Rightarrow> (db, operator) op" where
  "main_query h tx =
     bind_op (seq_scan_new h tx) (\<lambda>scan.
     bind_op (projection_new (Filter scan main_condition) [0, 1]) executor_execute)"

fun main_entries :: "(db \<Rightarrow> db) \<Rightarrow> nat \<Rightarrow> operator \<Rightarrow> (console, operator) op" where
  "main_entries others 0 result = throw_op Diverges"
| "main_entries others (Suc n) result =
     bind_op (on_db (query_next others kSCAN_FUEL result)) (\<lambda>(entry, result').
       case entry of
         None \<Rightarrow> ret_op result'
       | Some r \<Rightarrow>
           bind_op (lift_op (bind_res (row_get r 0) value_to_string)) (\<lambda>a.
           bind_op (lift_op (bind_res (row_get r 1) value_to_string)) (\<lambda>b.
           bind_op (println (''Entry: '' @ a @ '' | '' @ b)) (\<lambda>_. main_entries others n result'))))"

definition main_body :: "(db \<Rightarrow> db) \<Rightarrow> (console, unit) op" where
  "main_body others =
     bind_op (lift_op main_tuple) (\<lambda>_.
     bind_op (on_db (db_get_table ''test_table3'')) (\<lambda>found.
       case found of
         None \<Rightarrow> throw_op Undefined_Behaviour
       | Some table \<Rightarrow>
           bind_op (on_db db_begin_tx) (\<lambda>tx.
           bind_op (on_db (main_query table (Some tx))) (\<lambda>result.
           bind_op (on_db (query_output_schema result)) (\<lambda>s.
           bind_op (println (''Schema: '' @ schema_to_string s)) (\<lambda>_.
           bind_op (main_entries others kSCAN_FUEL result) (\<lambda>result'.
           bind_op (on_db (db_rollback_tx (Some tx))) (\<lambda>_. on_db (operator_end result'))))))))) "

definition main_catch :: "(error \<Rightarrow> string) \<Rightarrow> error \<Rightarrow> string list \<Rightarrow> string list res" where
  \<comment> \<open>the handler; an error that is not an exception is not caught\<close>
  "main_catch what e out = (if is_exception e then Inr (out @ [''Exception: '' @ what e]) else Inl e)"

definition main_program :: "(error \<Rightarrow> string) \<Rightarrow> (db \<Rightarrow> db) \<Rightarrow> db_file option \<Rightarrow> string list res" where
  \<comment> \<open>what is printed; the database is destroyed at the end of the block, before the handler\<close>
  "main_program what others fd =
     (case db_open fd 128 of
        Inl e \<Rightarrow> main_catch what e []
      | Inr s \<Rightarrow>
          (case main_body others (s, []) of
             (Inl e, (s', out)) \<Rightarrow> main_catch what (db_unwind e s') out
           | (Inr _, (s', out)) \<Rightarrow> (case db_close s' of (Inl e, _) \<Rightarrow> Inl e | (Inr _, _) \<Rightarrow> Inr out)))"

end
