(* ===== verification/Kept.thy ===== *)
theory Kept
  imports Disk_Laws Table_Heap Heap_Laws
begin

text \<open>
  What no operation can spoil. \<open>op_keeps I m\<close> says that \<open>m\<close> keeps \<open>I\<close> whatever comes out of it, a value or an exception; the
  collection \<open>kept\<close> has a rule for each way of putting operations together, and carries the invariants \<open>file_kept\<close> of
  the disk manager (the file is a database file and its free list fits the metadata page) and \<open>pool_kept\<close> of the pool (its frames are
  pages, too) through every operation of the disk manager, the buffer pool and the table heap.
\<close>

section \<open>Invariants of operations\<close>

definition op_keeps :: "('s \<Rightarrow> bool) \<Rightarrow> ('s, 'a) op \<Rightarrow> bool" where
  "op_keeps I m \<longleftrightarrow> (\<forall>s. I s \<longrightarrow> I (snd (m s)))"

named_theorems kept "operations that keep an invariant"

lemma op_keepsI: "(\<And>s. I s \<Longrightarrow> I (snd (m s))) \<Longrightarrow> op_keeps I m"
  by (simp add: op_keeps_def)

lemma op_keepsD: "op_keeps I m \<Longrightarrow> m s = (r, s') \<Longrightarrow> I s \<Longrightarrow> I s'"
  by (metis op_keeps_def snd_conv)

lemma op_keeps_basic [kept]:
  "op_keeps I (ret_op x)" "op_keeps I (throw_op e)" "op_keeps I (lift_op r)" "op_keeps I (get_op g)"
  by (simp_all add: op_keeps_def op_simps)

lemma op_keeps_bind [kept]:
  assumes "op_keeps I m" "\<And>x. op_keeps I (f x)"
  shows "op_keeps I (bind_op m f)"
proof (rule op_keepsI)
  fix s
  assume "I s"
  then have "I (snd (m s))" using assms(1) by (simp add: op_keeps_def)
  then show "I (snd (bind_op m f s))"
    using assms(2) by (cases "m s"; cases "fst (m s)") (auto simp: bind_op_def op_keeps_def)
qed

lemma op_keeps_modify [kept]: "(\<And>s. I s \<Longrightarrow> I (f s)) \<Longrightarrow> op_keeps I (modify_op f)"
  by (simp add: op_keeps_def op_simps)

lemma op_keeps_if [kept]: "(b \<Longrightarrow> op_keeps I m) \<Longrightarrow> (\<not> b \<Longrightarrow> op_keeps I n) \<Longrightarrow> op_keeps I (if b then m else n)"
  by simp

lemma op_keeps_option [kept]: "op_keeps I m \<Longrightarrow> (\<And>x. op_keeps I (f x)) \<Longrightarrow> op_keeps I (case z of None \<Rightarrow> m | Some x \<Rightarrow> f x)"
  by (cases z) simp_all

lemma op_keeps_prod [kept]: "(\<And>x y. op_keeps I (f x y)) \<Longrightarrow> op_keeps I (case z of (x, y) \<Rightarrow> f x y)"
  by (cases z) simp

lemma op_keeps_let [kept]: "(\<And>x. op_keeps I (f x)) \<Longrightarrow> op_keeps I (Let z f)"
  by (simp add: Let_def)

lemma noexcept_kept: "op_keeps I m \<Longrightarrow> op_keeps I (noexcept_op m)"
  by (auto simp: op_keeps_def noexcept_op_def split: prod.split sum.split)

lemma op_keeps_snd: "op_keeps I m \<Longrightarrow> I s \<Longrightarrow> I (snd (m s))"
  by (simp add: op_keeps_def)

section \<open>The disk manager\<close>

definition file_kept :: "disk \<Rightarrow> bool" where
  \<comment> \<open>the header has the magic number and the version of this program, and the free list fits the metadata page\<close>
  "file_kept d \<longleftrightarrow> disk_ok d \<and> length (free_list d) \<le> 2040 \<and>
     hdr_magic (disk_hdr d) = kDB_MAGIC \<and> hdr_version (disk_hdr d) = kDB_FORMAT_VERSION"

lemma pwrite_file_ok: "file_ok f \<Longrightarrow> file_ok (snd (pwrite f bs off))"
  by (simp add: pwrite_def file_ok_def Let_def)

lemma file_kept_disk [kept]:
  "op_keeps file_kept (dm_read_page p b)" "op_keeps file_kept (dm_write_page p b)" "op_keeps file_kept dm_allocate_page"
  "op_keeps file_kept (dm_deallocate_page p)" "op_keeps file_kept dm_flush_all"
proof -
  show "op_keeps file_kept (dm_read_page p b)"
    by (rule op_keepsI) (simp add: dm_read_page_def Let_def split: prod.split)
  show "op_keeps file_kept (dm_write_page p b)"
  proof (rule op_keepsI)
    fix d
    assume d: "file_kept d"
    have "file_ok (snd (pwrite (disk_file d) (take kPAGE_SIZE b) (unat p * kPAGE_SIZE)))"
      using d by (intro pwrite_file_ok) (simp add: file_kept_def disk_ok_def)
    then show "file_kept (snd (dm_write_page p b d))"
      using d by (auto simp: dm_write_page_def Let_def file_kept_def disk_ok_def split: prod.split)
  qed
  show "op_keeps file_kept dm_allocate_page"
    by (rule op_keepsI) (auto simp: dm_allocate_page_def file_kept_def disk_ok_def)
  show "op_keeps file_kept (dm_deallocate_page p)"
    by (rule op_keepsI) (auto simp: dm_deallocate_page_def file_kept_def disk_ok_def)
  show "op_keeps file_kept dm_flush_all"
    by (rule op_keepsI) (simp add: dm_flush_all_def Let_def file_kept_def disk_ok_def pwrite_file_ok)
qed

section \<open>The buffer pool\<close>

definition frames_sized :: "pool \<Rightarrow> bool" where
  \<comment> \<open>the array of frames has its capacity, and every frame is a page\<close>
  "frames_sized s \<longleftrightarrow> length (frames s) = pool_capacity s \<and> pool_capacity s < 2 ^ 32 \<and> pool_size s \<le> pool_capacity s \<and>
     (\<forall>pg\<in>set (frames s). length (p_data pg) = kPAGE_SIZE)"

definition pool_kept :: "pool \<Rightarrow> bool" where
  "pool_kept s \<longleftrightarrow> file_kept (pool_disk s) \<and> frames_sized s"

lemma pool_keptI:
  assumes "pool_st v X s" "hdr_magic (disk_hdr (pool_disk s)) = kDB_MAGIC" "hdr_version (disk_hdr (pool_disk s)) = kDB_FORMAT_VERSION"
  shows "pool_kept s"
proof -
  note i = pool_invD[OF pool_stD(1)[OF assms(1)]]
  note ok = pool_okD[OF i(1)]
  have "file_kept (pool_disk s)" using i(2) ok(7) assms(2,3) by (auto simp: file_kept_def disk_inv_def)
  moreover have "length (p_data pg) = kPAGE_SIZE" if "pg \<in> set (frames s)" for pg
    using that frames_okD(7)[OF ok(3)] by (auto simp: in_set_conv_nth)
  ultimately show ?thesis using ok(1,2) frames_okD(1)[OF ok(3)] by (simp add: pool_kept_def frames_sized_def)
qed

lemma on_disk_kept [kept]: "op_keeps file_kept m \<Longrightarrow> op_keeps pool_kept (on_disk m)"
  by (auto simp: op_keeps_def on_disk_def pool_kept_def frames_sized_def split: prod.split)

lemma pool_kept_simps [simp]:
  "pool_kept (s\<lparr>page_table := t\<rparr>) = pool_kept s" "pool_kept (s\<lparr>pool_replacer := r\<rparr>) = pool_kept s"
  "pool_kept (s\<lparr>free_frames_list := fs\<rparr>) = pool_kept s"
  by (simp_all add: pool_kept_def frames_sized_def)

lemma pool_kept_size: "pool_kept s \<Longrightarrow> pool_size s < pool_capacity s \<Longrightarrow> pool_kept (s\<lparr>pool_size := Suc (pool_size s)\<rparr>)"
  by (simp add: pool_kept_def frames_sized_def)

lemma put_frame_kept: "length (p_data pg) = kPAGE_SIZE \<Longrightarrow> pool_kept s \<Longrightarrow> pool_kept (put_frame f pg s)"
  using set_update_subset_insert[of "frames s" "unat f" pg] by (auto simp: pool_kept_def frames_sized_def put_frame_def)

lemma frame_bind:
  assumes "\<And>pg. length (p_data pg) = kPAGE_SIZE \<Longrightarrow> op_keeps pool_kept (g pg)"
  shows "op_keeps pool_kept (bind_op (frame_op f) g)"
proof (rule op_keepsI)
  fix s
  assume s: "pool_kept s"
  show "pool_kept (snd (bind_op (frame_op f) g s))"
  proof (cases "unat f < length (frames s)")
    case True
    then have "length (p_data (frames s ! unat f)) = kPAGE_SIZE" using s by (simp add: pool_kept_def frames_sized_def)
    from op_keeps_snd[OF assms[OF this] s] show ?thesis using True by (simp add: frame_op_def bind_op_def)
  qed (simp add: s frame_op_def bind_op_def)
qed

lemma read_bind:
  assumes "length b = kPAGE_SIZE" "\<And>bs. length bs = kPAGE_SIZE \<Longrightarrow> op_keeps pool_kept (g bs)"
  shows "op_keeps pool_kept (bind_op (on_disk (dm_read_page p b)) g)"
proof (rule op_keepsI)
  fix s
  assume s: "pool_kept s"
  obtain r d where r: "dm_read_page p b (pool_disk s) = (r, d)" by (cases "dm_read_page p b (pool_disk s)")
  have k: "pool_kept (s\<lparr>pool_disk := d\<rparr>)"
    using op_keeps_snd[OF on_disk_kept[OF file_kept_disk(1)] s, of p b] r by (simp add: on_disk_def)
  have "length bs = kPAGE_SIZE" if "r = Inr bs" for bs
    using r assms(1) that by (auto simp: dm_read_page_def pread_def Let_def kPAGE_SIZE_def split: if_splits)
  then show "pool_kept (snd (bind_op (on_disk (dm_read_page p b)) g s))"
    using r k op_keeps_snd[OF assms(2) k] by (cases r) (simp_all add: bind_op_def on_disk_def)
qed

lemma frame_op_kept [kept]: "op_keeps pool_kept (frame_op f)"
  by (rule op_keepsI) (simp add: frame_op_def)

lemma put_kept [kept]: "length (p_data pg) = kPAGE_SIZE \<Longrightarrow> op_keeps pool_kept (modify_op (put_frame f pg))"
  by (rule op_keeps_modify) (rule put_frame_kept)

lemma page_data_length [simp]:
  "p_data (page_inc_pin_count pg) = p_data pg" "p_data (page_dec_pin_count pg) = p_data pg" "p_data (page_set_dirty b pg) = p_data pg"
  "length (p_data (page_reset_memory p pg)) = kPAGE_SIZE"
  by (simp_all add: page_inc_pin_count_def page_dec_pin_count_def page_set_dirty_def page_reset_memory_def)

lemma bpm_flush_page_kept [kept]: "op_keeps pool_kept (bpm_flush_page pg)"
  unfolding bpm_flush_page_def by (intro kept)

lemma bpm_find_cached_page_kept [kept]: "op_keeps pool_kept (bpm_find_cached_page p)"
proof -
  have "op_keeps pool_kept (bind_op (frame_op f) (\<lambda>pg. bind_op (modify_op (put_frame f (page_inc_pin_count pg))) (\<lambda>_.
      bind_op (modify_op (\<lambda>s. s\<lparr>pool_replacer := rp_record p (pool_replacer s)\<rparr>)) (\<lambda>_. ret_op (Some f)))))" for f
    by (rule frame_bind | rule kept | simp)+
  then show ?thesis by (auto simp: op_keeps_def bpm_find_cached_page_def split: option.split)
qed

lemma bpm_find_next_frame_kept [kept]: "op_keeps pool_kept bpm_find_next_frame"
  by (rule op_keepsI) (simp add: bpm_find_next_frame_def pool_kept_size split: option.split sum.split)

lemma bpm_swap_page_kept [kept]: "op_keeps pool_kept (bpm_swap_page p b)"
  unfolding bpm_swap_page_def by (rule frame_bind | rule read_bind | rule kept | simp)+

lemma bpm_page_kept [kept]: "op_keeps pool_kept bpm_new_page" "op_keeps pool_kept (bpm_fetch_page p)"
  unfolding bpm_new_page_def bpm_fetch_page_def by (intro kept)+

lemma bpm_delete_page_kept [kept]: "op_keeps pool_kept (bpm_delete_page p)"
proof -
  have "op_keeps pool_kept (bind_op (frame_op f) (\<lambda>pg.
      if 0 < p_pin_count pg then ret_op False
      else bind_op (modify_op (\<lambda>s. s\<lparr>page_table := (page_table s)(p := None), pool_replacer := rp_remove p (pool_replacer s)\<rparr>)) (\<lambda>_.
        bind_op (modify_op (put_frame f (page_reset_memory INVALID_PAGE_ID pg))) (\<lambda>_.
        bind_op (modify_op (\<lambda>s. s\<lparr>free_frames_list := free_frames_list s @ [f]\<rparr>)) (\<lambda>_.
        bind_op (on_disk (dm_deallocate_page p)) (\<lambda>_. ret_op True))))))" for f
    by (rule frame_bind | rule kept | simp)+
  moreover have "op_keeps pool_kept (bind_op (on_disk (dm_deallocate_page p)) (\<lambda>_. ret_op True))" by (intro kept)
  ultimately show ?thesis by (auto simp: op_keeps_def bpm_delete_page_def split: option.split)
qed

lemma bpm_unpin_page_kept [kept]: "op_keeps pool_kept (bpm_unpin_page p d)"
proof -
  have "op_keeps pool_kept (bind_op (frame_op f) (\<lambda>pg.
      modify_op (put_frame f (page_dec_pin_count (if d then page_set_dirty True pg else pg)))))" for f
    by (rule frame_bind, rule put_kept) simp
  then show ?thesis by (auto simp: op_keeps_def bpm_unpin_page_def split: option.split)
qed

lemma bpm_flush_from_kept [kept]: "op_keeps pool_kept (bpm_flush_from i n)"
  by (induction i n rule: bpm_flush_from.induct) (auto intro!: kept)

lemma bpm_flush_all_kept [kept]: "op_keeps pool_kept bpm_flush_all"
  unfolding bpm_flush_all_def by (intro kept)

lemma pinned_kept [kept]:
  "op_keeps pool_kept (pinned_page_id x)" "op_keeps pool_kept (pinned_data x)" "op_keeps pool_kept (pinned_destroy x d)"
  "op_keeps pool_kept (page_read f g)"
  unfolding pinned_page_id_def pinned_data_def pinned_destroy_def page_read_def by (auto intro!: kept)

lemma with_pinned_kept [kept]:
  assumes "op_keeps pool_kept body"
  shows "op_keeps pool_kept (with_pinned f body)"
proof (rule op_keepsI)
  fix s
  assume "pool_kept s"
  then have "pool_kept (snd (body s))" by (rule op_keeps_snd[OF assms])
  then show "pool_kept (snd (with_pinned f body s))"
    by (auto simp: with_pinned_def split: prod.split sum.split intro!: op_keeps_snd[where I = pool_kept] kept)
qed

section \<open>Writing a page\<close>

definition keeps_length :: "(byte list \<Rightarrow> ('a \<times> byte list) res) \<Rightarrow> bool" where
  "keeps_length g \<longleftrightarrow> (\<forall>d x d'. g d = Inr (x, d') \<longrightarrow> length d' = length d)"

lemma page_update_kept [kept]:
  assumes "keeps_length g"
  shows "op_keeps pool_kept (page_update f g)"
proof (rule op_keepsI)
  fix s
  assume s: "pool_kept s"
  have "length (p_data (frames s ! unat f)) = kPAGE_SIZE" if "unat f < length (frames s)"
    using s that by (simp add: pool_kept_def frames_sized_def)
  then show "pool_kept (snd (page_update f g s))"
    using s assms
    by (auto simp: page_update_def pinned_data_def write_data_def bind_op_def frame_op_def lift_op_def modify_op_def ret_op_def
        keeps_length_def split: sum.split prod.split intro!: put_frame_kept)
qed

lemma store_length: "store xs off ys = Inr zs \<Longrightarrow> length zs = length xs"
  by (auto simp: store_def split: if_splits)

lemma set_length:
  "set_next_page_id d p = Inr d' \<Longrightarrow> length d' = length d" "set_slot_count d w = Inr d' \<Longrightarrow> length d' = length d"
  "set_free_space_offset d w = Inr d' \<Longrightarrow> length d' = length d" "set_slot_offset d i w = Inr d' \<Longrightarrow> length d' = length d"
  "set_slot_length d i w = Inr d' \<Longrightarrow> length d' = length d" "copy_into d off n t = Inr d' \<Longrightarrow> length d' = length d"
  by (auto simp: set_next_page_id_def set_slot_count_def set_free_space_offset_def set_slot_offset_def set_slot_length_def copy_into_def
      store16_def store32_def res_simps split: if_splits dest: store_length)

lemma sp_init_length: "sp_init d = Inr d' \<Longrightarrow> length d' = length d"
  by (auto simp: sp_init_def res_simps dest!: set_length)

lemma sp_compact_length: "sp_compact d = Inr d' \<Longrightarrow> length d' = length d"
  by (auto simp: sp_compact_def res_simps dest!: store_length)

lemma sp_choose_slot_length: "sp_choose_slot d a n pref = Inr (Some (k, d')) \<Longrightarrow> length d' = length d"
  by (auto simp: sp_choose_slot_def sp_allocate_slot_def res_simps split: if_splits option.splits dest!: set_length)

lemma sp_place_tuple_length: "sp_place_tuple d k n t = Inr d' \<Longrightarrow> length d' = length d"
  by (auto simp: sp_place_tuple_def res_simps dest!: set_length)

lemma sp_insert_tuple_length: "sp_insert_tuple d t pref = Inr (r, d') \<Longrightarrow> length d' = length d"
  by (auto simp: sp_insert_tuple_def res_simps Let_def split: if_splits option.splits
      dest!: sp_choose_slot_length sp_place_tuple_length)

lemma page_writes_kept [kept]:
  "keeps_length (\<lambda>d. bind_res (sp_init d) (\<lambda>d'. Inr ((), d')))" "keeps_length (\<lambda>d. bind_res (sp_compact d) (\<lambda>d'. Inr ((), d')))"
  "keeps_length (\<lambda>d. bind_res (sp_set_next_page d p) (\<lambda>d'. Inr ((), d')))" "keeps_length (\<lambda>d. sp_insert_tuple d t pref)"
  "keeps_length (insert_or_compact (\<lambda>d. sp_insert_tuple d t pref) sp_is_compacted sp_compact)"
  "keeps_length (\<lambda>d. sp_try_update_in_place d r t)" "keeps_length (\<lambda>d. sp_delete_tuple d k)"
  "keeps_length (\<lambda>d. bind_res (sp_restore_tuple d k t) (\<lambda>d'. Inr ((), d')))"
proof -
  note l = set_length sp_init_length sp_compact_length sp_insert_tuple_length
  show "keeps_length (\<lambda>d. bind_res (sp_init d) (\<lambda>d'. Inr ((), d')))" "keeps_length (\<lambda>d. bind_res (sp_compact d) (\<lambda>d'. Inr ((), d')))"
    "keeps_length (\<lambda>d. bind_res (sp_set_next_page d p) (\<lambda>d'. Inr ((), d')))" "keeps_length (\<lambda>d. sp_insert_tuple d t pref)"
    by (auto simp: keeps_length_def sp_set_next_page_def res_simps dest!: l)
  show "keeps_length (insert_or_compact (\<lambda>d. sp_insert_tuple d t pref) sp_is_compacted sp_compact)"
    by (auto simp: keeps_length_def insert_or_compact_def res_simps split: if_splits dest!: l)
  show "keeps_length (\<lambda>d. sp_try_update_in_place d r t)"
    by (auto simp: keeps_length_def sp_try_update_in_place_def Let_def res_simps split: if_splits dest!: l)
  show "keeps_length (\<lambda>d. sp_delete_tuple d k)"
    by (auto simp: keeps_length_def sp_delete_tuple_def res_simps split: if_splits dest!: l)
  show "keeps_length (\<lambda>d. bind_res (sp_restore_tuple d k t) (\<lambda>d'. Inr ((), d')))"
    by (auto simp: keeps_length_def sp_restore_tuple_def Let_def res_simps split: if_splits dest!: l)
qed

section \<open>The table heap\<close>

lemma heap_create_kept [kept]: "op_keeps pool_kept heap_create"
  unfolding heap_create_def by (intro kept)

lemma heap_insert_from_kept [kept]:
  assumes "op_keeps pool_kept others"
  shows "op_keeps pool_kept (heap_insert_from others n p created t)"
proof (induction n arbitrary: p created)
  case (Suc n)
  have "op_keeps pool_kept (heap_insert_page others f created t)" for f
    unfolding heap_insert_page_def heap_link_new_page_def by (intro kept assms)
  then show ?case using Suc by (auto intro!: kept split: insert_step.split)
qed (simp add: kept)

lemma heap_insert_tuple_kept [kept]: "op_keeps pool_kept others \<Longrightarrow> op_keeps pool_kept (heap_insert_tuple others p t)"
  unfolding heap_insert_tuple_def by (intro kept)

lemma heap_update_tuple_kept [kept]:
  assumes "op_keeps pool_kept others"
  shows "op_keeps pool_kept (heap_update_tuple others p r t)"
proof -
  have "op_keeps pool_kept (heap_update_page f r t)" for f
    unfolding heap_update_page_def heap_reinsert_def by (intro kept)
  then show ?thesis using assms unfolding heap_update_tuple_def by (auto intro!: kept split: update_step.split)
qed

lemma heap_tuple_kept [kept]:
  "op_keeps pool_kept (heap_get_tuple r)" "op_keeps pool_kept (heap_delete_tuple r)" "op_keeps pool_kept (heap_restore_tuple r t)"
  unfolding heap_get_tuple_def heap_delete_tuple_def heap_restore_tuple_def by (intro kept)+

lemma heap_all_pages_kept [kept]: "op_keeps pool_kept (heap_all_pages p)"
proof -
  have "op_keeps pool_kept (heap_all_pages_from n p result)" for n result
    by (induction n arbitrary: p result) (auto intro!: kept)
  then show ?thesis by (simp add: heap_all_pages_def)
qed

lemma heap_drop_page_kept [kept]: "op_keeps pool_kept (heap_drop_page p)"
  unfolding heap_drop_page_def by (intro kept)

lemma heap_scan_kept [kept]:
  "op_keeps pool_kept (heap_scan_begin p)" "op_keeps pool_kept (heap_scan_end sc)" "op_keeps pool_kept (heap_scan_next_page sc)"
  unfolding heap_scan_begin_def heap_scan_end_def heap_scan_next_page_def by (intro kept)+

lemma heap_scan_next_kept [kept]: "op_keeps pool_kept (heap_scan_next sc)"
proof -
  have "op_keeps pool_kept (heap_scan_next_from n sc)" for n
  proof (induction n arbitrary: sc)
    case (Suc n)
    have "op_keeps pool_kept (heap_scan_seek f slot)" for f slot
      unfolding heap_scan_seek_def by (intro kept)
    then show ?case using Suc by (auto intro!: kept)
  qed (simp add: kept)
  then show ?thesis by (simp add: heap_scan_next_def)
qed

end
