(* ===== verification/Calls.thy ===== *)
theory Calls
  imports Kept Database_Laws Transaction_Laws Executor_Laws
begin

text \<open>
  The calls of the database. The locale \<open>call_invariant\<close> says what an invariant must survive (a change of the pool, the calls of
  the lock manager, the bookkeeping of the catalog and of the transactions) to survive every call, with any outcome. It is
  interpreted on two invariants of the model: the file is a database file (\<open>db_kept\<close>), and the locks agree with the
  transactions that hold them (\<open>tx_kept\<close>).
\<close>

section \<open>Calls\<close>

datatype db_call =
    Call_Begin
  | Call_Commit "transaction_id option"
  | Call_Rollback "transaction_id option"
  | Call_Create string schema "transaction_id option"
  | Call_Drop string
  | Call_Get string
  | Call_All
  | Call_Insert nat tuple "transaction_id option"
  | Call_Read nat rid "transaction_id option"
  | Call_Update nat rid tuple "transaction_id option"
  | Call_Delete nat rid "transaction_id option"
  | Call_Query nat nat "transaction_id option" operator

definition run_only :: "(db, 'a) op \<Rightarrow> (db, unit) op" where
  "run_only m = bind_op m (\<lambda>_. ret_op ())"

primrec run_call :: "(pool, unit) op \<Rightarrow> (db \<Rightarrow> db) \<Rightarrow> db_call \<Rightarrow> (db, unit) op" where
  \<comment> \<open>the call without its result\<close>
  "run_call alloc others Call_Begin = run_only db_begin_tx"
| "run_call alloc others (Call_Commit tx) = run_only (db_commit_tx tx)"
| "run_call alloc others (Call_Rollback tx) = run_only (db_rollback_tx tx)"
| "run_call alloc others (Call_Create name sch tx) = run_only (db_create_table alloc others name sch tx)"
| "run_call alloc others (Call_Drop name) = run_only (db_drop_table others name)"
| "run_call alloc others (Call_Get name) = run_only (db_get_table name)"
| "run_call alloc others Call_All = run_only db_all_tables"
| "run_call alloc others (Call_Insert h t tx) = run_only (table_insert_tuple alloc others h t tx)"
| "run_call alloc others (Call_Read h r tx) = run_only (table_get_tuple others h r tx)"
| "run_call alloc others (Call_Update h r t tx) = run_only (table_update_tuple alloc others h r t tx)"
| "run_call alloc others (Call_Delete h r tx) = run_only (table_delete_tuple others h r tx)"
| "run_call alloc others (Call_Query n h tx q) = run_only (run_query others n h tx q)"

primrec run_calls :: "(pool, unit) op \<Rightarrow> (db \<Rightarrow> db) \<Rightarrow> db_call list \<Rightarrow> (db, unit) op" where
  \<comment> \<open>a history: the caller catches exceptions and goes on; a failed assertion, undefined behaviour and a loop without end stop it\<close>
  "run_calls alloc others [] = ret_op ()"
| "run_calls alloc others (c # cs) = (\<lambda>s.
     case run_call alloc others c s of
       (Inr _, s') \<Rightarrow> run_calls alloc others cs s'
     | (Inl e, s') \<Rightarrow> if is_exception e then run_calls alloc others cs s' else (Inl e, s'))"

lemma run_only_kept [kept]: "op_keeps I m \<Longrightarrow> op_keeps I (run_only m)"
  unfolding run_only_def by (intro kept)

lemma run_calls_step:
  "snd (run_calls alloc others (c # cs) s) = snd (run_call alloc others c s) \<or>
   snd (run_calls alloc others (c # cs) s) = snd (run_calls alloc others cs (snd (run_call alloc others c s)))"
  by (simp split: prod.split sum.split)

section \<open>What a call needs of an invariant\<close>

lemma tx_op_kept [kept]: "op_keeps I (tx_op t)" "op_keeps I (table_op h)"
  by (auto simp: op_keeps_def tx_op_def table_op_def split: option.split)

locale call_invariant =
  fixes I :: "db \<Rightarrow> bool" and others :: "db \<Rightarrow> db" and alloc :: "(pool, unit) op"
  assumes pool: "I s \<Longrightarrow> (pool_kept (ts_pool s) \<Longrightarrow> pool_kept p) \<Longrightarrow> I (s\<lparr>ts_pool := p\<rparr>)"
    and shared: "op_keeps I (lock_shared others tx r)"
    and exclusive: "op_keeps I (lock_exclusive others tx r)"
    and unlock: "op_keeps I (unlock_all tx)"
    and undo_log: "I s \<Longrightarrow> I (push_undo t u s)"
    and state: "I s \<Longrightarrow> I (set_state t st s)"
    and objects: "I s \<Longrightarrow> I (s\<lparr>table_objects := objs\<rparr>)" "I s \<Longrightarrow> I (s\<lparr>next_table := h\<rparr>)"
    and tables: "I s \<Longrightarrow> I (s\<lparr>catalog_tables := m\<rparr>)" "I s \<Longrightarrow> I (s\<lparr>catalog_table := h\<rparr>)"
    and active: "I s \<Longrightarrow> I (s\<lparr>active_txs := xs\<rparr>)"
    and alloc: "op_keeps pool_kept alloc"
begin

lemma on_pool_kept [kept]: "op_keeps pool_kept m \<Longrightarrow> op_keeps I (on_pool m)"
  by (auto simp: op_keeps_def on_pool_def split: prod.split intro!: pool)

lemma state_kept [kept]: "op_keeps I (modify_op (set_state t st))" "op_keeps I (modify_op (push_undo t u))"
  by (rule op_keeps_modify, erule state undo_log)+

lemma locks_kept [kept]:
  "op_keeps I (unlock_all tx)" "op_keeps I (locked_shared others tx r)" "op_keeps I (locked_exclusive others tx r)" "op_keeps I (log_undo tx u)"
  unfolding locked_shared_def locked_exclusive_def log_undo_def by (intro shared exclusive unlock kept)+

lemma table_kept [kept]:
  "op_keeps I (table_get_tuple others h r tx)" "op_keeps I (table_delete_tuple others h r tx)" "op_keeps I (table_scan_next others sc)"
  "op_keeps I (table_insert_tuple alloc others h t tx)" "op_keeps I (table_update_tuple alloc others h r t tx)"
  unfolding table_get_tuple_def table_delete_tuple_def table_scan_next_def table_insert_tuple_def table_update_tuple_def
  by (intro kept alloc)+

lemma table_pages_kept [kept]:
  "op_keeps I (table_drop_pages h)" "op_keeps I (table_scan_begin h tx)" "op_keeps I (table_scan_end sc)"
proof -
  have "op_keeps pool_kept (drop_all ps n)" for ps n
    by (induction ps arbitrary: n) (auto intro!: kept)
  then show "op_keeps I (table_drop_pages h)" unfolding table_drop_pages_def by (intro kept)
qed (auto simp: table_scan_begin_def table_scan_end_def intro!: kept)

lemma new_table_object_kept [kept]: "op_keeps I (new_table_object x)"
proof (rule op_keepsI)
  fix s
  assume "I s"
  from objects(2)[OF objects(1)[OF this]] show "I (snd (new_table_object x s))" by (simp add: new_table_object_def)
qed

lemma catalog_step_kept [kept]:
  "op_keeps I (modify_op (erase_table name e))" "op_keeps I (add_table name r tb)" "op_keeps I (modify_op (\<lambda>s. s\<lparr>catalog_table := h\<rparr>))"
proof -
  show "op_keeps I (modify_op (erase_table name e))"
    by (rule op_keeps_modify) (simp add: erase_table_def tables objects)
  show "op_keeps I (add_table name r tb)"
    unfolding add_table_def by (intro kept) (auto split: option.split intro: objects tables)
qed (intro kept tables)

lemma catalog_kept [kept]:
  "op_keeps I (catalog_delete_table name)" "op_keeps I (catalog_get_table name)" "op_keeps I catalog_all_tables"
  "op_keeps I (catalog_drop_table others name)" "op_keeps I (catalog_create_table alloc others name sch tx)"
  unfolding catalog_drop_table_def catalog_delete_table_def catalog_get_table_def catalog_all_tables_def catalog_create_table_def
  by (intro kept)+

lemma undo_kept [kept]: "op_keeps I (tx_undo t)"
proof -
  have u: "op_keeps I (undo_one u)" for u
    by (cases u) (auto intro!: kept)
  have "op_keeps I (undo_all us)" for us
    by (induction us) (auto intro!: kept u simp del: undo_one.simps)
  then show ?thesis unfolding tx_undo_def by (intro kept)
qed

lemma tm_kept [kept]: "op_keeps I (tm_commit tx)" "op_keeps I (tm_abort tx)"
  unfolding tm_commit_def tm_abort_def tm_finish_def by (auto intro!: kept active)

lemma next_from_kept [kept]: "op_keeps I (next_from others n q sc)"
proof (induction q arbitrary: sc)
  case (Filter child cond)
  have "op_keeps I (filter_next (next_from others n child) cond k c)" for k c
    by (induction k arbitrary: c) (auto intro!: kept Filter)
  then show ?case by simp
qed (auto intro!: kept)

lemma query_kept [kept]: "op_keeps I (run_query others n h tx q)"
proof -
  have c: "op_keeps I (query_collect others n k q)" for k q
  proof (induction k arbitrary: q)
    case (Suc k)
    then show ?case unfolding query_collect.simps query_next_def operator_next_def by (intro kept)
  qed (simp add: kept)
  have "op_keeps I (operator_init q)" "op_keeps I (operator_end q)" for q
    by (induction q) (auto intro!: kept)
  with c show ?thesis unfolding run_query_def seq_scan_new_def executor_execute_def by (intro kept)
qed

lemma call_kept: "I s \<Longrightarrow> c \<noteq> Call_Begin \<Longrightarrow> I (snd (run_call alloc others c s))"
  by (cases c) (auto intro!: op_keeps_snd[where I = I] kept
    simp: db_commit_tx_def db_rollback_tx_def db_create_table_def db_drop_table_def db_get_table_def db_all_tables_def)

end

text \<open>A thread that is alone also opens the database\<close>

locale alone_invariant = call_invariant I id alloc for I :: "db \<Rightarrow> bool" and alloc :: "(pool, unit) op"
begin

lemma catalog_open_kept [kept]: "op_keeps I catalog_open"
proof -
  have l: "op_keeps I (load_table r t)" for r t
    unfolding load_table_def by (intro kept)
  have "op_keeps I (load_from n sc)" for n sc
  proof (induction n arbitrary: sc)
    case (Suc n)
    then show ?case by (auto intro!: kept l)
  qed (simp add: kept)
  moreover have "op_keeps I catalog_init_table"
    unfolding catalog_init_table_def by (intro kept)
  ultimately show ?thesis unfolding catalog_open_def catalog_load_existing_tables_def by (intro kept)
qed

lemma db_open_kept:
  assumes "\<And>d. dm_open (Some f) = Inr d \<Longrightarrow> I (db_initial d n)" "db_open (Some f) n = Inr s"
  shows "I s"
proof -
  obtain d where d: "dm_open (Some f) = Inr d" "catalog_open (db_initial d n) = (Inr (), s)"
    using assms(2) by (cases "dm_open (Some f)") (auto simp: db_open_def split: prod.splits sum.splits)
  show ?thesis by (rule op_keepsD[OF catalog_open_kept d(2) assms(1)[OF d(1)]])
qed

end

section \<open>The file\<close>

definition db_kept :: "db \<Rightarrow> bool" where
  "db_kept s \<longleftrightarrow> pool_kept (ts_pool s)"

abbreviation env_kept :: "(db \<Rightarrow> db) \<Rightarrow> bool" where
  \<comment> \<open>the other threads keep it too\<close>
  "env_kept others \<equiv> \<forall>s. db_kept s \<longrightarrow> db_kept (others s)"

lemma same_data_kept: "same_data s s' \<Longrightarrow> db_kept s' = db_kept s"
  by (simp add: db_kept_def same_dataD)

lemma db_kept_locks [simp]:
  "db_kept (put_queue r q s) = db_kept s" "db_kept (update_tx t f s) = db_kept s" "db_kept (lm_grant r request s) = db_kept s"
  "db_kept (lm_drop_shared t r s) = db_kept s" "db_kept (set_state t st s) = db_kept s" "db_kept (push_undo t u s) = db_kept s"
  "db_kept (lm_timeout r request s) = db_kept s" "db_kept (remove_and_notify r t s) = db_kept s"
  "db_kept (fold (\<lambda>r. remove_and_notify r t) rs s) = db_kept s" "db_kept (snd (lm_enqueue t r m s)) = db_kept s"
  by (rule same_data_kept, simp add: same_data_def same_data_more lm_timeout_def push_undo_def)+

lemma file_request: "env_kept others \<Longrightarrow> op_keeps db_kept (lm_request others t r m)"
proof (rule op_keepsI)
  fix s
  assume a: "env_kept others" "db_kept s"
  obtain q u where e: "lm_enqueue t r m s = (q, u)" by (cases "lm_enqueue t r m s")
  then have "db_kept u" using a(2) db_kept_locks(10)[of t r m s] by simp
  then show "db_kept (snd (lm_request others t r m s))"
    using a(1) by (simp add: lm_request_def e lm_wait_def Let_def)
qed

lemma file_calls:
  assumes "env_kept others" "op_keeps pool_kept alloc"
  shows "call_invariant db_kept others alloc"
proof
  show "op_keeps db_kept (lock_shared others tx r)" "op_keeps db_kept (lock_exclusive others tx r)" for tx r
    unfolding lock_shared_def lock_exclusive_def by (auto intro!: kept file_request[OF assms(1)])
  show "op_keeps db_kept (unlock_all tx)" for tx
    unfolding unlock_all_def by (auto intro!: kept)
qed (use assms(2) in \<open>simp_all add: db_kept_def\<close>, simp_all flip: db_kept_def)

interpretation files: alone_invariant db_kept "ret_op ()"
  by (rule alone_invariant.intro, rule file_calls) (simp_all add: kept)

lemma begin_file: "db_kept s \<Longrightarrow> db_kept (snd (tm_begin s))"
  by (simp add: tm_begin_def Let_def db_kept_def)

lemma begin_op_kept: "op_keeps db_kept tm_begin"
  by (rule op_keepsI) (rule begin_file)

lemma run_calls_kept:
  assumes "env_kept others" "op_keeps pool_kept alloc"
  shows "db_kept s \<Longrightarrow> db_kept (snd (run_calls alloc others cs s))"
proof (induction cs arbitrary: s)
  case (Cons c cs)
  have "db_kept (snd (run_call alloc others c s))"
    using call_invariant.call_kept[OF file_calls[OF assms] Cons.prems] op_keeps_snd[OF run_only_kept[OF begin_op_kept] Cons.prems]
    by (cases "c = Call_Begin") (simp_all add: db_begin_tx_def)
  then show ?case using Cons.IH run_calls_step[of alloc others c cs s] by metis
qed (simp add: ret_op_def)

lemma page_ids_length: "length (page_ids_of_bytes n bs) = n"
  by (induction n bs rule: page_ids_of_bytes.induct) simp_all

lemma dm_open_kept:
  assumes "file_ok f" "dm_open (Some f) = Inr d"
  shows "file_kept d"
proof -
  let ?m = "if whole_pages (get_size f) < 1 then bind_op dm_allocate_page (\<lambda>_. dm_flush_all)
    else bind_op (modify_op (\<lambda>s. s\<lparr>disk_capacity := 1\<rparr>)) (\<lambda>_. dm_init_header)"
  have "bind_op ?m (\<lambda>_. dm_check_header) (dm_initial f) = (Inr (), d)"
    using assms(2) by (auto simp: dm_open_def split: prod.splits sum.splits)
  then obtain d1 where m: "?m (dm_initial f) = (Inr (), d1)" and c: "dm_check_header d1 = (Inr (), d)"
    by (auto simp: bind_op_eq_Inr)
  have d: "d = d1" "hdr_magic (disk_hdr d1) = kDB_MAGIC" "hdr_version (disk_hdr d1) = kDB_FORMAT_VERSION"
    using c by (auto simp: dm_check_header_def split: if_splits)
  have "disk_ok d1 \<and> length (free_list d1) \<le> 2040"
  proof (cases "whole_pages (get_size f) < 1")
    case True
    have "file_kept (dm_initial f)" using assms(1) by (simp add: file_kept_def disk_ok_def dm_initial_def)
    moreover have "op_keeps file_kept (bind_op dm_allocate_page (\<lambda>_. dm_flush_all))" by (intro kept)
    ultimately have "file_kept d1" using m True by (auto intro: op_keepsD)
    then show ?thesis by (simp add: file_kept_def)
  next
    case False
    then have i: "dm_init_header ((dm_initial f)\<lparr>disk_capacity := 1\<rparr>) = (Inr (), d1)"
      using m by (simp add: bind_op_def modify_op_def)
    have "disk_ok ((dm_initial f)\<lparr>disk_capacity := 1\<rparr>)" using assms(1) by (simp add: disk_ok_def dm_initial_def)
    note rd = read_page_eq[OF this, of kDISK_METADATA_PAGE_ID "replicate kPAGE_SIZE 0"]
    show ?thesis using i assms(1) rd
      by (auto simp: dm_init_header_def bind_op_eq_Inr op_simps Let_def subspan_def dm_initial_def disk_ok_def page_ids_length
          kDISK_METADATA_PAGE_ID_def kPAGE_SIZE_def sizeof_DiskHeader_def sizeof_PageID_def split: if_splits)
  qed
  with d show ?thesis by (simp add: file_kept_def)
qed

lemma open_file_kept:
  assumes "file_ok f" "db_open (Some f) n = Inr s" "n < 2 ^ 32"
  shows "db_kept s"
  by (rule files.db_open_kept[OF _ assms(2)])
    (use dm_open_kept[OF assms(1)] assms(3) in
      \<open>simp add: db_kept_def pool_kept_def frames_sized_def db_initial_def bpm_initial_def page_default_def\<close>)

lemma closed_opens:
  assumes "file_kept d"
  shows "\<exists>d'. dm_open (Some (dm_close d)) = Inr d' \<and>
    (kPAGE_SIZE \<le> length (contents (dm_close d)) \<longrightarrow> disk_capacity d' = disk_capacity d \<and> free_list d' = free_list d)"
proof (cases "kPAGE_SIZE \<le> length (contents (dm_close d))")
  case True
  then show ?thesis using reopen_file[of d] assms by (auto simp: file_kept_def)
next
  case False
  have "file_kept (snd (dm_flush_all d))" using file_kept_disk(5) assms by (simp add: op_keeps_def)
  then have "file_ok (dm_close d)" by (simp add: dm_close_def file_kept_def disk_ok_def)
  then show ?thesis using dm_open_short_file_overwrites[of "dm_close d"] False by auto
qed

text \<open>When the destructor of the pool returns\<close>

definition dirty_allocated :: "pool \<Rightarrow> bool" where
  \<comment> \<open>the changed pages in the frames are pages of the file\<close>
  "dirty_allocated s \<longleftrightarrow> (\<forall>i<pool_size s. p_is_dirty (frames s ! i) \<longrightarrow> p_page_id (frames s ! i) < disk_capacity (pool_disk s))"

lemma write_all_result:
  "disk_ok d \<Longrightarrow> \<forall>x\<in>set xs. length (snd x) = kPAGE_SIZE \<Longrightarrow>
    if \<forall>x\<in>set xs. fst x < disk_capacity d then fst (dev_write_all dm_write_page xs d) = Inr ()
    else \<exists>m. fst (dev_write_all dm_write_page xs d) = Inl (Runtime_Error m)"
proof (induction xs arbitrary: d)
  case (Cons x xs)
  show ?case
  proof (cases "fst x < disk_capacity d")
    case True
    then obtain e where e: "dm_write_page (fst x) (snd x) d = (Inr (), e)" "disk_capacity e = disk_capacity d" "disk_ok e"
      using write_page_eq[OF Cons.prems(1), of "fst x" "snd x"] Cons.prems(2) by (metis list.set_intros(1))
    have "\<forall>x\<in>set xs. length (snd x) = kPAGE_SIZE" using Cons.prems(2) by simp
    from Cons.IH[OF e(3) this] show ?thesis using e(1,2) True by (auto simp: bind_op_def split: if_splits)
  next
    case False
    then obtain m where "dm_write_page (fst x) (snd x) d = (Inl (Runtime_Error m), d)"
      using write_page_unallocated[of d "fst x" "snd x"] by (auto simp: not_less)
    then show ?thesis using False by (simp add: bind_op_def)
  qed
qed (simp add: ret_op_def)

lemma close_result:
  assumes "pool_kept s"
  shows "fst (bpm_close s) = (if dirty_allocated s then Inr () else Inl Terminated)"
proof -
  let ?xs = "dirty_frames (frames s) 0 (pool_size s)"
  have k: "pool_size s \<le> length (frames s)" "length (frames s) < 2 ^ 32" "disk_ok (pool_disk s)" "\<forall>pg\<in>set (frames s). length (p_data pg) = kPAGE_SIZE"
    using assms by (simp_all add: pool_kept_def frames_sized_def file_kept_def)
  have run: "fst (bpm_flush_all s) = fst (dev_write_all dm_write_page ?xs (pool_disk s))"
    using flush_from_eq[of 0 "pool_size s" s] k(1,2) by (simp add: bpm_flush_all_def bind_op_def get_op_def on_disk_def split: prod.split)
  have "\<forall>x\<in>set ?xs. length (snd x) = kPAGE_SIZE" using k(1,4) by (auto simp: dirty_frames_def)
  note w = write_all_result[OF k(3) this]
  have "(\<forall>x\<in>set ?xs. fst x < disk_capacity (pool_disk s)) \<longleftrightarrow> dirty_allocated s"
    by (auto simp: dirty_frames_def dirty_allocated_def)
  then show ?thesis using w run
    by (cases "bpm_flush_all s") (auto simp: bpm_close_def noexcept_op_def split: if_splits)
qed

lemma bpm_close_kept: "op_keeps pool_kept bpm_close"
  unfolding bpm_close_def by (rule noexcept_kept, rule bpm_flush_all_kept)

lemma zero_page_bad: "length d = kPAGE_SIZE \<Longrightarrow> set d \<subseteq> {0} \<Longrightarrow> \<not> page_ok d"
proof
  assume a: "length d = kPAGE_SIZE" "set d \<subseteq> {0}" "page_ok d"
  have "d = replicate kPAGE_SIZE 0" using a(1,2) by (metis replicate_length_same subset_singletonD set_empty replicate_eqI singletonD subsetD)
  then have "seg d 6 2 = [0, 0]" by (simp add: seg_def kPAGE_SIZE_def numeral_2_eq_2)
  then have "pg_fso d = 0" by (simp add: pg_fso_def w16_def)
  then show False using a(3) by (simp add: page_ok_def header_ok_def slot_pos_eq)
qed

lemma closed_file_long:
  assumes "heap_inv s p ps"
  shows "kPAGE_SIZE \<le> length (contents (disk_file (pool_disk (snd (bpm_flush_all s)))))"
proof (rule ccontr)
  note hi = heap_invD[OF assms]
  obtain q where q: "q \<in> set ps" using hi(3) by (cases ps) auto
  have ok: "page_ok (pool_page s q)" using heap_chain_page_ok[OF hi(2) q] .
  have q0: "q \<noteq> 0" using q hi(5) used_page by blast
  obtain d where d: "bpm_flush_all s = (Inr (), s\<lparr>pool_disk := d\<rparr>)"
    "\<And>q. disk_page d q = (case page_table s q of
        Some f \<Rightarrow> if p_is_dirty (frames s ! unat f) then p_data (frames s ! unat f) else disk_page (pool_disk s) q
      | None \<Rightarrow> disk_page (pool_disk s) q)"
    by (rule pool_flush_all_spec[OF pool_stD(3)[OF hi(1)]], rule that)
  have "page_view (disk_page d q) = page_view (pool_page s q)"
    using pool_stD(2)[OF hi(1)] d(2)[of q] by (auto simp: pool_page_def pool_clean_def split: option.split)
  then have dok: "page_ok (disk_page d q)" using ok page_viewD(1) by blast
  assume "\<not> kPAGE_SIZE \<le> length (contents (disk_file (pool_disk (snd (bpm_flush_all s)))))"
  then have "length (contents (disk_file d)) < kPAGE_SIZE" using d(1) by simp
  moreover have "kPAGE_SIZE \<le> unat q * kPAGE_SIZE" using q0 by (simp add: unat_gt_0 Suc_leI)
  ultimately have "drop (unat q * kPAGE_SIZE) (contents (disk_file d)) = []" by (intro drop_all) linarith
  then have "set (disk_page d q) \<subseteq> {0}" by (auto simp: disk_page_def page_of_def Let_def)
  then show False using zero_page_bad[OF length_disk_page] dok by blast
qed

section \<open>The locks\<close>

definition tx_kept :: "nat \<Rightarrow> db \<Rightarrow> bool" where
  \<comment> \<open>locks and queues agree, nobody waits, and the transactions are the first \<open>n\<close>\<close>
  "tx_kept n s \<longleftrightarrow> lk_inv s \<and> (\<forall>t. \<not> waiting s t) \<and> next_tx_id s = of_nat n \<and> (\<forall>i. transactions s i \<noteq> None \<longrightarrow> unat i < n)"

lemma tx_kept_fields:
  assumes "tx_kept n s" "lock_state.truncate s' = lock_state.truncate s" "next_tx_id s' = next_tx_id s"
  shows "tx_kept n s'"
proof -
  have "queue_of s' = queue_of s" "transactions s' = transactions s" "next_request s' = next_request s"
    using assms(2) by (auto simp: lock_state.defs queue_of_def fun_eq_iff)
  then have "lk_inv s' = lk_inv s" "waiting s' = waiting s" "transactions s' = transactions s"
    by (simp_all only: lk_inv_def waiting_def fun_eq_iff simp_thms)
  then show ?thesis using assms(1,3) by (simp add: tx_kept_def)
qed

lemma same_data_next: "same_data s s' \<Longrightarrow> next_tx_id s' = next_tx_id s"
  using same_dataD(4)[of s s'] by (cases s; cases s'; simp add: table_state.defs)

lemma tx_keptI:
  assumes "tx_kept n s" "lk_inv s'" "\<And>r q. q \<in> set (queue_of s' r) \<Longrightarrow> req_granted q" "same_data s s'"
    "\<And>i. transactions s' i \<noteq> None \<Longrightarrow> transactions s i \<noteq> None"
  shows "tx_kept n s'"
  using assms same_data_next[OF assms(4)] by (fastforce simp: tx_kept_def waiting_def)

text \<open>A request of a thread that is alone is the only one that waits; it is granted or times out at once\<close>

lemma settled:
  assumes "\<forall>r'. \<forall>x\<in>set (queue_of u r'). req_granted x \<or> x = q \<and> r' = r"
  shows "x \<in> set (queue_of (lm_grant r q u) r') \<Longrightarrow> req_granted x" "x \<in> set (queue_of (lm_timeout r q u) r') \<Longrightarrow> req_granted x"
proof -
  assume x: "x \<in> set (queue_of (lm_grant r q u) r')"
  have "queue_of (lm_grant r q u) r' =
      (if r' = r then map (\<lambda>x. if req_node x = req_node q then x\<lparr>req_granted := True\<rparr> else x) (queue_of u r) else queue_of u r')"
    by (simp add: lm_grant_def)
  then obtain y where "y \<in> set (queue_of u r')" "x = (if r' = r \<and> req_node y = req_node q then y\<lparr>req_granted := True\<rparr> else y)"
    using x by (auto split: if_splits)
  then show "req_granted x" using assms by force
next
  assume "x \<in> set (queue_of (lm_timeout r q u) r')"
  then have "x \<in> set (queue_of u r')" "r' = r \<longrightarrow> x \<noteq> q" by (auto simp: lm_timeout_def set_state_def split: if_splits)
  then show "req_granted x" using assms by blast
qed

lemma request_alone:
  assumes "lk_inv s" "transactions s t = Some x" "\<forall>q\<in>set (queue_of s r). req_tx q \<noteq> t" "\<forall>r. \<forall>q\<in>set (queue_of s r). req_granted q"
  obtains b s' where "lm_request id t r m s = (Inr b, s')" "lk_inv s'" "same_data s s'" "\<And>r q. q \<in> set (queue_of s' r) \<Longrightarrow> req_granted q"
    "\<And>i. transactions s' i \<noteq> None \<Longrightarrow> transactions s i \<noteq> None"
proof -
  let ?u = "snd (lm_enqueue t r m s)" and ?q = "fst (lm_enqueue t r m s)"
  have inv: "lk_inv ?u" by (rule enqueue_inv[OF assms(1,2)]) (use assms(3) in blast)
  have q: "?q \<in> set (queue_of ?u r)" "\<not> req_granted ?q" by simp_all
  have run: "lm_request id t r m s = (if can_grant (queue_of ?u r) ?q then (Inr True, lm_grant r ?q ?u) else (Inr False, lm_timeout r ?q ?u))"
    using imageI[OF q(1), of req_node] by (simp add: lm_request_def lm_wait_def Let_def case_prod_beta del: enqueue_sel)
  have old: "\<forall>r'. \<forall>x\<in>set (queue_of ?u r'). req_granted x \<or> x = ?q \<and> r' = r" using assms(4) by simp
  have same: "same_data s (lm_grant r ?q ?u)" "same_data s (lm_timeout r ?q ?u)"
    by (simp_all add: same_data_def same_data_more lm_timeout_def del: enqueue_sel)
  show ?thesis
  proof (cases "can_grant (queue_of ?u r) ?q")
    case True
    show ?thesis
      by (rule that[of True "lm_grant r ?q ?u"])
        (simp add: run True del: enqueue_sel, rule grant_inv[OF inv q(1) True], rule same(1), erule settled(1)[OF old],
          auto simp: lm_grant_def split: if_splits)
  next
    case False
    show ?thesis
      by (rule that[of False "lm_timeout r ?q ?u"])
        (simp add: run False del: enqueue_sel, rule timeout_inv[OF inv q], rule same(2), erule settled(2)[OF old],
          auto simp: lm_timeout_def set_state_def split: if_splits)
  qed
qed

lemma tx_keptD:
  assumes "tx_kept n s"
  shows "lk_inv s" "q \<in> set (queue_of s r) \<Longrightarrow> req_granted q" "\<not> waiting s t" "next_tx_id s = of_nat n" "transactions s i = Some x \<Longrightarrow> unat i < n"
  using assms by (auto simp: tx_kept_def waiting_def)

lemma drop_shared_kept:
  assumes "tx_kept n s" "transactions s t = Some x" "r \<in> set (shared_locks x)"
  shows "tx_kept n (lm_drop_shared t r s)"
proof (rule tx_keptI[OF assms(1) drop_shared_inv(1)[OF tx_keptD(1)[OF assms(1)] assms(2,3)]])
  show "req_granted q" if "q \<in> set (queue_of (lm_drop_shared t r s) r')" for r' q
    using that tx_keptD(2)[OF assms(1)] by (auto simp: lm_drop_shared_def split: if_splits)
qed (auto simp: lm_drop_shared_def same_data_def same_data_more split: if_splits)

lemma request_kept:
  assumes "tx_kept n s" "transactions s t = Some x" "\<And>q. q \<in> set (queue_of s r) \<Longrightarrow> req_tx q \<noteq> t"
  shows "tx_kept n (snd (lm_request id t r m s))"
proof -
  have g: "\<forall>q\<in>set (queue_of s r). req_tx q \<noteq> t" "\<forall>r. \<forall>q\<in>set (queue_of s r). req_granted q"
    using assms(3) tx_keptD(2)[OF assms(1)] by blast+
  show ?thesis
    by (rule request_alone[OF tx_keptD(1)[OF assms(1)] assms(2) g, of m]) (use tx_keptI[OF assms(1)] in auto)
qed

lemma lock_calls_kept:
  "op_keeps (tx_kept n) (lock_shared id tx r)" "op_keeps (tx_kept n) (lock_exclusive id tx r)" "op_keeps (tx_kept n) (unlock_all tx)"
proof -
  have none: "req_tx q \<noteq> t"
    if "tx_kept n s" "transactions s t = Some x" "r \<notin> set (shared_locks x)" "r \<notin> set (exclusive_locks x)" "q \<in> set (queue_of s r)" for s t x q
  proof -
    have "r \<notin> locks_of m x" for m using that(3,4) by (cases m) simp_all
    then show ?thesis by (rule no_request[OF tx_keptD(1,3)[OF that(1)] that(2) _ that(5)])
  qed
  show "op_keeps (tx_kept n) (lock_shared id tx r)"
  proof (rule op_keepsI)
    fix s
    assume s: "tx_kept n s"
    show "tx_kept n (snd (lock_shared id tx r s))"
      using s request_kept[OF s _ none[OF s]]
      by (cases tx; cases "transactions s (the tx)") (auto simp: lock_shared_def bind_op_def tx_op_def ret_op_def)
  qed
  show "op_keeps (tx_kept n) (lock_exclusive id tx r)"
  proof (rule op_keepsI)
    fix s
    assume s: "tx_kept n s"
    show "tx_kept n (snd (lock_exclusive id tx r s))"
    proof (cases "\<exists>t x. tx = Some t \<and> transactions s t = Some x \<and> tx_state x = GROWING \<and> r \<notin> set (exclusive_locks x)")
      case True
      then obtain t x where x: "tx = Some t" "transactions s t = Some x" "tx_state x = GROWING" "r \<notin> set (exclusive_locks x)" by blast
      show ?thesis
      proof (cases "r \<in> set (shared_locks x)")
        case True
        have "tx_kept n (snd (lm_request id t r EXCLUSIVE (lm_drop_shared t r s)))"
          by (rule request_kept[OF drop_shared_kept[OF s x(2) True]])
            (use drop_shared_inv(2,3)[OF tx_keptD(1)[OF s] x(2) True] in auto)
        then show ?thesis using x True by (simp add: lock_exclusive_def bind_op_def tx_op_def modify_op_def)
      next
        case False
        then show ?thesis using x request_kept[OF s x(2) none[OF s x(2) False x(4)]]
          by (simp add: lock_exclusive_def bind_op_def tx_op_def ret_op_def)
      qed
    qed (use s in \<open>auto simp: lock_exclusive_def bind_op_def tx_op_def ret_op_def split: option.splits\<close>)
  qed
  show "op_keeps (tx_kept n) (unlock_all tx)"
  proof (rule op_keepsI)
    fix s
    assume s: "tx_kept n s"
    show "tx_kept n (snd (unlock_all tx s))"
    proof (cases "\<exists>t x. tx = Some t \<and> transactions s t = Some x")
      case True
      then obtain t x where x: "tx = Some t" "transactions s t = Some x" by blast
      obtain s' where u: "unlock_all (Some t) s = (Inr (), s')"
        "transactions s' = (transactions s)(t \<mapsto> x\<lparr>exclusive_locks := [], shared_locks := []\<rparr>)"
        "\<forall>r. queue_of s' r = (if r \<in> set (exclusive_locks x) \<or> r \<in> set (shared_locks x)
           then filter (\<lambda>q. req_tx q \<noteq> t) (queue_of s r) else queue_of s r)"
        using unlock_all_run[OF x(2)] by blast
      have "lk_inv s'" using unlock_all_inv[OF tx_keptD(1)[OF s], of t] u(1) by simp
      moreover have "same_data s (snd (unlock_all (Some t) s))" using x(2)
        by (auto simp: unlock_all_def bind_op_def tx_op_def modify_op_def same_data_def same_data_more)
      then have "same_data s s'" using u(1) by simp
      ultimately have "tx_kept n s'"
        using u(2,3) tx_keptD(2)[OF s] x(2) by (intro tx_keptI[OF s]) (auto split: if_splits)
      then show ?thesis using u(1) x(1) by simp
    qed (use s in \<open>auto simp: unlock_all_def bind_op_def tx_op_def ret_op_def split: option.splits\<close>)
  qed
qed

lemma lock_invariant: "call_invariant (tx_kept n) id (ret_op ())"
proof
  show "tx_kept n (push_undo t u s)" if "tx_kept n s" for t u s
    by (rule tx_keptI[OF that push_undo_inv[OF tx_keptD(1)[OF that]]])
      (use tx_keptD(2)[OF that] in \<open>auto simp: push_undo_def same_data_def same_data_more split: if_splits\<close>)
  show "tx_kept n (set_state t st s)" if "tx_kept n s" for t st s
    by (rule tx_keptI[OF that set_state_inv[OF tx_keptD(1)[OF that]]])
      (use tx_keptD(2)[OF that] in \<open>auto simp: same_data_def same_data_more split: if_splits\<close>)
qed (auto intro: lock_calls_kept kept tx_kept_fields simp: lock_state.defs)

interpretation locks: alone_invariant "tx_kept n" "ret_op ()" for n
  by (rule alone_invariant.intro[OF lock_invariant])

lemma open_tx_kept: "db_open (Some f) m = Inr s \<Longrightarrow> tx_kept 0 s"
  by (rule locks.db_open_kept) (simp_all add: tx_kept_def db_initial_def lk_inv_def waiting_def queue_of_def)

lemma no_tx_no_locks: "tx_kept 0 s \<Longrightarrow> queue_of s r = []"
  using lk_invD(4)[OF tx_keptD(1)] tx_keptD(5) by (metis ex_in_conv less_nat_zero_code set_empty)

lemma begin_kept: "tx_kept n s \<Longrightarrow> n < 2 ^ 64 \<Longrightarrow> tx_kept (Suc n) (snd (tm_begin s))"
proof -
  assume s: "tx_kept n s" and n: "n < 2 ^ 64"
  note d = tx_keptD[OF s]
  have i: "unat (next_tx_id s) = n" using d(4) n by (simp add: unat_of_nat take_bit_nat_eq_self)
  then have new: "transactions s (next_tx_id s) = None" using d(5) by (cases "transactions s (next_tx_id s)") force+
  have "lk_inv (snd (tm_begin s))"
    using begin_inv[OF d(1) new] by (simp add: tm_begin_def Let_def lk_inv_def queue_of_def)
  moreover have "next_tx_id (snd (tm_begin s)) = of_nat (Suc n)" using d(4) by (simp add: tm_begin_def Let_def)
  ultimately show ?thesis using d(2,3) i d(5)
    by (auto simp: tx_kept_def tm_begin_def Let_def waiting_def queue_of_def less_Suc_eq split: if_splits)
qed

definition begins :: "db_call list \<Rightarrow> nat" where
  "begins cs = length (filter (\<lambda>c. c = Call_Begin) cs)"

lemma run_calls_locks:
  "tx_kept n s \<Longrightarrow> n + begins cs \<le> 2 ^ 64 \<Longrightarrow> \<exists>m. tx_kept m (snd (run_calls (ret_op ()) id cs s))"
proof (induction cs arbitrary: n s)
  case (Cons c cs)
  have "\<exists>k. tx_kept k (snd (run_call (ret_op ()) id c s)) \<and> k + begins cs \<le> 2 ^ 64"
  proof (cases "c = Call_Begin")
    case True
    then have n: "n < 2 ^ 64" "Suc n + begins cs \<le> 2 ^ 64" using Cons.prems(2) by (simp_all add: begins_def)
    have "snd (run_only tm_begin s) = snd (tm_begin s)" by (simp add: run_only_def bind_op_def tm_begin_def Let_def ret_op_def)
    then have "tx_kept (Suc n) (snd (run_call (ret_op ()) id c s))" using begin_kept[OF Cons.prems(1) n(1)] True by (simp add: db_begin_tx_def)
    then show ?thesis using n(2) by blast
  next
    case False
    then show ?thesis using locks.call_kept[OF Cons.prems(1) False] Cons.prems(2) by (auto simp: begins_def id_def)
  qed
  then obtain k where k: "tx_kept k (snd (run_call (ret_op ()) id c s))" "k + begins cs \<le> 2 ^ 64" by blast
  show ?case using Cons.IH[OF k] k(1) run_calls_step[of "ret_op ()" id c cs s] by metis
qed (auto simp: ret_op_def)

end
