(* ===== verification/Database_Spec.thy ===== *)
theory Database_Spec
  imports Catalog_Spec Database_Laws Duck_Main Calls
begin

text \<open>
  The database as a whole: what the constructor reads back is what the destructor left, and dropping a table removes it
  from the catalog and gives its pages back.
\<close>

text \<open>Opening, once the pool and the pages of the catalog are there\<close>

lemma catalog_open_run:
  assumes init: "catalog_init_table (db_initial d n) = (Inr ct, (db_initial d n)\<lparr>ts_pool := p\<rparr>)" and ct: "tb_schema ct = catalog_schema"
    and heap: "heap_inv p (tb_first_page ct) ps" "catalog_rows T (heap_map (pool_page p) ps)" "pool_room 2 p"
  obtains s' where "catalog_open (db_initial d n) = (Inr (), s')" "tables_of s' = T" "cat_inv s'" "rows_at s' ps = heap_map (pool_page p) ps"
    "table_at s' (catalog_table s') ct ps" "heap_frame {} p (ts_pool s')" "pool_used (ts_pool s') = pool_used p"
proof -
  let ?s0 = "(db_initial d n)\<lparr>ts_pool := p, table_objects := [0 \<mapsto> ct], next_table := 1\<rparr>"
  have cat: "cat_inv ?s0" "table_at ?s0 (catalog_table ?s0) ct ps" "catalog_tables ?s0 = Map.empty"
    "catalog_rows T (rows_at ?s0 ps)" "pool_room 2 (ts_pool ?s0)"
    using heap ct by (simp_all add: cat_inv_def db_initial_def table_at_def rows_at_def catalog_schema_def)
  have rows: "rows_at ?s0 ps = heap_map (pool_page p) ps" by (simp add: rows_at_def)
  have new: "new_table_object ct ((db_initial d n)\<lparr>ts_pool := p\<rparr>) = (Inr 0, ?s0)"
    by (simp add: new_table_object_def db_initial_def bind_op_def get_op_def modify_op_def ret_op_def)
  have mod: "modify_op (\<lambda>s. s\<lparr>catalog_table := 0\<rparr>) ?s0 = (Inr (), ?s0)" by (simp add: modify_op_def db_initial_def)
  obtain s' where l: "catalog_load_existing_tables ?s0 = (Inr (), s')" "tables_of s' = T" "cat_inv s'" "rows_at s' ps = rows_at ?s0 ps"
    "table_at s' (catalog_table s') ct ps" "heap_frame {} (ts_pool ?s0) (ts_pool s')" "pool_used (ts_pool s') = pool_used (ts_pool ?s0)"
    by (rule catalog_load_run[OF cat(1,2) ct cat(3-5)])
  show ?thesis
    by (rule that[of s']) (use init new mod l rows in \<open>simp_all add: catalog_open_def bind_op_def\<close>)
qed

lemma dm_open_new:
  assumes "file_ok f" "length (contents f) < kPAGE_SIZE"
  shows "\<exists>d. dm_open (Some f) = Inr d \<and> disk_capacity d = 1 \<and> free_list d = [] \<and> disk_ok d"
proof -
  let ?s = "(dm_initial f)\<lparr>disk_capacity := 1\<rparr>"
  have s: "disk_ok ?s" "length (free_list ?s) \<le> 2040" using assms(1) by (simp_all add: disk_ok_def dm_initial_def)
  obtain c where c: "dm_flush_all ?s = (Inr (), ?s\<lparr>disk_hdr := flushed_header ?s, disk_file := (disk_file ?s)\<lparr>contents := c\<rparr>\<rparr>)"
    by (rule flush_all_eq[OF s])
  have al: "dm_allocate_page (dm_initial f) = (Inr 0, ?s)" by (simp add: dm_allocate_page_def dm_initial_def)
  have "whole_pages (get_size f) < 1" using assms(2) by (simp only: whole_pages_less[OF assms(1)])
  then show ?thesis
    using al c assms(1)
    by (simp add: dm_open_def bind_op_def dm_check_header_def flushed_header_def disk_ok_def file_ok_def dm_initial_def)
qed

lemma open_new_file:
  assumes "file_ok f" "length (contents f) < kPAGE_SIZE" "2 \<le> n" "n < 2 ^ 32"
  obtains s' ct where "db_open (Some f) n = Inr s'" "catalog_at s' ct [1]" "tables_of s' = Map.empty" "rows_at s' [1] = Map.empty"
    "pool_used (ts_pool s') = {1}" "pool_room 2 (ts_pool s')"
proof -
  obtain d where d: "dm_open (Some f) = Inr d" "disk_capacity d = 1" "free_list d = []" "disk_ok d"
    using dm_open_new[OF assms(1,2)] by blast
  have dinv: "disk_inv d" and used0: "disk_in_use d = {}" using d(2,3) by (auto simp: disk_inv_def disk_in_use_def word_less_nat_alt)
  note i = initial_pool[OF d(4) dinv assms(4)]
  have st0: "pool_st page_view {} (bpm_initial d n)" using i(1) i(4) by (simp add: pool_st_def)
  have pd: "pool_disk (bpm_initial d n) = d" by (simp add: bpm_initial_def)
  have al: "disk_alloc (pool_disk (bpm_initial d n))" using d(2) by (simp add: pd disk_alloc_def INVALID_PAGE_ID_def)
  have room: "pool_room 2 (bpm_initial d n)" using initial_room[OF assms(3), of d] by simp
  then have room': "pool_room (Suc 1) (bpm_initial d n)" by (simp add: numeral_2_eq_2)
  obtain q p where c: "heap_create (bpm_initial d n) = (Inr q, p)" "heap_inv p q [q]" "heap_map (pool_page p) [q] = Map.empty"
    "heap_frame {q} (bpm_initial d n) p" "pool_used p = insert q (pool_used (bpm_initial d n))"
    "fst (dm_allocate_page (pool_disk (bpm_initial d n))) = Inr q"
    by (rule heap_create_spec[OF st0 al room'], rule that)
  have q: "q = 1" using c(6) d(2,3) by (simp add: pd dm_allocate_page_def)
  let ?ct = "\<lparr>tb_name = ''duck_catalog_'', tb_first_page = kCATALOG_FIRST_PAGE_ID, tb_schema = catalog_schema\<rparr>"
  have init: "catalog_init_table (db_initial d n) = (Inr ?ct, (db_initial d n)\<lparr>ts_pool := p\<rparr>)"
    using c(1) d(2) q
    by (simp add: catalog_init_table_def bind_op_def get_op_def ret_op_def db_initial_def pd on_pool_def kCATALOG_FIRST_PAGE_ID_def)
  have h: "heap_inv p (tb_first_page ?ct) [1]" "catalog_rows Map.empty (heap_map (pool_page p) [1])" "pool_room 2 p" "tb_schema ?ct = catalog_schema"
    using c(2-4) q room by (simp_all add: kCATALOG_FIRST_PAGE_ID_def catalog_rows_def heap_frame_def)
  obtain s' where s': "catalog_open (db_initial d n) = (Inr (), s')" "tables_of s' = Map.empty" "cat_inv s'"
    "rows_at s' [1] = heap_map (pool_page p) [1]" "table_at s' (catalog_table s') ?ct [1]" "heap_frame {} p (ts_pool s')"
    "pool_used (ts_pool s') = pool_used p"
    by (rule catalog_open_run[OF init h(4,1-3)])
  have "db_open (Some f) n = Inr s'" using d(1) s'(1) by (simp add: db_open_def)
  moreover have "catalog_at s' ?ct [1]" using s'(2-5) c(3) q by (simp add: catalog_at_def catalog_rows_def)
  moreover have "pool_used (ts_pool s') = {1}" using s'(7) c(5) q used0 pd by (simp add: pool_used_def)
  moreover have "pool_room 2 (ts_pool s')" using s'(6) h(3) by (simp add: heap_frame_def)
  moreover have "rows_at s' [1] = Map.empty" using s'(4) c(3) q by simp
  ultimately show ?thesis using s'(2) that by blast
qed

text \<open>
  C23: a new database. Opening a file that has no page yet, with a pool of at least two frames, succeeds: there are no
  tables, and the catalog stands on page 1, empty, ready for the operations on tables.
\<close>

theorem database_fresh:
  assumes "file_ok f" "length (contents f) < kPAGE_SIZE" "2 \<le> n" "n < 2 ^ 32"
  shows "\<exists>s' ct. db_open (Some f) n = Inr s' \<and> catalog_at s' ct [1] \<and> tables_of s' = Map.empty \<and> rows_at s' [1] = Map.empty \<and>
    pool_used (ts_pool s') = {1} \<and> pool_room 2 (ts_pool s')"
  by (rule open_new_file[OF assms]) blast

theorem database_fresh_witness:
  "\<exists>s'. db_open (Some empty_file) 128 = Inr s' \<and> tables_of s' = Map.empty"
  using database_fresh[of empty_file 128] by (auto simp: file_ok_def empty_file_def kPAGE_SIZE_def)

lemma database_restart:
  assumes "catalog_at s ct ps" "db_kept s" "2 \<le> n" "n < 2 ^ 32"
  obtains f s' where "db_close s = (Inr (), f)" "db_open (Some f) n = Inr s'" "catalog_at s' ct ps" "tables_of s' = tables_of s"
    "\<And>p qs. heap_inv (ts_pool s) p qs \<Longrightarrow> heap_inv (ts_pool s') p qs \<and> rows_at s' qs = rows_at s qs" "pool_room 2 (ts_pool s')"
proof -
  note c = catalog_atD[OF assms(1)]
  have hdr: "hdr_magic (disk_hdr (pool_disk (ts_pool s))) = kDB_MAGIC" "hdr_version (disk_hdr (pool_disk (ts_pool s))) = kDB_FORMAT_VERSION"
    using assms(2) by (simp_all add: db_kept_def pool_kept_def file_kept_def)
  have st: "pool_inv (ts_pool s)" "pool_clean page_view {} (ts_pool s)" using heap_invD(1)[OF c(6)] pool_stD by blast+
  obtain p0 d where d: "bpm_flush_all (ts_pool s) = (Inr (), p0)" "dm_open (Some (dm_close (pool_disk p0))) = Inr d"
    "disk_in_use d = disk_in_use (pool_disk (ts_pool s))"
    "\<And>p. p \<noteq> 0 \<Longrightarrow> page_view (disk_page d p) = page_view (pool_page (ts_pool s) p)"
    "disk_ok d" "disk_inv d" "disk_capacity d = disk_capacity (pool_disk (ts_pool s))"
    by (rule shutdown_pages[OF st hdr closed_file_long[OF c(6)]], rule that)
  note i = initial_pool[OF d(5,6) assms(4)]
  have used: "pool_used (bpm_initial d n) = pool_used (ts_pool s)" using d(3) by (simp add: pool_used_def bpm_initial_def)
  have keep: "heap_inv p p' qs \<and> heap_map (pool_page p) qs = heap_map (pool_page (ts_pool s)) qs"
    if p: "pool_st page_view {} p" "pool_used p = pool_used (ts_pool s)"
      "\<And>q. page_view (pool_page p q) = page_view (disk_page d q)" and h: "heap_inv (ts_pool s) p' qs" for p p' qs
  proof -
    note hi = heap_invD[OF h]
    have "page_view (pool_page p q) = page_view (pool_page (ts_pool s) q)" if "q \<in> set qs" for q
      using p(3) d(4)[of q] used_page[of q "ts_pool s"] hi(5) that by auto
    note w = heap_view_cong[of qs "pool_page p" "pool_page (ts_pool s)", OF this]
    show ?thesis using w hi p by (simp add: heap_inv_def)
  qed
  have st0: "pool_st page_view {} (bpm_initial d n)" using i(1) i(4) by (simp add: pool_st_def)
  have k0: "heap_inv (bpm_initial d n) p qs \<and> heap_map (pool_page (bpm_initial d n)) qs = heap_map (pool_page (ts_pool s)) qs"
    if "heap_inv (ts_pool s) p qs" for p qs
    by (rule keep[OF st0 used _ that]) (simp add: initial_page)
  have "\<not> disk_capacity d \<le> kCATALOG_FIRST_PAGE_ID" using used_page[OF heap_first_page[OF c(6)]] d(7) by (simp add: not_le)
  then have init: "catalog_init_table (db_initial d n) = (Inr ct, (db_initial d n)\<lparr>ts_pool := bpm_initial d n\<rparr>)"
    using c(7) by (simp add: catalog_init_table_def bind_op_def get_op_def ret_op_def db_initial_def bpm_initial_def)
  have h: "heap_inv (bpm_initial d n) (tb_first_page ct) ps" "catalog_rows (tables_of s) (heap_map (pool_page (bpm_initial d n)) ps)"
    "pool_room 2 (bpm_initial d n)"
    using k0[OF c(6)] c(4,5) initial_room[OF assms(3), of d] by (simp_all add: rows_at_def)
  obtain s' where l: "catalog_open (db_initial d n) = (Inr (), s')" "tables_of s' = tables_of s" "cat_inv s'"
    "rows_at s' ps = heap_map (pool_page (bpm_initial d n)) ps" "table_at s' (catalog_table s') ct ps"
    "heap_frame {} (bpm_initial d n) (ts_pool s')" "pool_used (ts_pool s') = pool_used (bpm_initial d n)"
    by (rule catalog_open_run[OF init c(3) h])
  have close: "db_close s = (Inr (), dm_close (pool_disk p0))" using d(1) by (simp add: db_close_def bpm_close_def noexcept_op_def)
  have run: "db_open (Some (dm_close (pool_disk p0))) n = Inr s'" using d(2) l(1) by (simp add: db_open_def)
  have st': "pool_st page_view {} (ts_pool s')" using l(5) by (simp add: table_at_def heap_inv_def)
  have u': "pool_used (ts_pool s') = pool_used (ts_pool s)" using l(7) used by simp
  have v': "page_view (pool_page (ts_pool s') q) = page_view (disk_page d q)" for q
    using l(6) by (simp add: heap_frame_def initial_page)
  note k1 = keep[OF st' u' v']
  have "catalog_at s' ct ps" using l(2-5) h(2) c(7) by (simp add: catalog_at_def)
  moreover have "pool_room 2 (ts_pool s')" using l(6) h(3) by (simp add: heap_frame_def)
  ultimately show ?thesis using that close run l(2) k1 unfolding rows_at_def by blast
qed

text \<open>
  C4: restart. When the pages and the memory agree (\<open>catalog_at\<close>) and the header is that of a database file (\<open>db_kept\<close>, which
  every operation keeps), destroying the database (the pool writes its dirty pages back, the disk manager its header and free list) and
  opening the file again, with any pool of at least two frames, succeed: no exception leaves the destructors, the catalog has the same tables, with their
  names, first pages, schemas and identifiers, and every heap has the same pages and the same rows.
\<close>

theorem database_reopen:
  assumes "catalog_at s ct ps" "db_kept s" "2 \<le> n" "n < 2 ^ 32"
  shows "\<exists>f s'. db_close s = (Inr (), f) \<and> db_open (Some f) n = Inr s' \<and> catalog_at s' ct ps \<and> tables_of s' = tables_of s \<and>
    (\<forall>p qs. heap_inv (ts_pool s) p qs \<longrightarrow> heap_inv (ts_pool s') p qs \<and> rows_at s' qs = rows_at s qs)"
  by (rule database_restart[OF assms]) blast

theorem database_reopen_witness:
  "\<exists>s f s' r. db_close s = (Inr (), f) \<and> db_open (Some f) 2 = Inr s' \<and>
     tables_of s' = [''ducks'' \<mapsto> (r, \<lparr>tb_name = ''ducks'', tb_first_page = 2, tb_schema = sample_schema\<rparr>)]"
proof -
  let ?r = "\<lparr>rid_page_id = 1, rid_slot_num = 0\<rparr> :: rid" and ?tb = "\<lparr>tb_name = ''ducks'', tb_first_page = 2, tb_schema = sample_schema\<rparr>"
  obtain raw where raw: "entry_bytes ''ducks'' 2 sample_schema raw" "length raw \<le> MAX_TUPLE_SIZE"
    by (rule catalog_fits_bytes[OF sample_fits, of 2])
  have ne: "raw \<noteq> []" using raw(1) entry_serialize[of "''ducks''"] by (auto simp: entry_bytes_def)
  have "pg_fits fresh_page (length raw)" using raw(2) by (simp add: fresh_page_room MAX_TUPLE_SIZE_def kPAGE_SIZE_def sizeof_PageHeader_def sizeof_Slot_def)
  then obtain p where p: "heap_inv p 1 [1]" "heap_map (pool_page p) [1] ?r = Some raw" "heap_list (pool_page p) [1] = [(?r, raw)]" "file_written p"
    by (rule heap_with_tuple[OF _ ne])
  have R: "heap_map (pool_page p) [1] = [?r \<mapsto> raw]"
    by (rule map_single) (use heap_list_map[of _ _ "pool_page p" "[1]"] p(3) in simp)
  define s where "s = (catalog_db p)\<lparr>table_objects := [0 \<mapsto> \<lparr>tb_name = ''duck_catalog_'', tb_first_page = 1, tb_schema = catalog_schema\<rparr>, 1 \<mapsto> ?tb],
     next_table := 2, catalog_tables := [''ducks'' \<mapsto> \<lparr>te_rid = ?r, te_table = 1\<rparr>]\<rparr>"
  have T: "tables_of s = [''ducks'' \<mapsto> (?r, ?tb)]" by (auto simp: s_def tables_of_def fun_eq_iff)
  have "catalog_at s \<lparr>tb_name = ''duck_catalog_'', tb_first_page = kCATALOG_FIRST_PAGE_ID, tb_schema = catalog_schema\<rparr> [1]"
    using p(1) R raw(1) unfolding catalog_at_def T
    by (simp add: s_def catalog_db_def sample_db_def cat_inv_def table_at_def rows_at_def catalog_rows_def catalog_schema_def kCATALOG_FIRST_PAGE_ID_def)
  moreover have "ts_pool s = p" by (simp add: s_def catalog_db_def sample_db_def)
  moreover have "db_kept s"
    using pool_keptI[OF heap_invD(1)[OF p(1)]] p(4) calculation(2) by (simp add: db_kept_def file_written_def)
  ultimately show ?thesis using database_reopen[of s _ _ 2] T by force
qed

lemma no_entry:
  assumes "tables_of s name = None" "cat_inv s"
  shows "catalog_tables s name = None"
proof (cases "catalog_tables s name")
  case (Some e)
  then have "table_objects s (te_table e) \<noteq> None" using assms(2) unfolding cat_inv_def by blast
  then show ?thesis using assms(1) Some by (auto simp: tables_of_def)
qed simp

text \<open>
  C7: dropping a table. For a table of the catalog none of whose pages is pinned, \<open>drop_table\<close> succeeds: the
  table and its row are gone, its pages are given back (all of them while the free list has room), and the catalog and every
  other heap keep their pages and their rows.
\<close>

theorem catalog_drop:
  assumes "catalog_at s ct ps" "tables_of s name = Some (r, tb)" "heap_inv (ts_pool s) (tb_first_page tb) qs"
    "set ps \<inter> set qs = {}" "\<forall>q\<in>set qs. pool_pins (ts_pool s) q = 0" "pool_room 2 (ts_pool s)"
  shows "\<exists>s'. catalog_drop_table others name s = (Inr True, s') \<and> catalog_at s' ct ps \<and>
    tables_of s' = (tables_of s)(name := None) \<and> fst (catalog_get_table name s') = Inr None \<and>
    rows_at s' ps = (rows_at s ps)(r := None) \<and> pages_dropped (set qs) (ts_pool s) (ts_pool s') \<and>
    (\<forall>p us. heap_inv (ts_pool s) p us \<longrightarrow> set us \<inter> (set ps \<union> set qs) = {} \<longrightarrow>
       heap_inv (ts_pool s') p us \<and> rows_at s' us = rows_at s us)"
proof (rule catalog_drop_run[OF assms, of others])
  fix s'
  assume a: "catalog_drop_table others name s = (Inr True, s')" "catalog_at s' ct ps" "tables_of s' = (tables_of s)(name := None)"
    "rows_at s' ps = (rows_at s ps)(r := None)" "heap_frame (insert (rid_page_id r) (set qs)) (ts_pool s) (ts_pool s')"
    "pages_dropped (set qs) (ts_pool s) (ts_pool s')"
  obtain raw where "rows_at s ps r = Some raw" using catalog_atD(5)[OF assms(1)] assms(2) unfolding catalog_rows_def by blast
  then have rps: "rid_page_id r \<in> set ps" by (auto simp: rows_at_def heap_map_def split: if_splits)
  have other: "heap_inv (ts_pool s') p us \<and> rows_at s' us = rows_at s us" if u: "heap_inv (ts_pool s) p us" "set us \<inter> (set ps \<union> set qs) = {}" for p us
  proof -
    have v: "page_view (pool_page (ts_pool s') x) = page_view (pool_page (ts_pool s) x)" if "x \<in> set us" for x
    proof -
      have "x \<notin> insert (rid_page_id r) (set qs)" using u(2) rps that by blast
      then show ?thesis using a(5) by (simp add: heap_frame_def)
    qed
    note w = heap_view_cong[of us "pool_page (ts_pool s')" "pool_page (ts_pool s)", OF v]
    have "pool_st page_view {} (ts_pool s')" using catalog_atD(6)[OF a(2)] by (simp add: heap_inv_def)
    moreover have "set us \<subseteq> pool_used (ts_pool s')" using heap_invD(5)[OF u(1)] u(2) a(6) unfolding pages_dropped_def by blast
    ultimately show ?thesis using w heap_invD[OF u(1)] by (simp add: heap_inv_def rows_at_def)
  qed
  have "tables_of s' name = None" using a(3) by simp
  moreover have "cat_inv s'" by (rule catalog_atD(1)[OF a(2)])
  ultimately have "catalog_tables s' name = None" by (rule no_entry)
  then have "fst (catalog_get_table name s') = Inr None" by (simp add: catalog_get_table_def get_op_def)
  with a other show ?thesis by blast
qed

theorem catalog_drop_witness:
  "\<exists>s s' r tb. tables_of s ''ducks'' = Some (r, tb) \<and> catalog_drop_table id ''ducks'' s = (Inr True, s') \<and> tables_of s' = Map.empty"
proof -
  obtain p where p: "heap_inv p 1 [1]" "heap_map (pool_page p) [1] = Map.empty" "pool_room 2 p" "disk_alloc (pool_disk p)" "pool_used p = {1, 2}"
    "pool_pins p = (\<lambda>_. 0)"
    by (rule small_heap)
  note c = catalog_db[OF p(1,2)]
  let ?ct = "\<lparr>tb_name = ''duck_catalog_'', tb_first_page = 1, tb_schema = catalog_schema\<rparr>"
  have h: "tb_schema ?ct = catalog_schema" "catalog_tables (catalog_db p) ''ducks'' = None" "pool_room 2 (ts_pool (catalog_db p))"
    "card (pool_used (ts_pool (catalog_db p))) < 2 ^ 32 - 3" using c(3,5) p(3,5) by simp_all
  show ?thesis
  proof (rule catalog_create_run[OF c(1,4) h(1) c(2) h(2) sample_fits h(3,4), of id])
    fix h q r s ns
    let ?tb = "\<lparr>tb_name = ''ducks'', tb_first_page = q, tb_schema = sample_schema\<rparr>"
    assume a: "cat_inv s" "tables_of s = (tables_of (catalog_db p))(''ducks'' \<mapsto> (r, ?tb))"
      "table_at s (catalog_table s) ?ct ([1] @ ns)" "catalog_rows (tables_of s) (rows_at s ([1] @ ns))" "table_at s h ?tb [q]"
      "pool_room 2 (ts_pool s)" "q \<notin> set ([1] @ ns)" "heap_frame (insert q (set ([1] @ ns))) (ts_pool (catalog_db p)) (ts_pool s)"
    have "tables_of (catalog_db p) = Map.empty" using c(3) by (simp add: tables_of_def fun_eq_iff)
    then have T: "tables_of s = [''ducks'' \<mapsto> (r, ?tb)]" using a(2) by simp
    have at: "catalog_at s ?ct ([1] @ ns)" using a(1,3,4) by (simp add: catalog_at_def kCATALOG_FIRST_PAGE_ID_def)
    have q: "heap_inv (ts_pool s) (tb_first_page ?tb) [q]" "set ([1] @ ns) \<inter> set [q] = {}" "\<forall>x\<in>set [q]. pool_pins (ts_pool s) x = 0"
      using a(5,7,8) c(5) p(6) by (simp_all add: table_at_def heap_frame_def)
    have Ts: "tables_of s ''ducks'' = Some (r, ?tb)" using T by simp
    from catalog_drop[OF at Ts q a(6), of id] obtain s' where s': "catalog_drop_table id ''ducks'' s = (Inr True, s')"
      "tables_of s' = (tables_of s)(''ducks'' := None)" by blast
    have "tables_of s' = Map.empty" using s'(2) T by simp
    then show ?thesis using Ts s'(1) by blast
  qed
qed

section \<open>The example program\<close>

text \<open>On a new file the example program reads an optional that holds no table\<close>

lemma main_new_file:
  assumes "file_ok f" "length (contents f) < kPAGE_SIZE"
  shows "main_program what others (Some f) = Inl Undefined_Behaviour"
proof (rule open_new_file[OF assms(1,2), of 128])
  fix s ct
  assume a: "db_open (Some f) 128 = Inr s" "catalog_at s ct [1]" "tables_of s = Map.empty"
  have c: "catalog_tables s ''test_table3'' = None" using a(3) catalog_atD(1)[OF a(2)] by (intro no_entry) simp_all
  obtain t where t: "main_tuple = Inr t"
    by (simp add: main_tuple_def main_schema_def schema_of_def tuple_of_def schema_column_count_def value_of_def)
  have "main_body others (s, []) = (Inl Undefined_Behaviour, (s, []))"
    by (simp add: main_body_def c t bind_op_def lift_op_def on_db_def db_get_table_def catalog_get_table_def get_op_def throw_op_def)
  then show ?thesis using a(1) by (simp add: main_program_def main_catch_def db_unwind_def)
qed simp_all

end
