(* ===== verification/Session_Laws.thy ===== *)
theory Session_Laws
  imports Database_Spec
begin

text \<open>
  A caller of the database: it creates a table, fills it in a transaction that it commits or rolls back, and goes. The
  lemmas follow the state through the whole stack: the catalog that the insertions do not touch, what is left of the table when the transaction ends.
\<close>

section \<open>A session\<close>

definition fill :: "bool \<Rightarrow> nat \<Rightarrow> tuple list \<Rightarrow> (db, rid option list) op" where
  \<comment> \<open>a caller alone with the database: one transaction that inserts these tuples\<close>
  "fill commit h tus =
     bind_op db_begin_tx (\<lambda>t.
     bind_op (insert_all id h (Some t) tus) (\<lambda>rs.
     bind_op ((if commit then db_commit_tx else db_rollback_tx) (Some t)) (\<lambda>_. ret_op rs)))"

definition session :: "bool \<Rightarrow> string \<Rightarrow> schema \<Rightarrow> tuple list \<Rightarrow> (db, rid option list) op" where
  \<comment> \<open>a new table, and the transaction that fills it\<close>
  "session commit name sch tus =
     bind_op (db_create_table (ret_op ()) id name sch None) (\<lambda>h. fill commit h tus)"

lemma session_kept: "op_keeps db_kept (session commit name sch tus)"
proof -
  have "op_keeps db_kept (insert_all id h tx ts)" for h tx ts
    by (induction ts) (simp_all only: insert_all.simps, (intro kept | assumption)+)
  then show ?thesis
    unfolding session_def fill_def db_create_table_def db_begin_tx_def db_commit_tx_def db_rollback_tx_def
    by (cases commit) (simp_all only: if_True if_False, (intro kept begin_op_kept | assumption)+)
qed

lemma catalog_at_frame:
  assumes "catalog_at s ct ps" "heap_frame A (ts_pool s) (ts_pool s')" "set ps \<inter> A = {}" "pool_st page_view {} (ts_pool s')"
    "pool_used (ts_pool s) \<subseteq> pool_used (ts_pool s')" "tables_kept s s'"
  shows "catalog_at s' ct ps" "tables_of s' = tables_of s"
proof -
  note c = catalog_atD[OF assms(1)]
  note k = assms(6)[unfolded tables_kept_def]
  show T: "tables_of s' = tables_of s" by (rule ext) (simp add: tables_of_def k split: option.split)
  have "page_view (pool_page (ts_pool s') x) = page_view (pool_page (ts_pool s) x)" if "x \<in> set ps" for x
    using assms(2,3) that by (auto simp: heap_frame_def)
  note w = heap_view_cong[of ps "pool_page (ts_pool s')" "pool_page (ts_pool s)", OF this]
  note hi = heap_invD[OF c(6)]
  have "heap_inv (ts_pool s') kCATALOG_FIRST_PAGE_ID ps" using w(1) hi assms(4,5) by (auto simp: heap_inv_def)
  moreover have "cat_inv s'" using c(1) k by (simp add: cat_inv_def)
  moreover have "rows_at s' ps = rows_at s ps" using w(2) by (simp add: rows_at_def)
  ultimately show "catalog_at s' ct ps"
    using c(2,5,7) k T by (simp add: catalog_at_def table_at_def)
qed

text \<open>What a transaction that only inserts leaves\<close>

lemma end_inserts:
  fixes s :: db
  assumes "table_at s h tb ps" "transactions s t = Some x" "undo_log x = map (Delete_Undo_Record h) rs"
    "\<forall>r\<in>set rs. rid_page_id r \<in> set ps" "pool_room (Suc k) (ts_pool s)"
  obtains s' where "(if commit then db_commit_tx else db_rollback_tx) (Some t) s = (Inr (), s')" "table_at s' h tb ps"
    "rows_at s' ps = (\<lambda>q. if \<not> commit \<and> q \<in> set rs then None else rows_at s ps q)"
    "heap_frame (set ps) (ts_pool s) (ts_pool s')" "pool_used (ts_pool s') = pool_used (ts_pool s)" "tables_kept s s'"
proof (cases commit)
  case True
  obtain s' where c: "tm_commit (Some t) s = (Inr (), s')" "ts_pool s' = ts_pool s" "tables_kept s s'"
    by (rule commit_run[OF assms(2)])
  show ?thesis
    by (rule that[of s']) (use c True assms(1) in \<open>simp_all add: db_commit_tx_def table_at_def rows_at_def heap_frame_refl tables_kept_def\<close>)
next
  case False
  let ?s0 = "set_state t SHRINKING s"
  have k0: "tables_kept s ?s0" by (rule tables_kept_same) (simp add: same_data_def same_data_more)
  have h0: "table_at ?s0 h tb ps" "\<forall>r\<in>set (rev rs). rid_page_id r \<in> set ps" "pool_room (Suc k) (ts_pool ?s0)"
    using assms by simp_all
  from undo_deletes_run[OF h0] obtain s1 where u: "undo_all (map (Delete_Undo_Record h) (rev rs)) ?s0 = (Inr (), s1)"
    "table_at s1 h tb ps" "rows_at s1 ps = (\<lambda>q. if q \<in> set (rev rs) then None else rows_at ?s0 ps q)"
    "heap_frame (set ps) (ts_pool ?s0) (ts_pool s1)" "pool_used (ts_pool s1) = pool_used (ts_pool ?s0)" "tables_kept ?s0 s1" by blast
  have run: "undo_all (rev (undo_log x)) ?s0 = (Inr (), s1)" using u(1) by (simp add: assms(3) rev_map)
  obtain s' where a: "tm_abort (Some t) s = (Inr (), s')" "ts_pool s' = ts_pool s1" "table_objects s' = table_objects s1" "tables_kept s1 s'"
    by (rule abort_run[OF assms(2) run])
  have "tables_kept s s'" by (rule tables_kept_trans[OF k0 tables_kept_trans[OF u(6) a(4)]])
  then show ?thesis
    by (intro that[of s']) (use a u False in \<open>simp_all add: db_rollback_tx_def table_at_def rows_at_def fun_eq_iff\<close>)
qed

lemma begin_run:
  obtains t s' where "db_begin_tx s = (Inr t, s')" "transactions s' t = Some (tx_new t)" "queue_of s' = queue_of s" "ts_pool s' = ts_pool s"
    "tables_kept s s'"
  by (rule that[of "next_tx_id s" "snd (tm_begin s)"])
    (simp_all add: db_begin_tx_def tm_begin_def Let_def queue_of_def fun_eq_iff tables_kept_def)

lemma tables_kept_at: "tables_kept s s' \<Longrightarrow> ts_pool s' = ts_pool s \<Longrightarrow> table_at s' h tb ps = table_at s h tb ps \<and> rows_at s' ps = rows_at s ps"
  by (simp add: table_at_def rows_at_def tables_kept_def)

lemma fill_run:
  assumes "table_at s h tb ps" "rows_at s ps = Map.empty" "\<forall>r. queue_of s r = []" "pool_room 2 (ts_pool s)"
    "card (pool_used (ts_pool s)) + length tus < 2 ^ 32 - 2" "storable_rows tb tus raws"
  obtains rs s' ns where "fill commit h tus s = (Inr (map Some rs), s')" "length rs = length tus" "distinct rs" "table_at s' h tb (ps @ ns)"
    "\<forall>r\<in>set rs. rid_page_id r \<in> set (ps @ ns)" "rows_at s' (ps @ ns) = (if commit then Map.empty(rs [\<mapsto>] raws) else Map.empty)"
    "set ns \<inter> pool_used (ts_pool s) = {}" "pool_used (ts_pool s) \<subseteq> pool_used (ts_pool s')"
    "heap_frame (set (ps @ ns)) (ts_pool s) (ts_pool s')" "tables_kept s s'"
proof -
  obtain t s2 where b: "db_begin_tx s = (Inr t, s2)" "transactions s2 t = Some (tx_new t)" "queue_of s2 = queue_of s"
    "ts_pool s2 = ts_pool s" "tables_kept s s2" by (rule begin_run)
  have i0: "nodes_old s2" "\<forall>x. rows_at s2 ps x = None \<longrightarrow> other_locks s2 (Some t) x = {}" "table_at s2 h tb ps"
    "tx_state (tx_new t) = GROWING" "pool_room 2 (ts_pool s2)" "card (pool_used (ts_pool s2)) + length tus < 2 ^ 32 - 2" "rows_at s2 ps = Map.empty"
    using assms b(3,4) tables_kept_at[OF b(5,4)] by (simp_all add: nodes_old_def other_locks_def tx_new_def)
  from insert_all_run[OF assms(6) i0(3) b(2) i0(4,1,2,5,6), of id] obtain rs s3 ms y where
    i: "insert_all id h (Some t) tus s2 = (Inr (map Some rs), s3)" "table_at s3 h tb (ps @ ms)" "length rs = length tus" "distinct rs"
      "\<forall>r\<in>set rs. rows_at s2 ps r = None \<and> rid_page_id r \<in> set (ps @ ms)" "rows_at s3 (ps @ ms) = (rows_at s2 ps)(rs [\<mapsto>] raws)"
      "transactions s3 t = Some y" "undo_log y = undo_log (tx_new t) @ map (Delete_Undo_Record h) rs" "pool_room 2 (ts_pool s3)"
      "set ms \<inter> pool_used (ts_pool s2) = {}" "pool_used (ts_pool s3) = pool_used (ts_pool s2) \<union> set ms"
      "heap_frame (set (ps @ ms)) (ts_pool s2) (ts_pool s3)" "tables_kept s2 s3" by blast
  have e0: "undo_log y = map (Delete_Undo_Record h) rs" "\<forall>r\<in>set rs. rid_page_id r \<in> set (ps @ ms)" "pool_room (Suc 1) (ts_pool s3)"
    using i(5,8,9) by (simp_all add: tx_new_def numeral_2_eq_2)
  obtain s4 where e: "(if commit then db_commit_tx else db_rollback_tx) (Some t) s3 = (Inr (), s4)" "table_at s4 h tb (ps @ ms)"
    "rows_at s4 (ps @ ms) = (\<lambda>x. if \<not> commit \<and> x \<in> set rs then None else rows_at s3 (ps @ ms) x)"
    "heap_frame (set (ps @ ms)) (ts_pool s3) (ts_pool s4)" "pool_used (ts_pool s4) = pool_used (ts_pool s3)" "tables_kept s3 s4"
    by (rule end_inserts[OF i(2,7) e0, of commit], rule that)
  have run: "fill commit h tus s = (Inr (map Some rs), s4)"
    using b(1) i(1) e(1) by (simp add: fill_def bind_op_def ret_op_def)
  have rows: "rows_at s4 (ps @ ms) = (if commit then Map.empty(rs [\<mapsto>] raws) else Map.empty)"
    using e(3) i(6) i0(7) map_upds_apply_nontin[of _ rs Map.empty raws] by (auto simp: fun_eq_iff)
  have fr: "heap_frame (set (ps @ ms)) (ts_pool s) (ts_pool s4)" using heap_frame_trans[OF i(12) e(4)] b(4) by simp
  have tk: "tables_kept s s4" by (rule tables_kept_trans[OF b(5) tables_kept_trans[OF i(13) e(6)]])
  show ?thesis by (rule that[OF run i(3,4) e(2) e0(2) rows _ _ fr tk]) (use i(10,11) b(4) e(5) in auto)
qed

lemma session_run:
  assumes "catalog_at s ct ps" "tables_of s name = None" "tx_kept 0 s" "catalog_fits name sch" "pool_room 2 (ts_pool s)"
    "card (pool_used (ts_pool s)) + length tus < 2 ^ 32 - 4" "\<forall>p. storable_rows \<lparr>tb_name = name, tb_first_page = p, tb_schema = sch\<rparr> tus raws"
  obtains rs s' q r ns qs where "session commit name sch tus s = (Inr (map Some rs), s')" "length rs = length tus" "distinct rs"
    "catalog_at s' ct (ps @ ns)" "tables_of s' = (tables_of s)(name \<mapsto> (r, \<lparr>tb_name = name, tb_first_page = q, tb_schema = sch\<rparr>))"
    "heap_inv (ts_pool s') q qs" "\<forall>r\<in>set rs. rid_page_id r \<in> set qs"
    "rows_at s' qs = (if commit then Map.empty(rs [\<mapsto>] raws) else Map.empty)"
proof -
  note c = catalog_atD[OF assms(1)]
  have none: "catalog_tables s name = None" by (rule no_entry[OF assms(2) c(1)])
  have card0: "card (pool_used (ts_pool s)) < 2 ^ 32 - 3" using assms(6) by simp
  obtain h q r s1 ns where a: "catalog_create_table (ret_op ()) id name sch None s = (Inr h, s1)" "cat_inv s1"
    "tables_of s1 = (tables_of s)(name \<mapsto> (r, \<lparr>tb_name = name, tb_first_page = q, tb_schema = sch\<rparr>))"
    "table_at s1 (catalog_table s1) ct (ps @ ns)" "catalog_rows (tables_of s1) (rows_at s1 (ps @ ns))"
    "table_at s1 h \<lparr>tb_name = name, tb_first_page = q, tb_schema = sch\<rparr> [q]" "rows_at s1 [q] = Map.empty"
    "pool_room 2 (ts_pool s1)" "q \<notin> set (ps @ ns)" "card (pool_used (ts_pool s1)) \<le> card (pool_used (ts_pool s)) + 2"
    by (rule catalog_create_run[OF c(1-3,5) none assms(4,5) card0, of id], rule that)
  let ?tb = "\<lparr>tb_name = name, tb_first_page = q, tb_schema = sch\<rparr>"
  have at1: "catalog_at s1 ct (ps @ ns)" using a(2,4,5) c(7) by (simp add: catalog_at_def)
  have f0: "\<forall>r. queue_of s1 r = []" "card (pool_used (ts_pool s1)) + length tus < 2 ^ 32 - 2" "storable_rows ?tb tus raws"
    using no_tx_no_locks[OF op_keepsD[OF locks.catalog_kept(5) a(1) assms(3)]] assms(6,7) a(10) by simp_all
  obtain rs s4 ms where f: "fill commit h tus s1 = (Inr (map Some rs), s4)" "length rs = length tus" "distinct rs" "table_at s4 h ?tb ([q] @ ms)"
    "\<forall>r\<in>set rs. rid_page_id r \<in> set ([q] @ ms)" "rows_at s4 ([q] @ ms) = (if commit then Map.empty(rs [\<mapsto>] raws) else Map.empty)"
    "set ms \<inter> pool_used (ts_pool s1) = {}" "pool_used (ts_pool s1) \<subseteq> pool_used (ts_pool s4)"
    "heap_frame (set ([q] @ ms)) (ts_pool s1) (ts_pool s4)" "tables_kept s1 s4"
    by (rule fill_run[OF a(6,7) f0(1) a(8) f0(2,3), of commit], rule that)
  have "set (ps @ ns) \<subseteq> pool_used (ts_pool s1)" using heap_invD(5)[OF catalog_atD(6)[OF at1]] .
  then have dj: "set (ps @ ns) \<inter> set ([q] @ ms) = {}" using a(9) f(7) by auto
  have hq: "heap_inv (ts_pool s4) q ([q] @ ms)" using f(4) by (simp add: table_at_def)
  note g = catalog_at_frame[OF at1 f(9) dj heap_invD(1)[OF hq] f(8,10)]
  have run: "session commit name sch tus s = (Inr (map Some rs), s4)"
    using a(1) f(1) by (simp add: session_def db_create_table_def bind_op_def)
  show ?thesis by (rule that[OF run f(2,3) g(1) _ hq f(5,6)]) (simp add: g(2) a(3))
qed

end
