(* ===== verification/Session_Spec.thy ===== *)
theory Session_Spec
  imports Session_Laws Lock_Spec Executor_Spec
begin

text \<open>
  Properties of the program as a whole: what a committed transaction stored survives a restart and what a rolled back one
  stored does not; what a history of calls, with the exceptions that they throw, leaves of the file; no such history leaves two transactions
  with locks that exclude each other.
\<close>

section \<open>A committed session survives a restart\<close>

definition row_fits :: "schema \<Rightarrow> val list \<Rightarrow> tuple \<Rightarrow> bool" where
  \<comment> \<open>the tuple is built from these values and its bytes fit a page\<close>
  "row_fits sch vs t \<longleftrightarrow>
     tuple_of vs sch = Inr t \<and> (\<forall>i<length (columns sch). char_ok (columns sch ! i) (vs ! i)) \<and>
     (\<exists>raw. tuple_serialize t = Inr raw \<and> length raw \<le> MAX_TUPLE_SIZE)"

definition tuple_bytes :: "tuple \<Rightarrow> byte list" where
  "tuple_bytes t = (case tuple_serialize t of Inl e \<Rightarrow> [] | Inr raw \<Rightarrow> raw)"

lemma row_fitsD:
  assumes "row_fits sch vs t"
  shows "t_schema t = sch" "tuple_serialize t = Inr (tuple_bytes t)" "length (tuple_bytes t) \<le> MAX_TUPLE_SIZE"
    "tuple_of_bytes (tuple_bytes t) sch = Inr \<lparr>t_schema = sch, t_values = map value_canon vs\<rparr>"
    "columns sch \<noteq> [] \<Longrightarrow> tuple_bytes t \<noteq> []"
proof -
  obtain raw where t: "tuple_of vs sch = Inr t" "\<forall>i<length (columns sch). char_ok (columns sch ! i) (vs ! i)"
    "tuple_serialize t = Inr raw" "length raw \<le> MAX_TUPLE_SIZE"
    using assms by (auto simp: row_fits_def)
  note f = tuple_of_fields[OF t(1,2)]
  have b: "tuple_bytes t = raw" using t(3) by (simp add: tuple_bytes_def)
  show "t_schema t = sch" using f(1) by simp
  show "tuple_serialize t = Inr (tuple_bytes t)" "length (tuple_bytes t) \<le> MAX_TUPLE_SIZE" using t b by simp_all
  have "length raw < 65536" using t(4) by (simp add: MAX_TUPLE_SIZE_def kPAGE_SIZE_def)
  then show "tuple_of_bytes (tuple_bytes t) sch = Inr \<lparr>t_schema = sch, t_values = map value_canon vs\<rparr>"
    using tuple_read_back[OF t(1,3) _ t(2)] b by simp
  show "tuple_bytes t \<noteq> []" if "columns sch \<noteq> []"
    unfolding b by (rule serialize_nonempty[OF t(3)]) (use f that in simp_all)
qed

lemma rows_storable:
  "list_all2 (row_fits (tb_schema tb)) vss tus \<Longrightarrow> storable_rows tb tus (map tuple_bytes tus)"
  by (auto simp: storable_rows_def list_all2_conv_all_nth row_fitsD)

lemma table_read:
  fixes s :: "'a table_state_scheme"
  assumes "table_at s h tb ps" "rid_page_id r \<in> set ps" "pool_room 2 (ts_pool s)"
  shows "fst (table_get_tuple others h r None s) =
    (case rows_at s ps r of None \<Rightarrow> Inr None | Some raw \<Rightarrow> if raw = [] then Inr None else map_sum id Some (tuple_of_bytes raw (tb_schema tb)))"
proof -
  have tb: "table_objects s h = Some tb" "heap_inv (ts_pool s) (tb_first_page tb) ps" "pool_room (Suc 1) (ts_pool s)"
    using assms(1,3) by (simp_all add: table_at_def numeral_2_eq_2)
  obtain p where g: "heap_get_tuple r (ts_pool s) =
      (Inr (case heap_map (pool_page (ts_pool s)) ps r of None \<Rightarrow> None | Some t \<Rightarrow> if t = [] then None else Some t), p)"
    by (rule heap_get_spec[OF tb(2) assms(2) tb(3)])
  show ?thesis
    using tb(1) g
    by (cases "heap_map (pool_page (ts_pool s)) ps r"; cases "tuple_of_bytes (the (heap_map (pool_page (ts_pool s)) ps r)) (tb_schema tb)")
      (auto simp: table_get_tuple_def bind_op_def table_op_def locked_shared_def on_pool_def ret_op_def lift_op_def rows_at_def)
qed

lemma upds_at: "length rs = length raws \<Longrightarrow> distinct rs \<Longrightarrow> i < length rs \<Longrightarrow> (m(rs [\<mapsto>] raws)) (rs ! i) = Some (raws ! i)"
proof (induction rs raws arbitrary: i m rule: list_induct2)
  case (Cons x xs y ys)
  then show ?case by (cases i) (auto dest: nth_mem)
qed simp

lemma upds_dom: "length rs = length raws \<Longrightarrow> dom (Map.empty(rs [\<mapsto>] raws)) = set rs"
  by simp

text \<open>
  C1: durability and atomicity. In a new file, create a table and insert any number of rows in a transaction; end it, close
  the database and open the file again, with pools of any size from two frames up. Everything succeeds. If the transaction
  was committed, the table is there under its name and each record identifier gives back the values and the nulls inserted
  under it, and there are no other rows; if it was rolled back, the table is there and has no row.
\<close>

theorem session_survives_restart:
  assumes "file_ok f" "length (contents f) < kPAGE_SIZE" "2 \<le> n" "n < 2 ^ 32" "2 \<le> m" "m < 2 ^ 32"
    "catalog_fits name sch" "list_all2 (row_fits sch) vss tus" "length tus < 2 ^ 32 - 5"
  shows "\<exists>s rs s1 g s2 h tb qs. db_open (Some f) n = Inr s \<and> session commit name sch tus s = (Inr (map Some rs), s1) \<and>
    length rs = length tus \<and> distinct rs \<and> db_close s1 = (Inr (), g) \<and> db_open (Some g) m = Inr s2 \<and>
    dom (tables_of s2) = {name} \<and> fst (db_get_table name s2) = Inr (Some h) \<and>
    table_at s2 h tb qs \<and> tb_schema tb = sch \<and> dom (rows_at s2 qs) = (if commit then set rs else {}) \<and>
    (\<forall>i<length rs. fst (table_get_tuple others h (rs ! i) None s2) =
       Inr (if commit then Some \<lparr>t_schema = sch, t_values = map value_canon (vss ! i)\<rparr> else None))"
proof -
  obtain s ct where o: "db_open (Some f) n = Inr s" "catalog_at s ct [1]" "tables_of s = Map.empty"
    "pool_used (ts_pool s) = {1}" "pool_room 2 (ts_pool s)"
    by (rule open_new_file[OF assms(1-4)])
  let ?raws = "map tuple_bytes tus"
  have s: "tables_of s name = None" "tx_kept 0 s" "card (pool_used (ts_pool s)) + length tus < 2 ^ 32 - 4"
    "\<forall>p. storable_rows \<lparr>tb_name = name, tb_first_page = p, tb_schema = sch\<rparr> tus ?raws"
    using o(3,4) open_tx_kept[OF o(1)] assms(8,9) by (simp_all add: rows_storable)
  obtain rs s1 q r ns qs where w: "session commit name sch tus s = (Inr (map Some rs), s1)" "length rs = length tus" "distinct rs"
    "catalog_at s1 ct ([1] @ ns)" "tables_of s1 = (tables_of s)(name \<mapsto> (r, \<lparr>tb_name = name, tb_first_page = q, tb_schema = sch\<rparr>))"
    "heap_inv (ts_pool s1) q qs" "\<forall>r\<in>set rs. rid_page_id r \<in> set qs"
    "rows_at s1 qs = (if commit then Map.empty(rs [\<mapsto>] ?raws) else Map.empty)"
    by (rule session_run[OF o(2) s(1,2) assms(7) o(5) s(3,4), of commit], rule that)
  let ?tb = "\<lparr>tb_name = name, tb_first_page = q, tb_schema = sch\<rparr>"
  have "db_kept s1" by (rule op_keepsD[OF session_kept w(1) open_file_kept[OF assms(1) o(1) assms(4)]])
  then obtain g s2 where z: "db_close s1 = (Inr (), g)" and p: "db_open (Some g) m = Inr s2" "catalog_at s2 ct ([1] @ ns)" "tables_of s2 = tables_of s1"
    "heap_inv (ts_pool s2) q qs \<and> rows_at s2 qs = rows_at s1 qs" "pool_room 2 (ts_pool s2)"
    using database_restart[OF w(4) _ assms(5,6)] w(6) by metis
  have "tables_of s2 name = Some (r, ?tb)" using p(3) w(5) by simp
  then obtain h where h: "fst (db_get_table name s2) = Inr (Some h)" "table_objects s2 h = Some ?tb"
    by (auto simp: tables_of_def db_get_table_def catalog_get_table_def get_op_def split: option.splits)
  have cols: "columns sch \<noteq> []" using assms(7) by (simp add: catalog_fits_def)
  then have at: "table_at s2 h ?tb qs" using h(2) p(4) by (simp add: table_at_def)
  have dom: "dom (rows_at s2 qs) = (if commit then set rs else {})" using p(4) w(2,8) by simp
  have read: "fst (table_get_tuple others h (rs ! i) None s2) =
      Inr (if commit then Some \<lparr>t_schema = sch, t_values = map value_canon (vss ! i)\<rparr> else None)" if i: "i < length rs" for i
  proof -
    have fits: "row_fits sch (vss ! i) (tus ! i)" using assms(8) i w(2) by (simp add: list_all2_conv_all_nth)
    have "rows_at s2 qs (rs ! i) = (if commit then Some (tuple_bytes (tus ! i)) else None)"
      using p(4) w(8) upds_at[of rs ?raws i Map.empty] w(2,3) i by simp
    then show ?thesis
      using table_read[OF at _ p(5), of "rs ! i" others] w(7) i row_fitsD(4,5)[OF fits] cols by simp
  qed
  have "dom (tables_of s2) = {name}" using p(3) w(5) o(3) by simp
  then show ?thesis using o(1) w(1-3) z p(1) h(1) at dom read
    by (intro exI[of _ s] exI[of _ rs] exI[of _ s1] exI[of _ g] exI[of _ s2] exI[of _ h] exI[of _ ?tb] exI[of _ qs]) simp
qed

theorem session_survives_restart_witness:
  "\<exists>s rs s1 g s2 h. db_open (Some empty_file) 128 = Inr s \<and> session True ''ducks'' sample_schema [sample_tuple, sample_tuple] s = (Inr (map Some rs), s1) \<and>
     length rs = 2 \<and> db_close s1 = (Inr (), g) \<and> db_open (Some g) 2 = Inr s2 \<and> fst (db_get_table ''ducks'' s2) = Inr (Some h) \<and>
     (\<forall>i<2. fst (table_get_tuple id h (rs ! i) None s2) = Inr (Some sample_tuple))"
proof -
  have "row_fits sample_schema sample_values sample_tuple"
    using sample_tuple(1-3,5) by (simp add: row_fits_def)
  then have l: "list_all2 (row_fits sample_schema) [sample_values, sample_values] [sample_tuple, sample_tuple]" by simp
  have f: "file_ok empty_file" "length (contents empty_file) < kPAGE_SIZE"
    by (simp_all add: file_ok_def empty_file_def kPAGE_SIZE_def)
  have eq: "\<lparr>t_schema = sample_schema, t_values = map value_canon sample_values\<rparr> = sample_tuple"
    using sample_tuple(6) by (simp add: sample_tuple_def)
  have two: "[sample_values, sample_values] ! i = sample_values" if "i < 2" for i
    using that by (auto simp: less_2_cases_iff)
  from session_survives_restart[OF f _ _ _ _ sample_fits l, where n = 128 and m = 2 and commit = True and others = id] obtain s rs s1 g s2 h where
    "db_open (Some empty_file) 128 = Inr s" "session True ''ducks'' sample_schema [sample_tuple, sample_tuple] s = (Inr (map Some rs), s1)"
    "length rs = 2" "db_close s1 = (Inr (), g)" "db_open (Some g) 2 = Inr s2" "fst (db_get_table ''ducks'' s2) = Inr (Some h)"
    "\<forall>i<2. fst (table_get_tuple id h (rs ! i) None s2) =
       Inr (Some \<lparr>t_schema = sample_schema, t_values = map value_canon ([sample_values, sample_values] ! i)\<rparr>)" by auto
  then show ?thesis using two eq by (intro exI conjI) auto
qed

section \<open>What a history leaves of the file\<close>

lemma close_space: "disk_space (pool_disk (snd (bpm_close s))) = disk_space (pool_disk s)"
proof -
  let ?I = "\<lambda>u. disk_space (pool_disk u) = disk_space (pool_disk s)"
  have p: "op_keeps ?I (bpm_flush_page pg)" "op_keeps ?I (frame_op f)" for pg f
    by (auto simp: op_keeps_def bpm_flush_page_def on_disk_def dm_write_page_def disk_space_def frame_op_def Let_def split: prod.split)
  have "op_keeps ?I (bpm_flush_from i n)" for i n
    by (induction i n rule: bpm_flush_from.induct) (auto intro!: kept p)
  then have "op_keeps ?I bpm_close" unfolding bpm_close_def bpm_flush_all_def by (intro noexcept_kept kept)
  then show ?thesis by (simp add: op_keeps_def)
qed

lemma close_opens:
  assumes "db_kept s"
  shows "if dirty_allocated (ts_pool s)
    then \<exists>g d. db_close s = (Inr (), g) \<and> dm_open (Some g) = Inr d \<and>
      (kPAGE_SIZE \<le> length (contents g) \<longrightarrow>
         disk_capacity d = disk_capacity (pool_disk (ts_pool s)) \<and> free_list d = free_list (pool_disk (ts_pool s)))
    else fst (db_close s) = Inl Terminated"
proof -
  have k: "pool_kept (ts_pool s)" using assms by (simp add: db_kept_def)
  then have "file_kept (pool_disk (snd (bpm_close (ts_pool s))))" using op_keeps_snd[OF bpm_close_kept k] by (simp add: pool_kept_def)
  from closed_opens[OF this] close_result[OF k] show ?thesis
    using close_space[of "ts_pool s"] by (cases "bpm_close (ts_pool s)") (auto simp: db_close_def disk_space_def)
qed

lemma catalog_dirty_allocated:
  assumes "catalog_at s ct ps" "db_kept s"
  shows "dirty_allocated (ts_pool s)"
proof -
  obtain f s' where "db_close s = (Inr (), f)" "db_open (Some f) 2 = Inr s'"
    by (rule database_restart[OF assms, of 2]) simp_all
  then show ?thesis using close_opens[OF assms(2)] by (auto split: if_splits)
qed

text \<open>
  C5: the file stays a database file. Open any file that the disk manager accepts, with a pool of less than \<open>2 ^ 32\<close> frames; let calls follow,
  in any order, with any arguments, that return or throw exceptions (a failed assertion or undefined behaviour ends the history), whatever
  other threads do meanwhile that keeps the file. Then destroy the database. If the changed pages of the pool are pages of
  the file, the destructors return, and the disk manager accepts the file again, and unless it is still shorter than a page, with the
  capacity and the free list that the calls left. Otherwise (a file whose free list names a page that it does not have
  leads there) writing back throws in a destructor, and the program is terminated before the header is written.
\<close>

theorem history_keeps_file:
  assumes "file_ok f" "n < 2 ^ 32" "db_open (Some f) n = Inr s" "\<forall>u. db_kept u \<longrightarrow> db_kept (others u)" "op_keeps pool_kept alloc"
    "run_calls alloc others cs s = (Inr (), s')"
  shows "if dirty_allocated (ts_pool s')
    then \<exists>g d. db_close s' = (Inr (), g) \<and> dm_open (Some g) = Inr d \<and>
      (kPAGE_SIZE \<le> length (contents g) \<longrightarrow>
         disk_capacity d = disk_capacity (pool_disk (ts_pool s')) \<and> free_list d = free_list (pool_disk (ts_pool s')))
    else fst (db_close s') = Inl Terminated"
proof -
  have "db_kept s'" using run_calls_kept[OF assms(4,5) open_file_kept[OF assms(1,3,2)], of cs] assms(6) by simp
  then show ?thesis by (rule close_opens)
qed

theorem history_keeps_file_witness:
  "\<exists>s s' g d. db_open (Some empty_file) 128 = Inr s \<and>
     run_calls (ret_op ()) id [Call_Create ''ducks'' sample_schema None, Call_Create ''ducks'' sample_schema None] s = (Inr (), s') \<and>
     catalog_tables s' ''ducks'' \<noteq> None \<and> db_close s' = (Inr (), g) \<and> dm_open (Some g) = Inr d"
proof -
  have f: "file_ok empty_file" "length (contents empty_file) < kPAGE_SIZE"
    by (simp_all add: file_ok_def empty_file_def kPAGE_SIZE_def)
  obtain s ct where o: "db_open (Some empty_file) 128 = Inr s" "catalog_at s ct [1]" "tables_of s = Map.empty"
    "pool_used (ts_pool s) = {1}" "pool_room 2 (ts_pool s)"
    by (rule open_new_file[OF f, of 128]) simp_all
  note c = catalog_atD[OF o(2)]
  have none: "catalog_tables s ''ducks'' = None" by (rule no_entry[OF _ c(1)]) (simp add: o(3))
  have card0: "card (pool_used (ts_pool s)) < 2 ^ 32 - 3" using o(4) by simp
  obtain h r q s1 ns where a: "catalog_create_table (ret_op ()) id ''ducks'' sample_schema None s = (Inr h, s1)" "cat_inv s1"
    "tables_of s1 = (tables_of s)(''ducks'' \<mapsto> (r, \<lparr>tb_name = ''ducks'', tb_first_page = q, tb_schema = sample_schema\<rparr>))"
    "table_at s1 (catalog_table s1) ct ([1] @ ns)" "catalog_rows (tables_of s1) (rows_at s1 ([1] @ ns))"
    by (rule catalog_create_run[OF c(1-3,5) none sample_fits o(5) card0, of id], rule that)
  let ?cs = "[Call_Create ''ducks'' sample_schema None, Call_Create ''ducks'' sample_schema None]"
  have e: "catalog_tables s1 ''ducks'' \<noteq> None" using a(3) by (auto simp: tables_of_def fun_eq_iff split: option.splits dest: spec[of _ "''ducks''"])
  then have again: "catalog_create_table (ret_op ()) id ''ducks'' sample_schema None s1 =
      (Inl (Runtime_Error ''Catalog::create_table: table with name already exists''), s1)"
    by (auto simp: catalog_create_table_def bind_op_def get_op_def throw_op_def)
  have run: "run_calls (ret_op ()) id ?cs s = (Inr (), s1)"
    using a(1) again
    by (simp add: run_only_def db_create_table_def bind_op_def ret_op_def)
  have at: "catalog_at s1 ct ([1] @ ns)" using a(2,4,5) c(7) by (simp add: catalog_at_def)
  have k: "\<forall>u. db_kept u \<longrightarrow> db_kept (id u :: db)" "op_keeps pool_kept (ret_op ())" by (simp_all add: kept)
  have "db_kept (snd (run_calls (ret_op ()) id ?cs s))" by (rule run_calls_kept[OF k open_file_kept[OF f(1) o(1)]]) simp
  then have "db_kept s1" unfolding run by simp
  then have "dirty_allocated (ts_pool s1)" by (rule catalog_dirty_allocated[OF at])
  with history_keeps_file[OF f(1) _ o(1) k run] obtain g d where "db_close s1 = (Inr (), g)" "dm_open (Some g) = Inr d" by auto
  then show ?thesis using o(1) run e by blast
qed

text \<open>
  How a program gets there: the disk manager accepts a file whose free list names a page that the file does not have, the next table
  gets that page, and the destructor of the pool ends the program
\<close>

lemma bad_free_list_terminates:
  assumes "file_kept d" "free_list d = fl @ [q]" "disk_capacity d \<le> q" "q \<noteq> INVALID_PAGE_ID" "0 < n" "n < 2 ^ 32"
  obtains p where "heap_create (bpm_initial d n) = (Inr q, p)" "fst (bpm_close p) = Inl Terminated"
proof -
  obtain m where n: "n = Suc m" using assms(5) by (cases n) simp_all
  obtain x where x: "sp_init (replicate kPAGE_SIZE 0) = Inr x" using fresh_page_exists by blast
  have k0: "pool_kept (bpm_initial d n)"
    using assms(1,6) by (simp add: pool_kept_def frames_sized_def bpm_initial_def page_default_def)
  obtain p where p: "heap_create (bpm_initial d n) = (Inr q, p)" "pool_size p = 1" "p_is_dirty (frames p ! 0)" "p_page_id (frames p ! 0) = q"
    "disk_capacity (pool_disk p) = disk_capacity d"
    using assms(2,4) x
    by (simp add: heap_create_def bpm_new_page_def bpm_swap_page_def bpm_find_next_frame_def bpm_initial_def n op_simps bind_op_def on_disk_def
        dm_allocate_page_def frame_op_def put_frame_def page_default_def page_reset_memory_def page_inc_pin_count_def with_pinned_def
        page_update_def pinned_data_def write_data_def pinned_destroy_def bpm_unpin_page_def page_set_dirty_def page_dec_pin_count_def
        pinned_page_id_def INVALID_FRAME_ID_def)
  have "pool_kept p" by (rule op_keepsD[OF heap_create_kept p(1) k0])
  then have "fst (bpm_close p) = Inl Terminated" using close_result p(2-5) assms(3) by (auto simp: dirty_allocated_def)
  then show ?thesis using that p(1) by blast
qed

section \<open>No history breaks the locks\<close>

definition locks_sound :: "db \<Rightarrow> bool" where
  \<comment> \<open>every request in a queue is granted and known to its transaction; who has a record exclusively is the only one\<close>
  "locks_sound s \<longleftrightarrow>
     (\<forall>r. \<forall>q\<in>set (queue_of s r). req_granted q \<and> (\<exists>x. transactions s (req_tx q) = Some x \<and> r \<in> locks_of (req_mode q) x)) \<and>
     (\<forall>t1 t2 x1 x2 r. transactions s t1 = Some x1 \<longrightarrow> transactions s t2 = Some x2 \<longrightarrow> t1 \<noteq> t2 \<longrightarrow>
        r \<in> set (exclusive_locks x1) \<longrightarrow> r \<notin> set (shared_locks x2) \<and> r \<notin> set (exclusive_locks x2))"

text \<open>
  C6: locks over histories. One thread opens a database and interleaves any number of transactions in any way, up to as many as there
  are identifiers: begins, commits, rolls back, creates and drops tables, inserts, reads, updates, deletes and queries rows, with
  calls that return and calls that throw. Afterwards (and where a failed assertion or undefined behaviour stops it) no request is left waiting, every granted request is known to its
  transaction, and a record that one transaction has exclusively is locked by no other.
\<close>

theorem history_keeps_locks:
  assumes "db_open (Some f) n = Inr s" "begins cs \<le> 2 ^ 64"
  shows "locks_sound (snd (run_calls (ret_op ()) id cs s))"
proof -
  obtain m where k: "tx_kept m (snd (run_calls (ret_op ()) id cs s))"
    using run_calls_locks[OF open_tx_kept[OF assms(1)]] assms(2) by auto
  note d = tx_keptD[OF k]
  show ?thesis
    unfolding locks_sound_def using d(2) lk_invD(4)[OF d(1)] inv_exclusive[OF d(1)] by blast
qed

theorem history_keeps_locks_witness:
  "\<exists>s. db_open (Some empty_file) 128 = Inr s \<and>
     locks_sound (snd (run_calls (ret_op ()) id [Call_Begin, Call_Begin, Call_Create ''ducks'' sample_schema (Some 0), Call_Query 5 0 (Some 1) sample_query, Call_Commit (Some 0)] s))"
proof -
  have f: "file_ok empty_file" "length (contents empty_file) < kPAGE_SIZE"
    by (simp_all add: file_ok_def empty_file_def kPAGE_SIZE_def)
  obtain s where s: "db_open (Some empty_file) 128 = Inr s" by (rule open_new_file[OF f, of 128]) simp_all
  have "begins [Call_Begin, Call_Begin, Call_Create ''ducks'' sample_schema (Some 0), Call_Query 5 0 (Some 1) sample_query, Call_Commit (Some 0)] \<le> 2 ^ 64"
    by (simp add: begins_def)
  from history_keeps_locks[OF s this] s show ?thesis by blast
qed

end
