(* ===== verification/Spec2Isabelle.thy ===== *)
theory Spec2Isabelle
  imports Slotted_Page_Spec Disk_Laws Buffer_Spec Heap_Spec Tuple_Laws Expression_Spec Lock_Spec Transaction_Spec Executor_Spec Handles Session_Spec
begin

text \<open>
  A verification development for simple-duck-dbms, a small database engine in C++23 (\<open>src/src\<close> and \<open>src/include/duck\<close>; the
  paths below are relative to these two).

  \<^bold>\<open>The program and its parts.\<close> \<open>Database\<close> owns a \<open>DiskManager\<close> (one file of pages), a \<open>BufferPoolManager\<close> (frames over the
  pages), a \<open>LockManager\<close>, a \<open>TransactionManager\<close> and a \<open>Catalog\<close>. The catalog keeps the tables by name and, on the pages, in a
  table of its own that starts on page 1. A \<open>Table\<close> turns tuples into bytes and back, takes record locks and writes the undo log
  of the transaction; below it a \<open>TableHeap\<close> is a chain of slotted pages that it reads and writes through pinned frames of the
  pool. Queries are trees of operators over table scans with expressions over rows.

  \<^bold>\<open>How the code is modelled.\<close> Every function is a HOL function on an explicit state, with \<open>error + 'a\<close> as its result:
  \<open>error\<close> (in \<open>Prelude\<close>) has the exceptions, the failed assertion, undefined behaviour and divergence, and an operation that
  throws still gives the state it left behind. An exception that leaves a destructor is \<open>std::terminate\<close> (\<open>noexcept_op\<close>): \<open>db_close\<close>
  says how destroying the database ends and what the file holds then. A history (\<open>run_calls\<close>) goes on after an exception, and stops at a
  failed assertion and at undefined behaviour. Integers have their C++ width; pages and tuples are byte lists; a pointer to a frame
  or a table is its number, \<open>nullptr\<close> is \<open>None\<close>; \<open>double\<close> and \<open>float\<close> are their bit patterns.

  \<^item> \<open>Slotted_Page\<close>: \<open>table/slotted_page.cpp\<close>, all operations, on the bytes of a page (\<open>sp_...\<close>).
  \<^item> \<open>Disk_Manager\<close>: \<open>storage/disk_manager.cpp\<close> (\<open>dm_...\<close>); \<open>pread\<close>, \<open>pwrite\<close> and the file size as POSIX describes them.
  \<^item> \<open>Buffer_Pool\<close>: \<open>buffer/page.cpp\<close>, \<open>buffer/replacer.cpp\<close> (\<open>rp_...\<close>), \<open>buffer/pool_manager.cpp\<close> (\<open>bpm_...\<close>), scopes with a
    \<open>PinnedPage\<close> (\<open>with_pinned\<close>); \<open>Handles\<close>: moving and assigning \<open>PinnedPage\<close> and \<open>TableHeap::Scan\<close> objects.
  \<^item> \<open>Table_Heap\<close>: \<open>table/table_heap.cpp\<close> (\<open>heap_...\<close>), with the cursor.
  \<^item> \<open>Schema\<close>, \<open>Value\<close>, \<open>Floating\<close>, \<open>Tuple\<close>: \<open>tuple/column.cpp\<close>, \<open>tuple/schema.cpp\<close>, \<open>tuple/value.cpp\<close>, \<open>tuple/tuple.cpp\<close>.
  \<^item> \<open>Expression\<close>, \<open>Executor\<close>: \<open>execution/expression\<close>, \<open>execution/operator\<close>, \<open>execution/executor.cpp\<close>, \<open>execution/query_result.cpp\<close>.
  \<^item> \<open>Lock_Manager\<close>: \<open>transaction/lock_manager.cpp\<close>, \<open>transaction/transaction.hpp\<close>; \<open>Table\<close>: \<open>table/table.cpp\<close>;
    \<open>Catalog\<close>: \<open>catalog/catalog.cpp\<close>; \<open>Transaction\<close>: \<open>transaction/manager.cpp\<close>, \<open>transaction/undo.cpp\<close>, \<open>database/database.cpp\<close>.
    Their states extend each other: \<open>lock_state\<close>, \<open>table_state\<close>, \<open>db\<close>.
  \<^item> \<open>Duck_Main\<close>: \<open>main.cpp\<close>.

  \<^bold>\<open>What is shown.\<close> A theory \<open>X_Laws\<close> holds the abstract view of a part and the laws of its operations, \<open>X_Spec\<close> (for a few parts
  the end of \<open>X_Laws\<close>) the properties.

  \<^item> A slotted page is a map from slots to tuples (\<open>pg_tuple\<close>) under the invariant \<open>page_ok\<close>; every operation keeps the invariant
    and acts on the map as it says, compaction changes nothing that can be seen (\<open>Slotted_Page_Laws\<close>, \<open>Slotted_Page_Spec\<close>).
  \<^item> A disk is its pages and the set of pages in use, restored by reopening (\<open>Disk_Laws\<close>). A pool is the contents of all pages and
    the pin counts: caching, eviction and write-back cannot be seen; the replacer is an LRU list (\<open>Buffer_Laws\<close>, \<open>Buffer_Spec\<close>).
  \<^item> A heap is a map from record identifiers to tuples under \<open>heap_inv\<close>; insertion, update, deletion, restoration, the scan and
    the walk along the pages are related to that map and touch no page of others (\<open>heap_frame\<close>; \<open>Heap_Laws\<close>, \<open>Heap_Spec\<close>).
  \<^item> Schemas and tuples are read back as they were written; which tuples can be written (\<open>Schema\<close>, \<open>Tuple_Laws\<close>). Comparisons agree
    with the order of numbers, the connectives are three-valued logic, well-typed expressions do not throw (\<open>Expression_Spec\<close>).
  \<^item> Locks: a step relation \<open>lm_step\<close> of all interleavings, mutual exclusion, two-phase locking, a waiting request can be granted or
    times out, and every call is a run of steps (\<open>Lock_Laws\<close>, \<open>Lock_Spec\<close>).
  \<^item> Tables and transactions: reading back, rollback, the outcome of \<open>abort\<close> and \<open>commit\<close> (\<open>Table_Laws\<close>, \<open>Transaction_Laws\<close>,
    \<open>Transaction_Spec\<close>). A query, also one that locks the records for its transaction, gives the rows of its relational
    expression (\<open>Executor_Laws\<close>, \<open>Executor_Spec\<close>).
  \<^item> The catalog in memory and on the pages stay in step when tables are created, dropped and loaded; a new file, a restart
    (\<open>Catalog_Laws\<close>, \<open>Catalog_Spec\<close>, \<open>Database_Laws\<close>, \<open>Database_Spec\<close>).
  \<^item> \<open>Kept\<close>: rules that carry an invariant through an operation on every branch (\<open>op_keeps\<close>), and with them \<open>file_kept\<close> (the
    file is a database file) through the disk manager, the pool and the heap. \<open>Calls\<close>: all calls of the database as data
    (\<open>db_call\<close>), what an invariant must survive to survive all of them, and two such invariants: \<open>db_kept\<close> (the file) and
    \<open>tx_kept\<close> (queues, locks and transactions agree, nobody waits).
  \<^item> \<open>Session_Laws\<close>, \<open>Session_Spec\<close>: the parts together. From a new file through the catalog, a table, a transaction and the
    destructors to the next opening: what was committed is there and nothing else; after any history of calls, whatever they throw,
    the destructors leave a file that can be opened, or the program is terminated because a changed page is not a page of the file
    (\<open>dirty_allocated\<close>); no history of one thread leaves conflicting or orphaned locks.

  The code does not always do what it means to. The lemmas and properties that show it say so in their text: a lock upgrade that
  gives up the shared lock, a commit after an abort, a rollback that stops at an exception or that cannot put a tuple back because its
  space was reused, a move that forgets the dirty mark, an update that loses the old tuple, comparisons of negative integers with floating-point numbers, and others.

  \<^bold>\<open>Interfaces.\<close> \<open>replacement_policy\<close> (interpreted on \<open>rp_...\<close>), \<open>page_device\<close> (what the pool asks of the disk, on \<open>dm_...\<close>),
  \<open>slot_store\<close> (what the heap asks of a page, on \<open>sp_...\<close>), \<open>page_store\<close> (what the heap asks of the pool), \<open>prefix_codec\<close> (what the
  schema asks of its columns), \<open>row_cursor\<close> (what an operator asks of its child, on the table scan), \<open>call_invariant\<close> and
  \<open>alone_invariant\<close> (what an invariant of the database asks of the layers below the calls, on \<open>db_kept\<close> and \<open>tx_kept\<close>).

  \<^bold>\<open>Bounds.\<close> \<open>kCHAIN_FUEL = 2 ^ 32\<close> steps bound the loops along a chain of pages: a page identifier has 32 bits, so a chain without a
  cycle is shorter (\<open>chain_length\<close>, \<open>all_pages_terminates\<close>). \<open>kSCAN_FUEL = 2 ^ 48 + 1\<close> bounds the loops over rows: there are
  \<open>2 ^ 48\<close> record identifiers (\<open>heap_list_fuel\<close>). Both are enough whenever the invariants hold, so \<open>Diverges\<close> does not occur there;
  the fuel of a filter is an argument, and \<open>query_relational\<close> asks only that it exceeds the number of rows.

  \<^bold>\<open>Concurrency.\<close> A latch makes the code between its acquisition and its release one step. The lock manager is modelled with all
  its interleavings. Elsewhere what other threads do is a parameter at the places where the code gives up its latch: \<open>others\<close> while a lock
  request waits, \<open>alloc\<close> while \<open>TableHeap::insert_tuple\<close> allocates a page. Properties of tables and above are about one thread: they
  fix \<open>alloc\<close> to do nothing, and hold for every \<open>others\<close>; \<open>session_survives_restart\<close> (while it writes) and \<open>history_keeps_locks\<close>
  fix \<open>others\<close> too, and \<open>history_keeps_file\<close> lets both be anything that keeps the file.

  \<^bold>\<open>Not modelled.\<close> Data races between latches (a read of a page by one thread while another evicts it), the memory model, the texts of
  the standard library's exceptions (a parameter of \<open>Duck_Main\<close>), messages printed as warnings by the disk manager and the catalog,
  allocation failure, the order in which a hash map lists its entries (\<open>all_tables\<close> is a set) and its hash function. Declarations
  in the headers have no definition of their own: their members are fields of the records, their functions are modelled where
  they are defined. Getters are the fields they read.
\<close>

end
